(* ===== verification/Errors.thy ===== *)
theory Errors
  imports Main
begin

text \<open>
  The sentinel errors of \<open>errors.go\<close>, the error values of Go's \<open>io\<close> package that the code
  compares against, and the wrapping done by \<open>fmt.Errorf\<close> with \<open>%w\<close>.

  \<open>Wrap fmt es\<close> is \<open>fmt.Errorf(fmt, ...)\<close>: \<open>es\<close> are the errors at the \<open>%w\<close> verbs, in order
  (a nil error at a \<open>%w\<close> verb wraps nothing); the other operands only reach the message text
  and are left out.  \<open>Foreign\<close> is an error value made outside this repository (a reader's own
  error, an error of a library or of the operating system).
\<close>

datatype go_error =
    ErrIndexOutOfRange
  | ErrTxIndexOutOfBounds
  | ErrHeightNegative
  | ErrNotPowerOfTwo
  | ErrSubtreeFull
  | ErrSubtreeNil
  | ErrSubtreeNotEmpty
  | ErrSubtreeNodesEmpty
  | ErrNoSubtreesAvailable
  | ErrCoinbasePlaceholderMisuse
  | ErrConflictingNodeNotInSubtree
  | ErrNodeNotFound
  | ErrTargetHeightTooSmall
  | ErrParentTxHashesMismatch
  | ErrTxHashMismatch
  | ErrSubtreeLengthMismatch
  | ErrCannotSerializeSubtreeNotSet
  | ErrReadError
  | ErrTransactionNil
  | ErrTransactionWrite
  | ErrTransactionRead
  | ErrCapacityNotPositive
  | IoEOF
  | IoErrUnexpectedEOF
  | Foreign string
  | Wrap string "go_error list"

text \<open>\<open>errors.Is\<close>: the error itself or an error in the tree of the errors it wraps.\<close>

fun errors_is :: "go_error \<Rightarrow> go_error \<Rightarrow> bool" where
  "errors_is (Wrap fmt es) target = (Wrap fmt es = target \<or> (\<exists>e\<in>set es. errors_is e target))"
| "errors_is e target = (e = target)"

lemma errors_is_refl [simp]: "errors_is e e"
  by (cases e) simp_all

lemma errors_is_Wrap: "e \<in> set es \<Longrightarrow> errors_is e t \<Longrightarrow> errors_is (Wrap fmt es) t"
  by auto

end
