(* ===== verification/Go_Prelude.thy ===== *)
theory Go_Prelude
  imports Errors "HOL-Library.Word"
begin

text \<open>
  What the components share of Go itself: the outcome of a call (a value, an error, a panic),
  machine integers, slices with their spare capacity, and indexing that panics out of range.
  The platform is Go on linux/amd64: \<open>int\<close> has 64 bits and \<open>make\<close> refuses more than
  \<open>2^48\<close> bytes.
\<close>

named_theorems go_simps \<comment> \<open>evaluation of the outcome monad and of indexing\<close>
named_theorems slice_simps \<comment> \<open>how slice operations act on elements and capacity\<close>

section \<open>Outcomes\<close>

datatype panic =
    NilDereference
  | IndexOutOfRange
  | SliceBoundsOutOfRange
  | MakeSliceLenOutOfRange
  | UnsafeSliceLenOutOfRange

datatype 'a outcome = Ok 'a | Fail go_error | Panic panic

fun obind :: "'a outcome \<Rightarrow> ('a \<Rightarrow> 'b outcome) \<Rightarrow> 'b outcome" where
  "obind (Ok x) f = f x"
| "obind (Fail e) f = Fail e"
| "obind (Panic p) f = Panic p"

fun omap :: "('a \<Rightarrow> 'b) \<Rightarrow> 'a outcome \<Rightarrow> 'b outcome" where
  "omap f (Ok x) = Ok (f x)"
| "omap f (Fail e) = Fail e"
| "omap f (Panic p) = Panic p"

fun on_fail :: "(go_error \<Rightarrow> go_error) \<Rightarrow> 'a outcome \<Rightarrow> 'a outcome" where
  "on_fail w (Fail e) = Fail (w e)"
| "on_fail w (Ok x) = Ok x"
| "on_fail w (Panic p) = Panic p"

text \<open>\<open>wrapping fmt r\<close>: \<open>if err != nil { return fmt.Errorf(fmt, err) }\<close>.\<close>

abbreviation wrapping :: "string \<Rightarrow> 'a outcome \<Rightarrow> 'a outcome" where
  "wrapping fmt r \<equiv> on_fail (\<lambda>e. Wrap fmt [e]) r"

definition is_ok :: "'a outcome \<Rightarrow> bool" where
  "is_ok r = (case r of Ok _ \<Rightarrow> True | _ \<Rightarrow> False)"

definition is_fail :: "'a outcome \<Rightarrow> bool" where
  "is_fail r = (case r of Fail _ \<Rightarrow> True | _ \<Rightarrow> False)"

definition is_panic :: "'a outcome \<Rightarrow> bool" where
  "is_panic r = (case r of Panic _ \<Rightarrow> True | _ \<Rightarrow> False)"

lemma is_simps [simp]:
  "is_ok (Ok x)" "\<not> is_ok (Fail e)" "\<not> is_ok (Panic p)"
  "is_fail (Fail e)" "\<not> is_fail (Ok x)" "\<not> is_fail (Panic p)"
  "is_panic (Panic p)" "\<not> is_panic (Ok x)" "\<not> is_panic (Fail e)"
  by (simp_all add: is_ok_def is_fail_def is_panic_def)

lemma is_fail_iff: "is_fail r \<longleftrightarrow> (\<exists>e. r = Fail e)"
  by (cases r) auto

lemma is_fail_on_fail [simp]: "is_fail (on_fail w r) = is_fail r"
  by (cases r) auto

lemma is_panic_on_fail [simp]: "is_panic (on_fail w r) = is_panic r"
  by (cases r) auto

lemma on_fail_eq_Ok [simp]: "on_fail w r = Ok x \<longleftrightarrow> r = Ok x"
  by (cases r) auto

lemma obind_eq_Ok: "obind r f = Ok y \<longleftrightarrow> (\<exists>x. r = Ok x \<and> f x = Ok y)"
  by (cases r) auto

lemma obind_assoc: "obind (obind r f) g = obind r (\<lambda>x. obind (f x) g)"
  by (cases r) auto

section \<open>Machine integers\<close>

type_synonym byte = "8 word"
type_synonym uint32 = "32 word"
type_synonym uint64 = "64 word"

text \<open>A \<open>[32]byte\<close> is read as the 256-bit number whose little-endian bytes are the array; the
  zero array is 0 and the array of \<open>0xFF\<close> bytes is \<open>- 1\<close>.\<close>

type_synonym hash = "256 word"

text \<open>Signed 64-bit wrap-around, and \<open>int(w)\<close> of an unsigned 64-bit value.\<close>

definition wrap64 :: "int \<Rightarrow> int" where
  "wrap64 i = (i + 2 ^ 63) mod 2 ^ 64 - 2 ^ 63"

definition int_of_uint64 :: "uint64 \<Rightarrow> int" where
  "int_of_uint64 w = wrap64 (uint w)"

definition min_int :: int where
  "min_int = - (2 ^ 63)"

lemma wrap64_id:
  assumes "- (2 ^ 63) \<le> i" and "i < 2 ^ 63"
  shows "wrap64 i = i"
proof -
  have "(i + 2 ^ 63) mod 2 ^ 64 = i + 2 ^ 63"
    using assms by (intro mod_pos_pos_trivial) simp_all
  then show ?thesis by (simp add: wrap64_def)
qed

lemma int_of_uint64_small: "unat w < 2 ^ 63 \<Longrightarrow> int_of_uint64 w = int (unat w)"
  unfolding int_of_uint64_def uint_nat by (rule wrap64_id) (simp_all del: of_nat_unat)

lemma unat_uint64_of_nat: "n < 2 ^ 64 \<Longrightarrow> unat (of_nat n :: uint64) = n"
  by (simp add: unat_of_nat take_bit_nat_eq_self)

lemma int_of_uint64_of_nat: "n < 2 ^ 63 \<Longrightarrow> int_of_uint64 (of_nat n) = int n"
  using int_of_uint64_small [of "of_nat n"] unat_uint64_of_nat [of n] by simp

section \<open>Indexing\<close>

text \<open>\<open>xs[i]\<close> and \<open>xs[i] = x\<close> with the run-time bounds check; the index is a Go \<open>int\<close>.\<close>

definition index_get :: "'a list \<Rightarrow> int \<Rightarrow> 'a outcome" where
  "index_get xs i = (if 0 \<le> i \<and> i < int (length xs) then Ok (xs ! nat i) else Panic IndexOutOfRange)"

definition index_set :: "'a list \<Rightarrow> int \<Rightarrow> 'a \<Rightarrow> 'a list outcome" where
  "index_set xs i x =
     (if 0 \<le> i \<and> i < int (length xs) then Ok (xs[nat i := x]) else Panic IndexOutOfRange)"

lemma index_get_nat [go_simps]: "i < length xs \<Longrightarrow> index_get xs (int i) = Ok (xs ! i)"
  by (simp add: index_get_def)

lemma index_set_nat [go_simps]: "i < length xs \<Longrightarrow> index_set xs (int i) x = Ok (xs[i := x])"
  by (simp add: index_set_def)

lemma index_get_not_Fail: "\<not> is_fail (index_get xs i)"
  by (simp add: index_get_def)

lemma index_get_eq_Ok:
  "index_get xs i = Ok x \<longleftrightarrow> 0 \<le> i \<and> i < int (length xs) \<and> x = xs ! nat i"
  by (auto simp: index_get_def)

lemma index_set_eq_Ok:
  "index_set xs i y = Ok ys \<longleftrightarrow> 0 \<le> i \<and> i < int (length xs) \<and> ys = xs[nat i := y]"
  by (auto simp: index_set_def)

section \<open>Slices\<close>

text \<open>
  A slice is nil, or its elements followed by the unused rest of its backing array, so its
  length and capacity are determined by the value and no well-formedness condition is needed.
  A slice of the program is the only user of its backing array: every place where the code
  would share one is written out at the operation concerned.
\<close>

datatype 'a slice = NilSlice | Slice "'a list" "'a list"

primrec elems :: "'a slice \<Rightarrow> 'a list" where
  "elems NilSlice = []"
| "elems (Slice es sp) = es"

primrec spare :: "'a slice \<Rightarrow> 'a list" where
  "spare NilSlice = []"
| "spare (Slice es sp) = sp"

definition slice_len :: "'a slice \<Rightarrow> nat" where
  "slice_len s = length (elems s)"

definition slice_cap :: "'a slice \<Rightarrow> nat" where
  "slice_cap s = length (elems s) + length (spare s)"

text \<open>\<open>make([]T, len, cap)\<close> for elements of \<open>esize\<close> bytes whose zero value is \<open>z\<close>: it panics on
  a negative length, a capacity below the length, or more than \<open>2^48\<close> bytes.\<close>

definition max_alloc :: int where
  "max_alloc = 2 ^ 48"

definition make_slice :: "int \<Rightarrow> 'a \<Rightarrow> int \<Rightarrow> int \<Rightarrow> 'a slice outcome" where
  "make_slice esize z len cap =
     (if len < 0 \<or> cap < len \<or> max_alloc < esize * cap then Panic MakeSliceLenOutOfRange
      else Ok (Slice (replicate (nat len) z) (replicate (nat (cap - len)) z)))"

text \<open>\<open>append(s, x)\<close>: in place while there is room; otherwise into a new array whose capacity
  \<open>grow cap needed\<close> is the run-time system's choice, never less than what is needed.\<close>

type_synonym growth = "nat \<Rightarrow> nat \<Rightarrow> nat"

definition append_elem :: "growth \<Rightarrow> 'a \<Rightarrow> 'a slice \<Rightarrow> 'a \<Rightarrow> 'a slice" where
  "append_elem grow z s x =
     (case spare s of
        _ # sp \<Rightarrow> Slice (elems s @ [x]) sp
      | [] \<Rightarrow> (let need = Suc (slice_len s) in
               Slice (elems s @ [x]) (replicate (grow (slice_cap s) need - need) z)))"

text \<open>\<open>s[:n]\<close>, allowed up to the capacity.\<close>

definition reslice :: "'a slice \<Rightarrow> int \<Rightarrow> 'a slice outcome" where
  "reslice s n =
     (if 0 \<le> n \<and> n \<le> int (slice_cap s)
      then (let whole = elems s @ spare s in
            Ok (if s = NilSlice then NilSlice else Slice (take (nat n) whole) (drop (nat n) whole)))
      else Panic SliceBoundsOutOfRange)"

text \<open>\<open>append(s[:i], s[i+1:]...)\<close> for an index in range: the tail moves one place to the left in
  the same array, which keeps the old last element just beyond the new length.\<close>

definition remove_elem :: "'a slice \<Rightarrow> nat \<Rightarrow> 'a slice" where
  "remove_elem s i = Slice (take i (elems s) @ drop (Suc i) (elems s)) (last (elems s) # spare s)"

lemma elems_append_elem [simp, slice_simps]: "elems (append_elem grow z s x) = elems s @ [x]"
  by (simp add: append_elem_def Let_def split: list.split)

lemma slice_cap_append_elem [slice_simps]:
  "slice_len s < slice_cap s \<Longrightarrow> slice_cap (append_elem grow z s x) = slice_cap s"
  by (auto simp: append_elem_def slice_cap_def slice_len_def split: list.split)

lemma slice_len_le_cap [simp]: "slice_len s \<le> slice_cap s"
  by (simp add: slice_len_def slice_cap_def)

lemma elems_remove_elem [simp, slice_simps]:
  "elems (remove_elem s i) = take i (elems s) @ drop (Suc i) (elems s)"
  by (simp add: remove_elem_def)

lemma slice_cap_remove_elem [slice_simps]:
  "i < slice_len s \<Longrightarrow> slice_cap (remove_elem s i) = slice_cap s"
  by (simp add: remove_elem_def slice_cap_def slice_len_def)

lemma make_slice_Ok [slice_simps]:
  "make_slice esize z len cap = Ok s \<longleftrightarrow>
     0 \<le> len \<and> len \<le> cap \<and> esize * cap \<le> max_alloc \<and>
     s = Slice (replicate (nat len) z) (replicate (nat (cap - len)) z)"
  by (auto simp: make_slice_def)

end
