(* ===== verification/Power_Of_Two.thy ===== *)
theory Power_Of_Two
  imports Go_Prelude
begin

text \<open>
  \<open>power_of_two.go\<close> and \<open>compare.go\<close>, with the roundings of base-2 logarithms that the other
  components take through \<open>math.Log2\<close>.

  \<open>math.Ceil(math.Log2(float64(n)))\<close> and \<open>math.Log2(float64(n))\<close> rounded down are modelled as
  the exact integer logarithms \<open>clog2\<close> and \<open>flog2\<close>.  The doubles agree with them for every
  \<open>n\<close> up to \<open>2^46\<close>, since there \<open>log2 (2^k \<plusminus> 1)\<close> is more than a unit in the last place away
  from \<open>k\<close>; a slice of 48-byte nodes cannot be longer than that.  Beyond \<open>2^46\<close> the double may
  round to the neighbouring integer.  \<open>int(x)\<close> of a float out of the range of \<open>int\<close> (an
  infinity, NaN, \<open>2^63\<close>) is the smallest \<open>int\<close>, as the amd64 conversion instruction gives it.
\<close>

unbundle bit_operations_syntax

section \<open>Integer logarithms\<close>

fun clog2 :: "nat \<Rightarrow> nat" where
  "clog2 n = (if n \<le> 1 then 0 else Suc (clog2 ((n + 1) div 2)))"

fun flog2 :: "nat \<Rightarrow> nat" where
  "flog2 n = (if n \<le> 1 then 0 else Suc (flog2 (n div 2)))"

declare clog2.simps [simp del] flog2.simps [simp del]

lemma clog2_le_iff: "clog2 n \<le> k \<longleftrightarrow> n \<le> 2 ^ k"
proof (induction n arbitrary: k rule: clog2.induct)
  case (1 n)
  show ?case
  proof (cases "n \<le> 1")
    case True
    then show ?thesis
      using le_trans [OF True, of "2 ^ k"] by (simp add: clog2.simps [of n])
  next
    case False
    show ?thesis
    proof (cases k)
      case 0
      with False show ?thesis by (simp add: clog2.simps [of n])
    next
      case (Suc j)
      have "clog2 n \<le> k \<longleftrightarrow> clog2 ((n + 1) div 2) \<le> j"
        using False Suc by (simp add: clog2.simps [of n])
      also have "\<dots> \<longleftrightarrow> (n + 1) div 2 \<le> 2 ^ j"
        using "1.IH" [OF False] by simp
      also have "\<dots> \<longleftrightarrow> n \<le> 2 ^ k"
        using Suc by auto
      finally show ?thesis .
    qed
  qed
qed

lemma le_flog2_iff: "1 \<le> n \<Longrightarrow> k \<le> flog2 n \<longleftrightarrow> 2 ^ k \<le> n"
proof (induction n arbitrary: k rule: flog2.induct)
  case (1 n)
  show ?case
  proof (cases "n \<le> 1")
    case True
    with "1.prems" have "n = 1" by simp
    then show ?thesis
      using flog2.simps [of 1] power_increasing_iff [of "2::nat" k 0] by simp
  next
    case False
    show ?thesis
    proof (cases k)
      case 0
      with "1.prems" show ?thesis by simp
    next
      case (Suc j)
      have "k \<le> flog2 n \<longleftrightarrow> j \<le> flog2 (n div 2)"
        using False Suc by (simp add: flog2.simps [of n])
      also have "\<dots> \<longleftrightarrow> 2 ^ j \<le> n div 2"
        using "1.IH" [OF False, of j] False by simp
      also have "\<dots> \<longleftrightarrow> 2 ^ k \<le> n"
        using Suc by auto
      finally show ?thesis .
    qed
  qed
qed

lemma clog2_upper: "n \<le> 2 ^ clog2 n"
  using clog2_le_iff [of n "clog2 n"] by simp

lemma clog2_pow2 [simp]: "clog2 (2 ^ k) = k"
  using clog2_le_iff [of "2 ^ k" k] clog2_le_iff [of "2 ^ k" "clog2 (2 ^ k)"]
  by (auto intro!: antisym)

lemma clog2_small [simp]: "clog2 0 = 0" "clog2 (Suc 0) = 0"
  by (simp_all add: clog2.simps)

lemma clog2_pos_iff: "0 < clog2 n \<longleftrightarrow> 2 \<le> n"
  using clog2_le_iff [of n 0] by auto

lemma clog2_mono: "m \<le> n \<Longrightarrow> clog2 m \<le> clog2 n"
  using clog2_le_iff [of m "clog2 n"] clog2_upper [of n] by linarith

lemma clog2_lower: "2 \<le> n \<Longrightarrow> 2 ^ (clog2 n - 1) < n"
proof -
  assume "2 \<le> n"
  then have "\<not> clog2 n \<le> clog2 n - 1" using clog2_pos_iff [of n] by linarith
  then show ?thesis unfolding clog2_le_iff by simp
qed

lemma clog2_less_double: "1 \<le> n \<Longrightarrow> 2 ^ clog2 n < 2 * n"
proof (cases "n = 1")
  case False
  assume "1 \<le> n"
  with False have "2 \<le> n" by simp
  then have "2 ^ (clog2 n - 1) < n" and "0 < clog2 n"
    by (rule clog2_lower, simp add: clog2_pos_iff)
  then show ?thesis by (cases "clog2 n") auto
qed simp

lemma clog2_Suc_half: "2 \<le> n \<Longrightarrow> clog2 n = Suc (clog2 ((n + 1) div 2))"
  by (subst clog2.simps) simp

lemma flog2_lower: "1 \<le> n \<Longrightarrow> 2 ^ flog2 n \<le> n"
  using le_flog2_iff [of n "flog2 n"] by simp

lemma flog2_upper: "1 \<le> n \<Longrightarrow> n < 2 ^ Suc (flog2 n)"
  using le_flog2_iff [of n "Suc (flog2 n)"] by (simp del: power_Suc add: not_le)

lemma clog2_flog2: "1 \<le> n \<Longrightarrow> clog2 n = (if \<exists>k. n = 2 ^ k then flog2 n else Suc (flog2 n))"
proof -
  assume n: "1 \<le> n"
  show ?thesis
  proof (cases "\<exists>k. n = 2 ^ k")
    case True
    then obtain k where k: "n = 2 ^ k" by blast
    have "k \<le> flog2 n" using n k by (simp add: le_flog2_iff)
    moreover have "2 ^ flog2 n \<le> (2::nat) ^ k" using flog2_lower [OF n] k by simp
    then have "flog2 n \<le> k" by simp
    ultimately show ?thesis using True k by simp
  next
    case False
    have "2 ^ flog2 n < n" using flog2_lower [OF n] False by (metis le_neq_implies_less)
    then have "\<not> clog2 n \<le> flog2 n" by (simp add: clog2_le_iff)
    moreover have "clog2 n \<le> Suc (flog2 n)"
      using flog2_upper [OF n] by (simp add: clog2_le_iff del: power_Suc)
    ultimately show ?thesis using False by simp
  qed
qed

section \<open>\<open>math\<close> and \<open>math/bits\<close>\<close>

text \<open>\<open>int(math.Ceil(math.Log2(float64(n))))\<close>: minus infinity for 0, NaN below 0.  The floating-point
  logarithm is exact for the powers of two, and its rounding cannot reach the next integer for
  \<open>n \<le> 2^47\<close>, which no slice of nodes exceeds; the model uses the exact logarithm everywhere.\<close>

definition ceil_log2 :: "int \<Rightarrow> int" where
  "ceil_log2 n = (if n \<le> 0 then min_int else int (clog2 (nat n)))"

text \<open>\<open>int(math.Pow(2, float64(e)))\<close>: a fraction for a negative exponent.\<close>

definition pow2_int :: "int \<Rightarrow> int" where
  "pow2_int e = (if e < 0 then 0 else if e < 63 then 2 ^ nat e else min_int)"

text \<open>\<open>1 << e\<close> on \<open>int\<close>.\<close>

definition shl1_int :: "int \<Rightarrow> int" where
  "shl1_int e = (if e < 63 then 2 ^ nat e else if e = 63 then min_int else 0)"

text \<open>\<open>bits.Len(x)\<close>.\<close>

definition bits_Len :: "uint64 \<Rightarrow> nat" where
  "bits_Len x = (if x = 0 then 0 else Suc (flog2 (unat x)))"

section \<open>\<open>compare.go\<close>\<close>

definition Min_go :: "'a::linorder \<Rightarrow> 'a \<Rightarrow> 'a" where
  "Min_go a b = (if a < b then a else b)"

definition Max_go :: "'a::linorder \<Rightarrow> 'a \<Rightarrow> 'a" where
  "Max_go a b = (if a > b then a else b)"

lemma Min_go_min [simp]: "Min_go a b = min a b"
  by (auto simp: Min_go_def min_def)

lemma Max_go_max [simp]: "Max_go a b = max a b"
  by (auto simp: Max_go_def max_def)

section \<open>\<open>power_of_two.go\<close>\<close>

definition CeilPowerOfTwo :: "int \<Rightarrow> int" where
  "CeilPowerOfTwo num =
     (if num \<le> 0 then 1
      else (let msbPos = ceil_log2 num in pow2_int msbPos))"

definition IsPowerOfTwo :: "int \<Rightarrow> bool" where
  "IsPowerOfTwo num = (if num \<le> 0 then False else num AND (num - 1) = 0)"

text \<open>For a negative \<open>n\<close> other than the smallest \<open>int\<close> the logarithm is NaN, its conversion to
  \<open>uint\<close> is at least \<open>2^63\<close>, and the shift gives 0.\<close>

definition NextPowerOfTwo :: "int \<Rightarrow> int" where
  "NextPowerOfTwo n =
     (if n AND wrap64 (n - 1) = 0 then n
      else if n < 0 then 0
      else (let exponent = int (flog2 (nat n)) + 1 in shl1_int exponent))"

definition NextLowerPowerOfTwo :: "uint64 \<Rightarrow> uint64" where
  "NextLowerPowerOfTwo x = (if x = 0 then 0 else push_bit (bits_Len x - 1) 1)"

text \<open>The bit trick of the two tests, for a positive number.\<close>

lemma and_pred_odd: "odd n \<Longrightarrow> n AND (n - 1) = n - (1::int)"
proof -
  assume "odd n"
  then obtain m where "n = 2 * m + 1" by (elim oddE)
  then show ?thesis by (simp add: and_int_rec [of "2 * m + 1"])
qed

lemma and_pred_even: "(2 * m) AND (2 * m - 1) = 2 * (m AND (m - (1::int)))"
proof -
  have "(2 * m - 1) div 2 = m - 1" by simp
  then show ?thesis by (subst and_int_rec) simp
qed

lemma and_pred_eq_0_iff: "0 < n \<Longrightarrow> n AND (n - 1) = (0::int) \<longleftrightarrow> (\<exists>k. n = 2 ^ k)"
proof (induction "nat n" arbitrary: n rule: less_induct)
  case less
  show ?case
  proof (cases "even n")
    case True
    then obtain m where m: "n = 2 * m" by (elim evenE)
    with less.prems have "0 < m" and "nat m < nat n" by auto
    then have IH: "m AND (m - 1) = 0 \<longleftrightarrow> (\<exists>k. m = 2 ^ k)" by (intro less.hyps)
    have "(\<exists>k. m = 2 ^ k) \<longleftrightarrow> (\<exists>k. n = 2 ^ k)"
    proof
      assume "\<exists>k. n = 2 ^ k"
      then obtain k where k: "n = 2 ^ k" by blast
      with m \<open>0 < m\<close> show "\<exists>k. m = 2 ^ k" by (cases k) auto
    qed (use m in \<open>auto simp flip: power_Suc\<close>)
    with IH m show ?thesis by (simp add: and_pred_even)
  next
    case False
    have "(\<exists>k. n = 2 ^ k) \<longleftrightarrow> n = 1"
    proof
      assume "\<exists>k. n = 2 ^ k"
      then obtain k where "n = 2 ^ k" by blast
      with False show "n = 1" by (cases k) auto
    qed (use power_0 in metis)
    with False show ?thesis by (simp add: and_pred_odd)
  qed
qed

lemma IsPowerOfTwo_iff: "IsPowerOfTwo num \<longleftrightarrow> (\<exists>k. num = 2 ^ k)"
  using and_pred_eq_0_iff [of num] zero_less_power [of "2::int"]
  by (auto simp: IsPowerOfTwo_def not_le)

lemma pow2_int_nat: "k < 63 \<Longrightarrow> pow2_int (int k) = 2 ^ k"
  by (simp add: pow2_int_def)

lemma CeilPowerOfTwo_pos: "0 < num \<Longrightarrow> num \<le> 2 ^ 62 \<Longrightarrow> CeilPowerOfTwo num = 2 ^ clog2 (nat num)"
proof -
  assume "0 < num" and "num \<le> 2 ^ 62"
  then have "clog2 (nat num) \<le> 62" by (simp add: clog2_le_iff)
  then show ?thesis
    using \<open>0 < num\<close> by (simp add: CeilPowerOfTwo_def ceil_log2_def Let_def pow2_int_nat)
qed

lemma NextPowerOfTwo_pos: "0 < n \<Longrightarrow> n \<le> 2 ^ 62 \<Longrightarrow> NextPowerOfTwo n = 2 ^ clog2 (nat n)"
proof -
  assume n: "0 < n" and le: "n \<le> 2 ^ 62"
  then have w: "wrap64 (n - 1) = n - 1" by (intro wrap64_id) simp_all
  show ?thesis
  proof (cases "\<exists>k. n = 2 ^ k")
    case True
    then obtain k where k: "n = 2 ^ k" by blast
    then show ?thesis
      using n w and_pred_eq_0_iff [of n] by (auto simp: NextPowerOfTwo_def nat_power_eq)
  next
    case False
    then have nk: "\<not> (\<exists>k. nat n = 2 ^ k)"
      using n by (metis int_nat_eq less_imp_le of_nat_numeral of_nat_power)
    have "n AND wrap64 (n - 1) \<noteq> 0" using False n w by (simp add: and_pred_eq_0_iff)
    moreover have "clog2 (nat n) \<le> 62" using le by (simp add: clog2_le_iff)
    moreover have "clog2 (nat n) = Suc (flog2 (nat n))"
      using nk n clog2_flog2 [of "nat n"] by simp
    ultimately show ?thesis
      using n by (simp add: NextPowerOfTwo_def shl1_int_def nat_add_distrib)
  qed
qed

lemma bits_Len_pos: "x \<noteq> 0 \<Longrightarrow> bits_Len x = Suc (flog2 (unat x))"
  by (simp add: bits_Len_def)

lemma unat_pos: "x \<noteq> (0 :: 'a::len word) \<Longrightarrow> 1 \<le> unat x"
  by (simp add: Suc_le_eq unat_gt_0)

lemma unat_push_bit_1: "k < 64 \<Longrightarrow> unat (push_bit k 1 :: uint64) = 2 ^ k"
  by (simp only: unsigned_push_bit_eq) (simp add: push_bit_eq_mult take_bit_nat_eq_self)

lemma unat_pow2: "k < 64 \<Longrightarrow> unat (2 ^ k :: uint64) = 2 ^ k"
  using unat_push_bit_1 [of k] by simp

lemma unat_NextLowerPowerOfTwo: "x \<noteq> 0 \<Longrightarrow> unat (NextLowerPowerOfTwo x) = 2 ^ flog2 (unat x)"
proof -
  assume x: "x \<noteq> 0"
  then have "2 ^ flog2 (unat x) \<le> unat x" by (intro flog2_lower unat_pos)
  also have "unat x < 2 ^ 64" using unsigned_less [of x] by simp
  finally have "flog2 (unat x) < 64" by (simp only: power_strict_increasing_iff)
  with x show ?thesis by (simp add: NextLowerPowerOfTwo_def bits_Len_pos unat_pow2)
qed

section \<open>Properties\<close>

text \<open>\<open>IsPowerOfTwo\<close> answers true exactly for the powers of two, on every \<open>int\<close>.\<close>

theorem IsPowerOfTwo_correct: "IsPowerOfTwo num = (\<exists>k. num = 2 ^ k)"
  by (rule IsPowerOfTwo_iff)

text \<open>\<open>CeilPowerOfTwo\<close> returns the least power of two that is at least its argument, for
  every argument up to \<open>2^62\<close> (a negative one and zero included).\<close>

theorem CeilPowerOfTwo_least:
  assumes "num \<le> 2 ^ 62"
  shows "(\<exists>k. CeilPowerOfTwo num = 2 ^ k) \<and> num \<le> CeilPowerOfTwo num \<and>
    (\<forall>k. num \<le> 2 ^ k \<longrightarrow> CeilPowerOfTwo num \<le> 2 ^ k)"
proof (cases "0 < num")
  case True
  then have eq: "CeilPowerOfTwo num = 2 ^ clog2 (nat num)" using assms by (rule CeilPowerOfTwo_pos)
  have "num \<le> 2 ^ k \<longleftrightarrow> clog2 (nat num) \<le> k" for k
    using True by (simp add: clog2_le_iff)
  with eq show ?thesis by auto
next
  case False
  then show ?thesis by (simp add: CeilPowerOfTwo_def) (metis power_0)
qed

theorem CeilPowerOfTwo_least_witness: "CeilPowerOfTwo 5 = 8 \<and> (5::int) \<le> CeilPowerOfTwo 5"
proof -
  have "CeilPowerOfTwo 5 = 8" by code_simp
  moreover have "(5::int) \<le> CeilPowerOfTwo 5" using CeilPowerOfTwo_least [of 5] by simp
  ultimately show ?thesis by simp
qed

text \<open>the two upward roundings agree: the bit trick of \<open>NextPowerOfTwo\<close> computes what the
  logarithm of \<open>CeilPowerOfTwo\<close> computes, for every positive argument up to \<open>2^62\<close>.\<close>

theorem NextPowerOfTwo_eq_CeilPowerOfTwo:
  "0 < n \<Longrightarrow> n \<le> 2 ^ 62 \<Longrightarrow> NextPowerOfTwo n = CeilPowerOfTwo n"
  by (simp add: NextPowerOfTwo_pos CeilPowerOfTwo_pos)

theorem NextPowerOfTwo_eq_CeilPowerOfTwo_witness: "NextPowerOfTwo 9 = CeilPowerOfTwo 9"
  using NextPowerOfTwo_eq_CeilPowerOfTwo [of 9] by simp

text \<open>\<open>NextLowerPowerOfTwo\<close> returns the greatest power of two that is at most its argument,
  for every nonzero \<open>uint\<close> (a power of two is returned as it is).\<close>

theorem NextLowerPowerOfTwo_greatest:
  assumes "x \<noteq> 0"
  shows "(\<exists>k. unat (NextLowerPowerOfTwo x) = 2 ^ k) \<and> NextLowerPowerOfTwo x \<le> x \<and>
    (\<forall>k. 2 ^ k \<le> unat x \<longrightarrow> 2 ^ k \<le> unat (NextLowerPowerOfTwo x))"
  using assms le_flog2_iff [OF unat_pos [OF assms]] flog2_lower [OF unat_pos [OF assms]]
  by (auto simp: unat_NextLowerPowerOfTwo word_le_nat_alt)

theorem NextLowerPowerOfTwo_greatest_witness:
  "NextLowerPowerOfTwo 17 = 16 \<and> NextLowerPowerOfTwo 17 \<le> (17::uint64)"
proof -
  have "NextLowerPowerOfTwo 17 = 16" by code_simp
  moreover have "NextLowerPowerOfTwo 17 \<le> (17::uint64)"
    using NextLowerPowerOfTwo_greatest [of 17] by simp
  ultimately show ?thesis by simp
qed

end
