(* ===== verification/Merkle_Spec.thy ===== *)
theory Merkle_Spec
  imports Power_Of_Two
begin

text \<open>
  The abstract merkle tree the code promises to compute: Bitcoin's tree over a list of hashes,
  in which a level of odd length repeats its last hash.  \<open>H\<close> is the parent hash of two
  children.  The locale \<open>merkle_combine\<close> is the interface between this tree and an array of a
  power-of-two size whose unused places hold a marker: it says how a parent function must treat
  the marker for the array to compute the same tree.
\<close>

section \<open>Levels and root\<close>

fun level_up :: "('a \<Rightarrow> 'a \<Rightarrow> 'a) \<Rightarrow> 'a list \<Rightarrow> 'a list" where
  "level_up H [] = []"
| "level_up H [x] = [H x x]"
| "level_up H (x # y # r) = H x y # level_up H r"

lemma length_level_up [simp]: "length (level_up H xs) = (length xs + 1) div 2"
  by (induction H xs rule: level_up.induct) simp_all

lemma level_up_eq_Nil [simp]: "level_up H xs = [] \<longleftrightarrow> xs = []"
  by (cases "(H, xs)" rule: level_up.cases) simp_all

function merkle_root :: "('a \<Rightarrow> 'a \<Rightarrow> 'a) \<Rightarrow> 'a::zero list \<Rightarrow> 'a" where
  "merkle_root H [] = 0"
| "merkle_root H [x] = x"
| "merkle_root H (x # y # r) = merkle_root H (level_up H (x # y # r))"
  by pat_completeness auto
termination
  by (relation "measure (\<lambda>(H, xs). length xs)") auto

function merkle_levels :: "('a \<Rightarrow> 'a \<Rightarrow> 'a) \<Rightarrow> 'a list \<Rightarrow> 'a list list" where
  "merkle_levels H xs = (if length xs \<le> 1 then [xs] else xs # merkle_levels H (level_up H xs))"
  by pat_completeness auto
termination
  by (relation "measure (\<lambda>(H, xs). length xs)") auto

declare merkle_levels.simps [simp del]
declare merkle_root.simps(3) [simp del]

text \<open>No hash of the tree is the marker.\<close>

definition tree_nonzero :: "('a \<Rightarrow> 'a \<Rightarrow> 'a) \<Rightarrow> 'a::zero list \<Rightarrow> bool" where
  "tree_nonzero H xs = (\<forall>l\<in>set (merkle_levels H xs). 0 \<notin> set l)"

lemma merkle_root_step: "2 \<le> length xs \<Longrightarrow> merkle_root H xs = merkle_root H (level_up H xs)"
  by (cases "(H, xs)" rule: merkle_root.cases) (simp_all add: merkle_root.simps(3))

lemma tree_nonzero_leaves: "tree_nonzero H xs \<Longrightarrow> 0 \<notin> set xs"
  by (subst (asm) tree_nonzero_def, subst (asm) merkle_levels.simps) (auto split: if_splits)

lemma tree_nonzero_level_up:
  "tree_nonzero H xs \<Longrightarrow> 2 \<le> length xs \<Longrightarrow> tree_nonzero H (level_up H xs)"
  by (simp add: tree_nonzero_def merkle_levels.simps [of H xs])

lemma clog2_length_level_up: "2 \<le> length xs \<Longrightarrow> clog2 (length xs) = Suc (clog2 (length (level_up H xs)))"
  by (simp add: clog2_Suc_half)

lemma level_up_nth:
  "j < (length xs + 1) div 2 \<Longrightarrow>
    level_up H xs ! j =
      (if 2 * j + 1 < length xs then H (xs ! (2 * j)) (xs ! (2 * j + 1))
       else H (xs ! (2 * j)) (xs ! (2 * j)))"
proof (induction H xs arbitrary: j rule: level_up.induct)
  case (3 H x y r)
  then show ?case by (cases j) auto
qed auto

text \<open>The root is what remains after as many levels as the logarithm says.\<close>

lemma level_up_funpow_clog2:
  "xs \<noteq> [] \<Longrightarrow> (level_up H ^^ clog2 (length xs)) xs = [merkle_root H xs]"
proof (induction "length xs" arbitrary: xs rule: less_induct)
  case less
  show ?case
  proof (cases "2 \<le> length xs")
    case True
    then have "(level_up H ^^ clog2 (length xs)) xs =
        (level_up H ^^ clog2 (length (level_up H xs))) (level_up H xs)"
      by (simp add: clog2_length_level_up [of xs H] funpow_swap1)
    also have "\<dots> = [merkle_root H (level_up H xs)]"
      using True less.prems by (intro less.hyps) auto
    finally show ?thesis using True by (simp add: merkle_root_step)
  next
    case False
    with less.prems show ?thesis by (cases xs rule: list.exhaust) (auto simp: not_le)
  qed
qed

lemma merkle_root_funpow:
  "k \<le> clog2 (length xs) \<Longrightarrow> merkle_root H ((level_up H ^^ k) xs) = merkle_root H xs"
proof (induction k arbitrary: xs)
  case (Suc k)
  then have 2: "2 \<le> length xs" using clog2_pos_iff [of "length xs"] by linarith
  then have "k \<le> clog2 (length (level_up H xs))"
    using Suc.prems clog2_length_level_up [of xs H] by simp
  then show ?case using Suc.IH [of "level_up H xs"] 2 by (simp add: funpow_swap1 merkle_root_step)
qed simp

section \<open>Composition of trees\<close>

text \<open>A root lifted to a height by hashing it with itself, level by level.\<close>

definition padded_root :: "('a \<Rightarrow> 'a \<Rightarrow> 'a) \<Rightarrow> nat \<Rightarrow> 'a::zero list \<Rightarrow> 'a" where
  "padded_root H k xs = ((\<lambda>x. H x x) ^^ (k - clog2 (length xs))) (merkle_root H xs)"

lemma level_up_funpow_singleton: "(level_up H ^^ n) [x] = [((\<lambda>x. H x x) ^^ n) x]"
  by (induction n) simp_all

lemma level_up_funpow_padded:
  assumes "xs \<noteq> []" and "length xs \<le> 2 ^ k"
  shows "(level_up H ^^ k) xs = [padded_root H k xs]"
proof -
  have "clog2 (length xs) \<le> k" using assms(2) by (simp add: clog2_le_iff)
  then have "(level_up H ^^ k) xs =
      (level_up H ^^ (k - clog2 (length xs))) ((level_up H ^^ clog2 (length xs)) xs)"
    by (metis comp_apply funpow_add le_add_diff_inverse2)
  then show ?thesis
    using assms(1) by (simp add: level_up_funpow_clog2 level_up_funpow_singleton padded_root_def)
qed

lemma level_up_append: "even (length xs) \<Longrightarrow> level_up H (xs @ ys) = level_up H xs @ level_up H ys"
  by (induction H xs rule: level_up.induct) simp_all

lemma level_up_funpow_append:
  "2 ^ k dvd length xs \<Longrightarrow>
    (level_up H ^^ k) (xs @ ys) = (level_up H ^^ k) xs @ (level_up H ^^ k) ys"
proof (induction k arbitrary: xs ys)
  case (Suc k)
  then obtain m where m: "length xs = 2 * (2 ^ k * m)" by (auto simp: dvd_def)
  then have "even (length xs)" and "2 ^ k dvd length (level_up H xs)" by simp_all
  then show ?case by (simp only: funpow_Suc_right comp_apply level_up_append Suc.IH)
qed simp

text \<open>A list of transactions cut into pieces of \<open>2 ^ k\<close>, the last one possibly shorter.\<close>

definition well_split :: "nat \<Rightarrow> 'a list list \<Rightarrow> bool" where
  "well_split k cs =
     (cs \<noteq> [] \<and> (\<forall>c\<in>set (butlast cs). length c = 2 ^ k) \<and> last cs \<noteq> [] \<and> length (last cs) \<le> 2 ^ k)"

lemma level_up_funpow_split:
  "well_split k cs \<Longrightarrow> (level_up H ^^ k) (concat cs) = map (padded_root H k) cs"
proof (induction cs)
  case (Cons c cs)
  show ?case
  proof (cases "cs = []")
    case True
    with Cons.prems show ?thesis by (simp add: well_split_def level_up_funpow_padded)
  next
    case False
    with Cons.prems have c: "length c = 2 ^ k" and cs: "well_split k cs"
      by (auto simp: well_split_def)
    then have "c \<noteq> []" by auto
    with c Cons.IH [OF cs] show ?thesis
      by (simp add: level_up_funpow_append level_up_funpow_padded)
  qed
qed (simp add: well_split_def)

lemma well_split_length: "well_split k cs \<Longrightarrow> 2 \<le> length cs \<Longrightarrow> 2 ^ k < length (concat cs)"
proof -
  assume *: "well_split k cs" "2 \<le> length cs"
  then obtain c cs' where cs: "cs = c # cs'" "cs' \<noteq> []" by (cases cs) fastforce+
  with *(1) have "length c = 2 ^ k" "last cs' \<noteq> []" by (auto simp: well_split_def)
  moreover have "length (last cs') \<le> length (concat cs')"
    using cs(2) by (induction cs') auto
  moreover have "0 < length (last cs')" using \<open>last cs' \<noteq> []\<close> by simp
  ultimately have "2 ^ k < length c + length (concat cs')" by linarith
  then show ?thesis using cs by simp
qed

lemma merkle_root_split:
  assumes "well_split k cs" and "2 \<le> length cs"
  shows "merkle_root H (map (padded_root H k) cs) = merkle_root H (concat cs)"
proof -
  have "\<not> clog2 (length (concat cs)) \<le> k"
    using well_split_length [OF assms] by (simp add: clog2_le_iff del: length_concat)
  then show ?thesis
    using merkle_root_funpow [of k "concat cs" H] level_up_funpow_split [OF assms(1), of H] by simp
qed

section \<open>Inclusion proofs\<close>

text \<open>The sibling of place \<open>i\<close> in a level, and the siblings on the way from a leaf to the root.\<close>

definition sibling :: "'a list \<Rightarrow> nat \<Rightarrow> 'a" where
  "sibling xs i =
     (if even i then (if Suc i < length xs then xs ! Suc i else xs ! i) else xs ! (i - 1))"

function merkle_proof :: "('a \<Rightarrow> 'a \<Rightarrow> 'a) \<Rightarrow> 'a list \<Rightarrow> nat \<Rightarrow> 'a list" where
  "merkle_proof H xs i =
     (if length xs \<le> 1 then [] else sibling xs i # merkle_proof H (level_up H xs) (i div 2))"
  by pat_completeness auto
termination
  by (relation "measure (\<lambda>(H, xs, i). length xs)") auto

declare merkle_proof.simps [simp del]

text \<open>What a verifier computes from a leaf, its place and the siblings.\<close>

fun proof_root :: "('a \<Rightarrow> 'a \<Rightarrow> 'a) \<Rightarrow> nat \<Rightarrow> 'a \<Rightarrow> 'a list \<Rightarrow> 'a" where
  "proof_root H i x [] = x"
| "proof_root H i x (p # ps) = proof_root H (i div 2) (if even i then H x p else H p x) ps"

lemma level_up_sibling:
  assumes "i < length xs"
  shows "level_up H xs ! (i div 2) =
    (if even i then H (xs ! i) (sibling xs i) else H (sibling xs i) (xs ! i))"
proof -
  have "i div 2 < (length xs + 1) div 2" using assms by linarith
  then show ?thesis
    using assms by (cases "even i") (auto simp: level_up_nth sibling_def elim!: evenE oddE)
qed

lemma length_merkle_proof: "length (merkle_proof H xs i) = clog2 (length xs)"
proof (induction H xs i rule: merkle_proof.induct)
  case (1 H xs i)
  show ?case
  proof (cases "length xs \<le> 1")
    case True
    then show ?thesis
      by (subst merkle_proof.simps) (auto simp: clog2.simps [of "length xs"])
  next
    case False
    then have 2: "2 \<le> length xs" by simp
    from 1 [OF False] False show ?thesis
      by (subst merkle_proof.simps) (simp add: clog2_Suc_half [OF 2])
  qed
qed

lemma merkle_proof_append_single: "length xs \<le> 1 \<Longrightarrow> merkle_proof H xs i = []"
  by (simp add: merkle_proof.simps)

lemma merkle_proof_step:
  "2 \<le> length xs \<Longrightarrow> merkle_proof H xs i = sibling xs i # merkle_proof H (level_up H xs) (i div 2)"
  by (simp add: merkle_proof.simps)

text \<open>Completeness: the siblings lead from every leaf to the root.\<close>

lemma proof_root_merkle_proof:
  "i < length xs \<Longrightarrow> proof_root H i (xs ! i) (merkle_proof H xs i) = merkle_root H xs"
proof (induction H xs i rule: merkle_proof.induct)
  case (1 H xs i)
  show ?case
  proof (cases "length xs \<le> 1")
    case True
    with "1.prems" have "i = 0" and "length xs = 1" by auto
    then show ?thesis by (auto simp: merkle_proof_append_single length_Suc_conv)
  next
    case False
    then have 2: "2 \<le> length xs" by simp
    have "i div 2 < length (level_up H xs)" using "1.prems" by simp
    with "1.IH" [OF False] show ?thesis
      using 2 level_up_sibling [OF "1.prems", of H]
      by (simp add: merkle_proof_step merkle_root_step split: if_splits)
  qed
qed

text \<open>Where a path goes wrong: the pair of children that a verifier hashes is compared on every level
  with the pair of the tree; the first that differs and has the same parent is returned.\<close>

definition children_of :: "nat \<Rightarrow> 'a \<Rightarrow> 'a \<Rightarrow> 'a \<times> 'a" where
  "children_of i x y = (if even i then (x, y) else (y, x))"

fun path_collision ::
  "('a \<Rightarrow> 'a \<Rightarrow> 'a) \<Rightarrow> 'a list \<Rightarrow> nat \<Rightarrow> 'a \<Rightarrow> 'a list \<Rightarrow> (('a \<times> 'a) \<times> 'a \<times> 'a) option" where
  "path_collision H xs i x [] = None"
| "path_collision H xs i x (p # ps) =
     (let (a, b) = children_of i x p; (c, d) = children_of i (xs ! i) (sibling xs i) in
      if (a, b) \<noteq> (c, d) \<and> H a b = H c d then Some ((a, b), (c, d))
      else path_collision H (level_up H xs) (i div 2) (H a b) ps)"

lemma path_collision_Some:
  "path_collision H xs i x ps = Some ((a, b), (c, d)) \<Longrightarrow> (a, b) \<noteq> (c, d) \<and> H a b = H c d"
  by (induction H xs i x ps rule: path_collision.induct)
    (auto simp: children_of_def Let_def split: if_splits)

text \<open>Soundness: a path of the right length that leads to the root is the path of the leaf at its place,
  or a collision lies on it.\<close>

lemma proof_root_sound:
  "i < length xs \<Longrightarrow> length ps = clog2 (length xs) \<Longrightarrow> proof_root H i x ps = merkle_root H xs \<Longrightarrow>
    x = xs ! i \<and> ps = merkle_proof H xs i \<or> path_collision H xs i x ps \<noteq> None"
proof (induction H xs i arbitrary: x ps rule: merkle_proof.induct)
  case (1 H xs i)
  show ?case
  proof (cases "length xs \<le> 1")
    case True
    with "1.prems"(1) have "i = 0" and one: "length xs = 1" by auto
    from one "1.prems"(2) have "ps = []" by simp
    with \<open>i = 0\<close> one "1.prems"(3) show ?thesis
      by (auto simp: length_Suc_conv merkle_proof_append_single)
  next
    case False
    then have 2: "2 \<le> length xs" by simp
    then obtain p qs where ps: "ps = p # qs" and qs: "length qs = clog2 (length (level_up H xs))"
      using "1.prems"(2) clog2_length_level_up [OF 2, of H] by (cases ps) auto
    let ?y = "if even i then H x p else H p x"
    let ?z = "level_up H xs ! (i div 2)"
    have "i div 2 < length (level_up H xs)" using "1.prems"(1) by simp
    moreover have "proof_root H (i div 2) ?y qs = merkle_root H (level_up H xs)"
      using "1.prems"(3) ps 2 by (simp add: merkle_root_step)
    ultimately have IH: "?y = ?z \<and> qs = merkle_proof H (level_up H xs) (i div 2) \<or>
        path_collision H (level_up H xs) (i div 2) ?y qs \<noteq> None"
      using "1.IH" [OF False _ qs] by blast
    have z: "?z = (if even i then H (xs ! i) (sibling xs i) else H (sibling xs i) (xs ! i))"
      using "1.prems"(1) by (rule level_up_sibling)
    show ?thesis
    proof (cases "x = xs ! i \<and> p = sibling xs i")
      case True
      with IH ps show ?thesis
        by (auto simp: merkle_proof_step [OF 2] children_of_def Let_def)
    next
      case False
      with IH ps z show ?thesis by (auto simp: children_of_def Let_def)
    qed
  qed
qed

section \<open>Trees in an array with unused places\<close>

fun pair_level :: "('a \<Rightarrow> 'a \<Rightarrow> 'a) \<Rightarrow> 'a list \<Rightarrow> 'a list" where
  "pair_level c (a # b # r) = c a b # pair_level c r"
| "pair_level c _ = []"

text \<open>The hashes of a level followed by marks up to the size \<open>n\<close>.\<close>

definition padded :: "nat \<Rightarrow> 'a::zero list \<Rightarrow> 'a list" where
  "padded n xs = xs @ replicate (n - length xs) 0"

lemma length_padded [simp]: "length xs \<le> n \<Longrightarrow> length (padded n xs) = n"
  by (simp add: padded_def)

lemma length_pair_level [simp]: "length (pair_level c xs) = length xs div 2"
  by (induction c xs rule: pair_level.induct) simp_all

lemma pair_level_nth: "j < length xs div 2 \<Longrightarrow> pair_level c xs ! j = c (xs ! (2 * j)) (xs ! (2 * j + 1))"
proof (induction c xs arbitrary: j rule: pair_level.induct)
  case (1 c a b r)
  then show ?case by (cases j) auto
qed auto

locale merkle_combine =
  fixes c :: "'a::zero \<Rightarrow> 'a \<Rightarrow> 'a" and H :: "'a \<Rightarrow> 'a \<Rightarrow> 'a"
  assumes combine_both: "a \<noteq> 0 \<Longrightarrow> b \<noteq> 0 \<Longrightarrow> c a b = H a b"
    and combine_left: "a \<noteq> 0 \<Longrightarrow> c a 0 = H a a"
    and combine_none: "c 0 b = 0"
begin

lemma pair_level_marks: "pair_level c (replicate (2 * n) 0) = replicate n 0"
  by (induction n) (simp_all add: combine_none)

lemma pair_level_padded:
  "0 \<notin> set xs \<Longrightarrow> length xs \<le> 2 * n \<Longrightarrow> pair_level c (padded (2 * n) xs) = padded n (level_up H xs)"
proof (induction xs arbitrary: n rule: induct_list012)
  case 1
  then show ?case by (simp add: padded_def pair_level_marks)
next
  case (2 x)
  then obtain m where "n = Suc m" by (cases n) auto
  with 2 show ?case by (simp add: padded_def pair_level_marks combine_left)
next
  case (3 x y r)
  then obtain m where "n = Suc m" by (cases n) auto
  with 3 show ?case by (simp add: padded_def combine_both)
qed

text \<open>Every level of the array is the level of the tree, marked up to its size.\<close>

lemma pair_levels_padded:
  "tree_nonzero H xs \<Longrightarrow> length xs \<le> 2 ^ k \<Longrightarrow> j \<le> clog2 (length xs) \<Longrightarrow> j \<le> k \<Longrightarrow>
    (pair_level c ^^ j) (padded (2 ^ k) xs) = padded (2 ^ (k - j)) ((level_up H ^^ j) xs)"
proof (induction j arbitrary: k xs)
  case (Suc j)
  then obtain k' where k: "k = Suc k'" by (cases k) auto
  have 2: "2 \<le> length xs" using Suc.prems(3) clog2_pos_iff [of "length xs"] by linarith
  have "pair_level c (padded (2 ^ k) xs) = padded (2 ^ k') (level_up H xs)"
    using pair_level_padded [of xs "2 ^ k'"] tree_nonzero_leaves [OF Suc.prems(1)] Suc.prems(2) k
    by simp
  moreover have "j \<le> clog2 (length (level_up H xs))"
    using Suc.prems(3) clog2_length_level_up [OF 2, of H] by simp
  ultimately show ?case
    using Suc.IH [of "level_up H xs" k'] tree_nonzero_level_up [OF Suc.prems(1) 2] Suc.prems k
    by (simp add: funpow_swap1)
qed simp

lemma pair_levels_root:
  assumes "tree_nonzero H xs" and "xs \<noteq> []"
  shows "(pair_level c ^^ clog2 (length xs)) (padded (2 ^ clog2 (length xs)) xs) = [merkle_root H xs]"
  using pair_levels_padded [OF assms(1) clog2_upper le_refl le_refl] assms(2)
  by (simp add: level_up_funpow_clog2 padded_def)

end

end
