(* ===== verification/Bytes_Codec.thy ===== *)
theory Bytes_Codec
  imports Go_Prelude "HOL-Library.Sublist"
begin

text \<open>
  Little-endian bytes (\<open>encoding/binary\<close>), readers (\<open>io.Reader\<close> behind \<open>bufio\<close>, \<open>io.ReadFull\<close>,
  \<open>Discard\<close>), and the locale \<open>codec\<close>: the contract between a writer of some wire format and its
  reader.  Every wire format of the repository is an interpretation of it.
\<close>

unbundle bit_operations_syntax

section \<open>Little-endian bytes\<close>

text \<open>\<open>le_bytes n w\<close> is \<open>binary.LittleEndian.PutUint32\<close> (\<open>n = 4\<close>), \<open>PutUint64\<close> (\<open>n = 8\<close>) and
  the byte array of a hash (\<open>n = 32\<close>); \<open>le_word\<close> reads such bytes back.\<close>

primrec le_bytes :: "nat \<Rightarrow> 'a::len word \<Rightarrow> byte list" where
  "le_bytes 0 w = []"
| "le_bytes (Suc n) w = ucast w # le_bytes n (drop_bit 8 w)"

primrec le_word :: "byte list \<Rightarrow> 'a::len word" where
  "le_word [] = 0"
| "le_word (b # bs) = ucast b OR push_bit 8 (le_word bs)"

lemma length_le_bytes [simp]: "length (le_bytes n w) = n"
  by (induction n arbitrary: w) simp_all

lemma le_word_le_bytes_take: "(le_word (le_bytes n w) :: 'a::len word) = take_bit (8 * n) w"
proof (induction n arbitrary: w)
  case (Suc n)
  show ?case
  proof (rule bit_eqI)
    fix i
    assume "possible_bit TYPE('a word) i"
    then have i: "i < LENGTH('a)" by simp
    show "bit (le_word (le_bytes (Suc n) w) :: 'a word) i = bit (take_bit (8 * Suc n) w) i"
      using i by (auto simp: Suc.IH bit_or_iff bit_push_bit_iff bit_take_bit_iff bit_drop_bit_eq
          bit_ucast_iff dest: bit_imp_le_length)
  qed
qed simp

lemma le_word_le_bytes: "LENGTH('a) \<le> 8 * n \<Longrightarrow> le_word (le_bytes n w) = (w :: 'a::len word)"
  by (simp add: le_word_le_bytes_take take_bit_word_eq_self)

lemma le_bytes_le_word:
  "length bs = n \<Longrightarrow> 8 * n \<le> LENGTH('a) \<Longrightarrow> le_bytes n (le_word bs :: 'a::len word) = bs"
proof (induction bs arbitrary: n)
  case (Cons b bs)
  then obtain m where n: "n = Suc m" and m: "length bs = m" by (cases n) auto
  have len: "8 + 8 * m \<le> LENGTH('a)" using Cons.prems n by simp
  let ?w = "le_word bs :: 'a word"
  have lo: "ucast (ucast b OR push_bit 8 ?w) = b"
    using len by (intro bit_eqI) (auto simp: bit_ucast_iff bit_or_iff bit_push_bit_iff)
  have small: "take_bit (8 * m) ?w = ?w"
    using Cons.IH [OF m] len le_word_le_bytes_take [of m ?w] by simp
  have "bit ?w i \<Longrightarrow> i < 8 * m" for i
    using small by (metis bit_take_bit_iff)
  then have "drop_bit 8 (ucast b OR push_bit 8 ?w) = ?w"
    using len by (intro bit_eqI)
      (fastforce simp: bit_drop_bit_eq bit_or_iff bit_push_bit_iff bit_ucast_iff
        dest: bit_imp_le_length)
  with lo show ?case using Cons.IH [OF m] len n by simp
qed simp

definition put_uint32 :: "uint32 \<Rightarrow> byte list" where
  "put_uint32 = le_bytes 4"

definition put_uint64 :: "uint64 \<Rightarrow> byte list" where
  "put_uint64 = le_bytes 8"

definition hash_bytes :: "hash \<Rightarrow> byte list" where
  "hash_bytes = le_bytes 32"

definition hash_of_bytes :: "byte list \<Rightarrow> hash" where
  "hash_of_bytes = le_word"

lemma length_puts [simp]:
  "length (put_uint32 x) = 4" "length (put_uint64 y) = 8" "length (hash_bytes h) = 32"
  by (simp_all add: put_uint32_def put_uint64_def hash_bytes_def)

lemma le_word_puts [simp]:
  "le_word (put_uint32 x) = x" "le_word (put_uint64 y) = y" "hash_of_bytes (hash_bytes h) = h"
  by (simp_all add: put_uint32_def put_uint64_def hash_bytes_def hash_of_bytes_def
      le_word_le_bytes)

lemma hash_bytes_inj: "hash_bytes a = hash_bytes b \<longleftrightarrow> a = b"
  by (metis le_word_puts(3))

section \<open>Readers\<close>

text \<open>
  A reader holds the bytes still to come and the error it reports once they are exhausted
  (\<open>io.EOF\<close> for a buffer, any error for a failing source).  The sizes of the single \<open>Read\<close>
  calls do not matter: \<open>bufio.Reader\<close> and \<open>io.ReadFull\<close> read on until the request is filled.
  How far \<open>bufio\<close> reads ahead in the source below it is the subject of the last section.
\<close>

record reader =
  rdata :: "byte list"
  rerr :: go_error

definition bytes_reader :: "byte list \<Rightarrow> reader" where
  "bytes_reader bs = \<lparr>rdata = bs, rerr = IoEOF\<rparr>"

type_synonym 'a decoder = "reader \<Rightarrow> reader \<times> 'a outcome"

text \<open>\<open>io.ReadFull(r, buf)\<close> for a buffer of \<open>n > 0\<close> bytes.\<close>

definition read_full :: "nat \<Rightarrow> byte list decoder" where
  "read_full n r =
     (if n \<le> length (rdata r) then (r\<lparr>rdata := drop n (rdata r)\<rparr>, Ok (take n (rdata r)))
      else (r\<lparr>rdata := []\<rparr>,
            Fail (if rdata r \<noteq> [] \<and> rerr r = IoEOF then IoErrUnexpectedEOF else rerr r)))"

text \<open>\<open>(*bufio.Reader).Discard(n)\<close>, whose error the callers ignore: a negative count discards
  nothing, a count beyond the end discards everything.\<close>

definition discard :: "int \<Rightarrow> reader \<Rightarrow> reader" where
  "discard n r = (if n < 0 then r else r\<lparr>rdata := drop (nat n) (rdata r)\<rparr>)"

definition dreturn :: "'a \<Rightarrow> 'a decoder" where
  "dreturn x r = (r, Ok x)"

definition dbind :: "'a decoder \<Rightarrow> ('a \<Rightarrow> 'b decoder) \<Rightarrow> 'b decoder" where
  "dbind d f r =
     (case d r of
        (r', Ok x) \<Rightarrow> f x r'
      | (r', Fail e) \<Rightarrow> (r', Fail e)
      | (r', Panic p) \<Rightarrow> (r', Panic p))"

definition dmap :: "('a \<Rightarrow> 'b) \<Rightarrow> 'a decoder \<Rightarrow> 'b decoder" where
  "dmap f d r = (case d r of (r', x) \<Rightarrow> (r', omap f x))"

definition dwrap :: "string \<Rightarrow> 'a decoder \<Rightarrow> 'a decoder" where
  "dwrap fmt d r = (case d r of (r', x) \<Rightarrow> (r', wrapping fmt x))"

definition read_uint32 :: "uint32 decoder" where
  "read_uint32 = dmap le_word (read_full 4)"

definition read_uint64 :: "uint64 decoder" where
  "read_uint64 = dmap le_word (read_full 8)"

definition read_hash :: "hash decoder" where
  "read_hash = dmap hash_of_bytes (read_full 32)"

text \<open>\<open>for i := ...; i < n { x := dec(r); arr[i] = x }\<close>, stopping at the first failure with the
  array as filled so far.\<close>

fun fill_array :: "'a decoder \<Rightarrow> nat \<Rightarrow> nat \<Rightarrow> 'a list \<Rightarrow> reader \<Rightarrow> reader \<times> 'a list \<times> unit outcome" where
  "fill_array dec 0 i arr r = (r, arr, Ok ())"
| "fill_array dec (Suc k) i arr r =
     (case dec r of
        (r', Ok x) \<Rightarrow>
          (case index_set arr (int i) x of
             Ok arr' \<Rightarrow> fill_array dec k (Suc i) arr' r'
           | Fail e \<Rightarrow> (r', arr, Fail e)
           | Panic p \<Rightarrow> (r', arr, Panic p))
      | (r', Fail e) \<Rightarrow> (r', arr, Fail e)
      | (r', Panic p) \<Rightarrow> (r', arr, Panic p))"

text \<open>\<open>for i := 0; i < n; i++ { x := dec(r); xs = append(xs, x) }\<close>.\<close>

fun read_list :: "'a decoder \<Rightarrow> nat \<Rightarrow> 'a list \<Rightarrow> reader \<Rightarrow> reader \<times> 'a list \<times> unit outcome" where
  "read_list dec 0 acc r = (r, acc, Ok ())"
| "read_list dec (Suc k) acc r =
     (case dec r of
        (r', Ok x) \<Rightarrow> read_list dec k (acc @ [x]) r'
      | (r', Fail e) \<Rightarrow> (r', acc, Fail e)
      | (r', Panic p) \<Rightarrow> (r', acc, Panic p))"

named_theorems decode_simps \<comment> \<open>evaluation of decoders\<close>

lemma bytes_reader_simps [simp]: "rdata (bytes_reader bs) = bs" "rerr (bytes_reader bs) = IoEOF"
  by (simp_all add: bytes_reader_def)

lemma read_full_Ok:
  "rdata r = bs @ rest \<Longrightarrow> length bs = n \<Longrightarrow> read_full n r = (r\<lparr>rdata := rest\<rparr>, Ok bs)"
  by (simp add: read_full_def)

lemma read_full_short: "length (rdata r) < n \<Longrightarrow> \<exists>e. read_full n r = (r\<lparr>rdata := []\<rparr>, Fail e)"
  by (simp add: read_full_def)

lemma read_full_no_panic: "\<not> is_panic (snd (read_full n r))"
  by (simp add: read_full_def)

lemma read_full_consumes: "read_full n r = (r', Ok bs) \<Longrightarrow> rdata r = bs @ rdata r' \<and> length bs = n"
  by (auto simp: read_full_def split: if_splits)

lemma dbind_Ok [decode_simps]: "d r = (r', Ok x) \<Longrightarrow> dbind d f r = f x r'"
  by (simp add: dbind_def)

lemma dbind_Fail [decode_simps]: "d r = (r', Fail e) \<Longrightarrow> dbind d f r = (r', Fail e)"
  by (simp add: dbind_def)

lemma dwrap_Ok [decode_simps]: "d r = (r', Ok x) \<Longrightarrow> dwrap fmt d r = (r', Ok x)"
  by (simp add: dwrap_def)

lemma dwrap_Fail [decode_simps]: "d r = (r', Fail e) \<Longrightarrow> dwrap fmt d r = (r', Fail (Wrap fmt [e]))"
  by (simp add: dwrap_def)

lemma is_panic_dwrap [simp]: "is_panic (snd (dwrap fmt d r)) = is_panic (snd (d r))"
  by (simp add: dwrap_def split: prod.split)

lemma is_panic_omap [simp]: "is_panic (omap f x) = is_panic x"
  by (cases x) simp_all

lemma is_panic_dmap [simp]: "is_panic (snd (dmap f d r)) = is_panic (snd (d r))"
  by (simp add: dmap_def split: prod.split)

lemma fill_array_length: "fill_array dec k i arr r = (r', arr', x) \<Longrightarrow> length arr' = length arr"
  by (induction dec k i arr r rule: fill_array.induct)
    (auto simp: index_set_eq_Ok split: prod.splits outcome.splits)

lemma fill_array_no_panic:
  "(\<And>r. \<not> is_panic (snd (dec r))) \<Longrightarrow> i + k \<le> length arr \<Longrightarrow>
    \<not> is_panic (snd (snd (fill_array dec k i arr r)))"
proof (induction k arbitrary: i arr r)
  case (Suc k)
  obtain r' x where d: "dec r = (r', x)" by fastforce
  then have "\<not> is_panic x" using Suc.prems(1) [of r] by simp
  with d Suc show ?case by (cases x) (simp_all add: index_set_nat)
qed simp

section \<open>The contract between a writer and its reader\<close>

lemma strict_prefix_append_cases:
  assumes "strict_prefix p (a @ b)"
  obtains "strict_prefix p a" | q where "p = a @ q" "strict_prefix q b"
proof -
  from assms have "prefix p (a @ b)" and "p \<noteq> a @ b" by (auto simp: strict_prefix_def)
  then consider "prefix p a" | q where "p = a @ q" "prefix q b"
    by (auto simp: prefix_append)
  then show thesis
  proof cases
    case 1
    show thesis
    proof (cases "p = a")
      case True
      with \<open>p \<noteq> a @ b\<close> have "strict_prefix [] b" by (cases b) auto
      with True show thesis by (intro that(2) [of "[]"]) simp_all
    next
      case False
      with 1 show thesis by (intro that(1)) (simp add: strict_prefix_def)
    qed
  next
    case 2
    with \<open>p \<noteq> a @ b\<close> show thesis by (intro that(2) [of q]) (auto simp: strict_prefix_def)
  qed
qed

text \<open>
  \<open>enc\<close> writes a value, \<open>dec\<close> reads one.  The two laws a provider promises, for every value in
  \<open>valid\<close>: what was written is read back and exactly its bytes are consumed, whatever follows;
  and a source that ends inside the bytes is refused with an error.
\<close>

locale codec =
  fixes enc :: "'a \<Rightarrow> byte list"
    and dec :: "'a decoder"
    and valid :: "'a \<Rightarrow> bool"
  assumes dec_enc: "valid x \<Longrightarrow> rdata r = enc x @ rest \<Longrightarrow> dec r = (r\<lparr>rdata := rest\<rparr>, Ok x)"
    and dec_short: "valid x \<Longrightarrow> strict_prefix (rdata r) (enc x) \<Longrightarrow> \<exists>r' e. dec r = (r', Fail e)"
begin

text \<open>Two values with the same bytes are equal, even when more bytes follow.\<close>

lemma enc_inj:
  assumes "valid x" "valid y" "enc x @ s = enc y @ t"
  shows "x = y \<and> s = t"
proof -
  let ?r = "bytes_reader (enc x @ s)"
  have "dec ?r = (?r\<lparr>rdata := s\<rparr>, Ok x)" using assms(1) by (rule dec_enc) simp
  moreover have "dec ?r = (?r\<lparr>rdata := t\<rparr>, Ok y)" using assms(2) by (rule dec_enc) (simp add: assms(3))
  ultimately show ?thesis by (metis outcome.inject(1) prod.inject reader.select_convs(1)
      reader.simps(4) reader.surjective)
qed

lemma enc_not_Nil:
  assumes "valid x" "valid y" "x \<noteq> y"
  shows "enc x \<noteq> []"
  using enc_inj [of x y "enc y" "[]"] assms by auto

lemma read_list_enc:
  "\<forall>x\<in>set xs. valid x \<Longrightarrow> rdata r = concat (map enc xs) @ rest \<Longrightarrow>
    read_list dec (length xs) acc r = (r\<lparr>rdata := rest\<rparr>, acc @ xs, Ok ())"
proof (induction xs arbitrary: acc r)
  case (Cons x xs)
  let ?r = "r\<lparr>rdata := concat (map enc xs) @ rest\<rparr>"
  have "dec r = (?r, Ok x)" using Cons.prems by (intro dec_enc) simp_all
  with Cons.IH [of ?r "acc @ [x]"] Cons.prems show ?case by simp
qed simp

lemma read_list_short:
  "\<forall>x\<in>set xs. valid x \<Longrightarrow> strict_prefix (rdata r) (concat (map enc xs)) \<Longrightarrow>
    \<exists>r' ys e. read_list dec (length xs) acc r = (r', ys, Fail e)"
proof (induction xs arbitrary: acc r)
  case (Cons x xs)
  from Cons.prems(2) have "strict_prefix (rdata r) (enc x @ concat (map enc xs))" by simp
  then show ?case
  proof (cases rule: strict_prefix_append_cases)
    case 1
    then show ?thesis using dec_short [of x r] Cons.prems(1) by auto
  next
    case (2 q)
    have "dec r = (r\<lparr>rdata := q\<rparr>, Ok x)" using Cons.prems(1) 2(1) by (intro dec_enc) simp_all
    with Cons.IH [of "r\<lparr>rdata := q\<rparr>" "acc @ [x]"] Cons.prems(1) 2(2) show ?thesis by simp
  qed
qed simp

lemma fill_array_enc:
  "\<forall>x\<in>set xs. valid x \<Longrightarrow> rdata r = concat (map enc xs) @ rest \<Longrightarrow> i + length xs \<le> length arr \<Longrightarrow>
    fill_array dec (length xs) i arr r =
      (r\<lparr>rdata := rest\<rparr>, take i arr @ xs @ drop (i + length xs) arr, Ok ())"
proof (induction xs arbitrary: i arr r)
  case (Cons x xs)
  let ?r = "r\<lparr>rdata := concat (map enc xs) @ rest\<rparr>"
  have "dec r = (?r, Ok x)" using Cons.prems by (intro dec_enc) simp_all
  moreover have "take (Suc i) (arr[i := x]) = take i arr @ [x]"
    using Cons.prems(3) by (simp add: take_Suc_conv_app_nth)
  ultimately show ?case
    using Cons.IH [of ?r "Suc i" "arr[i := x]"] Cons.prems by (simp add: index_set_nat)
qed simp

lemma fill_array_short:
  "\<forall>x\<in>set xs. valid x \<Longrightarrow> strict_prefix (rdata r) (concat (map enc xs)) \<Longrightarrow>
    i + length xs \<le> length arr \<Longrightarrow>
    \<exists>r' arr' e. fill_array dec (length xs) i arr r = (r', arr', Fail e)"
proof (induction xs arbitrary: i arr r)
  case (Cons x xs)
  from Cons.prems(2) have "strict_prefix (rdata r) (enc x @ concat (map enc xs))" by simp
  then show ?case
  proof (cases rule: strict_prefix_append_cases)
    case 1
    then show ?thesis using dec_short [of x r] Cons.prems(1) by auto
  next
    case (2 q)
    have "dec r = (r\<lparr>rdata := q\<rparr>, Ok x)" using Cons.prems(1) 2(1) by (intro dec_enc) simp_all
    with Cons.IH [of "r\<lparr>rdata := q\<rparr>" "Suc i" "arr[i := x]"] Cons.prems 2(2) show ?thesis
      by (simp add: index_set_nat)
  qed
qed simp

text \<open>The contract survives a wrapping of the reader's errors.\<close>

lemma codec_dwrap: "codec enc (dwrap fmt dec) valid"
proof
  show "valid x \<Longrightarrow> rdata r = enc x @ rest \<Longrightarrow> dwrap fmt dec r = (r\<lparr>rdata := rest\<rparr>, Ok x)"
    for x r rest using dec_enc [of x r rest] by (simp add: dwrap_def)
  show "valid x \<Longrightarrow> strict_prefix (rdata r) (enc x) \<Longrightarrow> \<exists>r' e. dwrap fmt dec r = (r', Fail e)"
    for x r using dec_short [of x r] by (auto simp: dwrap_def)
qed

end

text \<open>A format in which every value takes the same number of bytes, so that a reader can skip
  values without looking at them.\<close>

locale fixed_codec = codec enc dec valid
  for enc :: "'a \<Rightarrow> byte list" and dec :: "'a decoder" and valid :: "'a \<Rightarrow> bool" +
  fixes width :: nat
  assumes enc_width: "valid x \<Longrightarrow> length (enc x) = width"
begin

lemma length_enc_list: "\<forall>x\<in>set xs. valid x \<Longrightarrow> length (concat (map enc xs)) = width * length xs"
  by (induction xs) (simp_all add: enc_width)

lemma discard_enc_list:
  "\<forall>x\<in>set xs. valid x \<Longrightarrow> rdata r = concat (map enc xs) @ rest \<Longrightarrow>
    discard (int (width * length xs)) r = r\<lparr>rdata := rest\<rparr>"
  using length_enc_list [of xs] by (simp add: discard_def nat_mult_distrib flip: of_nat_mult)

end

text \<open>The primitive formats: a fixed number of bytes that determine the value.\<close>

lemma fixed_codec_primitive:
  assumes "\<And>x. length (enc x) = n" and "\<And>x. f (enc x) = x"
  shows "fixed_codec enc (dmap f (read_full n)) (\<lambda>_. True) n"
proof unfold_locales
  show "dmap f (read_full n) r = (r\<lparr>rdata := rest\<rparr>, Ok x)" if "rdata r = enc x @ rest" for x r rest
    using read_full_Ok [OF that assms(1)] assms(2) by (simp add: dmap_def)
  show "\<exists>r' e. dmap f (read_full n) r = (r', Fail e)" if "strict_prefix (rdata r) (enc x)" for x r
    using read_full_short [of r n] prefix_length_less [OF that] assms(1) by (auto simp: dmap_def)
qed (simp add: assms(1))

interpretation uint32_codec: fixed_codec put_uint32 read_uint32 "\<lambda>_. True" 4
  unfolding read_uint32_def by (rule fixed_codec_primitive) simp_all

interpretation uint64_codec: fixed_codec put_uint64 read_uint64 "\<lambda>_. True" 8
  unfolding read_uint64_def by (rule fixed_codec_primitive) simp_all

interpretation hash_codec: fixed_codec hash_bytes read_hash "\<lambda>_. True" 32
  unfolding read_hash_def by (rule fixed_codec_primitive) simp_all

lemma primitive_no_panic [simp]:
  "\<not> is_panic (snd (read_uint32 r))" "\<not> is_panic (snd (read_uint64 r))"
  "\<not> is_panic (snd (read_hash r))"
  by (simp_all add: read_uint32_def read_uint64_def read_hash_def read_full_no_panic)

section \<open>Loading an object\<close>

text \<open>
  A deserializer that fills the fields of an object as it reads: the object is changed up to the
  point of a failure.  \<open>load_bind\<close> is \<open>if _, err := read; err != nil { return fmt.Errorf(fmt, err) }\<close>
  followed by what uses the value read, \<open>load_step\<close> a computation on the object that may panic,
  \<open>load_array\<close> the loop that fills a slice of the object.
\<close>

type_synonym 's loader = "'s \<Rightarrow> reader \<Rightarrow> reader \<times> 's \<times> unit outcome"

definition load_set :: "('s \<Rightarrow> 's) \<Rightarrow> 's loader" where
  "load_set f st r = (r, f st, Ok ())"

definition load_step :: "('s \<Rightarrow> 's outcome) \<Rightarrow> 's loader" where
  "load_step f st r =
     (case f st of Ok st' \<Rightarrow> (r, st', Ok ()) | Fail e \<Rightarrow> (r, st, Fail e) | Panic p \<Rightarrow> (r, st, Panic p))"

definition load_seq :: "'s loader \<Rightarrow> 's loader \<Rightarrow> 's loader" where
  "load_seq a b st r =
     (case a st r of (r', st', Ok _) \<Rightarrow> b st' r' | (r', st', res) \<Rightarrow> (r', st', res))"

definition load_bind :: "string \<Rightarrow> 'a decoder \<Rightarrow> ('a \<Rightarrow> 's loader) \<Rightarrow> 's loader" where
  "load_bind fmt dec f st r =
     (case dec r of
        (r', Ok x) \<Rightarrow> f x st r'
      | (r', Fail e) \<Rightarrow> (r', st, Fail (Wrap fmt [e]))
      | (r', Panic p) \<Rightarrow> (r', st, Panic p))"

definition load_array ::
  "string \<Rightarrow> 'a decoder \<Rightarrow> nat \<Rightarrow> ('s \<Rightarrow> 'a list) \<Rightarrow> ('a list \<Rightarrow> 's \<Rightarrow> 's) \<Rightarrow> 's loader" where
  "load_array fmt dec n get upd st r =
     (case fill_array dec n 0 (get st) r of
        (r', arr, res) \<Rightarrow> (r', upd arr st, wrapping fmt res))"

text \<open>\<open>loads l bs st st'\<close>: from \<open>st\<close>, the loader \<open>l\<close> accepts the bytes \<open>bs\<close>, exactly them, and leaves
  \<open>st'\<close>; when the input ends inside \<open>bs\<close> it returns an error.\<close>

definition loads :: "'s loader \<Rightarrow> byte list \<Rightarrow> 's \<Rightarrow> 's \<Rightarrow> bool" where
  "loads l bs st st' =
     ((\<forall>r rest. rdata r = bs @ rest \<longrightarrow> l st r = (r\<lparr>rdata := rest\<rparr>, st', Ok ())) \<and>
      (\<forall>r. strict_prefix (rdata r) bs \<longrightarrow> is_fail (snd (snd (l st r)))))"

lemma loadsI:
  assumes "\<And>(r :: reader) rest. rdata r = bs @ rest \<Longrightarrow> l st r = (r\<lparr>rdata := rest\<rparr>, st', Ok ())"
    and "\<And>r :: reader. strict_prefix (rdata r) bs \<Longrightarrow> is_fail (snd (snd (l st r)))"
  shows "loads l bs st st'"
  using assms by (simp add: loads_def)

lemma loadsD:
  assumes "loads l bs st st'"
  shows "rdata r = bs @ rest \<Longrightarrow> l st r = (r\<lparr>rdata := rest\<rparr>, st', Ok ())"
    and "strict_prefix (rdata r) bs \<Longrightarrow> is_fail (snd (snd (l st r)))"
  using assms by (simp_all add: loads_def)

lemma loads_append:
  assumes ok: "\<And>(r :: reader) rest. rdata r = as @ rest \<Longrightarrow> l st r = m st' (r\<lparr>rdata := rest\<rparr>)"
    and short: "\<And>r :: reader. strict_prefix (rdata r) as \<Longrightarrow> is_fail (snd (snd (l st r)))"
    and m: "loads m bs st' st''"
  shows "loads l (as @ bs) st st''"
proof (rule loadsI)
  fix r :: reader and rest
  assume "rdata r = (as @ bs) @ rest"
  then have "l st r = m st' (r\<lparr>rdata := bs @ rest\<rparr>)" using ok [of r "bs @ rest"] by simp
  then show "l st r = (r\<lparr>rdata := rest\<rparr>, st'', Ok ())"
    using loadsD(1) [OF m, of "r\<lparr>rdata := bs @ rest\<rparr>" rest] by simp
next
  fix r :: reader
  assume "strict_prefix (rdata r) (as @ bs)"
  then show "is_fail (snd (snd (l st r)))"
  proof (cases rule: strict_prefix_append_cases)
    case 1
    then show ?thesis by (rule short)
  next
    case (2 q)
    then show ?thesis using ok [of r q] loadsD(2) [OF m, of "r\<lparr>rdata := q\<rparr>"] by simp
  qed
qed

lemma loads_set [intro]: "f st = st' \<Longrightarrow> loads (load_set f) [] st st'"
  by (auto simp: loads_def load_set_def strict_prefix_def)

lemma loads_step [intro]: "f st = Ok st' \<Longrightarrow> loads (load_step f) [] st st'"
  by (auto simp: loads_def load_step_def strict_prefix_def)

lemma loads_seq [intro]:
  "loads a bs st st' \<Longrightarrow> loads b cs st' st'' \<Longrightarrow> loads (load_seq a b) (bs @ cs) st st''"
proof (rule loads_append [where m = b and st' = st'])
  fix r :: reader
  assume "loads a bs st st'" "strict_prefix (rdata r) bs"
  then have "is_fail (snd (snd (a st r)))" by (rule loadsD(2))
  then show "is_fail (snd (snd (load_seq a b st r)))"
    by (auto simp: load_seq_def is_fail_iff split: prod.split)
qed (auto simp: load_seq_def dest: loadsD(1))

lemma loads_bind:
  assumes "codec enc dec valid" and "valid x" and "loads (f x) bs st st'"
  shows "loads (load_bind fmt dec f) (enc x @ bs) st st'"
proof (rule loads_append [where m = "f x" and st' = st])
  show "load_bind fmt dec f st r = f x st (r\<lparr>rdata := rest\<rparr>)" if "rdata r = enc x @ rest" for r rest
    using codec.dec_enc [OF assms(1,2) that] by (simp add: load_bind_def)
  show "is_fail (snd (snd (load_bind fmt dec f st r)))" if "strict_prefix (rdata r) (enc x)" for r
    using codec.dec_short [OF assms(1,2) that] by (auto simp: load_bind_def)
qed (rule assms(3))

lemma loads_array:
  assumes "codec enc dec valid" and "\<forall>x\<in>set xs. valid x" and "length xs \<le> length (get st)"
  shows "loads (load_array fmt dec (length xs) get upd) (concat (map enc xs)) st
    (upd (xs @ drop (length xs) (get st)) st)"
proof (rule loadsI)
  show "load_array fmt dec (length xs) get upd st r =
      (r\<lparr>rdata := rest\<rparr>, upd (xs @ drop (length xs) (get st)) st, Ok ())"
    if "rdata r = concat (map enc xs) @ rest" for r rest
    using codec.fill_array_enc [OF assms(1,2) that, of 0 "get st"] assms(3)
    by (simp add: load_array_def)
  show "is_fail (snd (snd (load_array fmt dec (length xs) get upd st r)))"
    if "strict_prefix (rdata r) (concat (map enc xs))" for r
    using codec.fill_array_short [OF assms(1,2) that, of 0 "get st"] assms(3)
    by (auto simp: load_array_def)
qed

text \<open>\<open>defer func() { if r := recover(); r != nil { err = fmt.Errorf(fmt, err, r) } }()\<close>, where
  \<open>err\<close> is still nil when the panic occurs.\<close>

definition recovering :: "string \<Rightarrow> 's loader \<Rightarrow> 's loader" where
  "recovering fmt l st r =
     (case l st r of
        (r', st', Panic p) \<Rightarrow> (r', st', Fail (Wrap fmt []))
      | (r', st', Ok u) \<Rightarrow> (r', st', Ok u)
      | (r', st', Fail e) \<Rightarrow> (r', st', Fail e))"

lemma recovering_no_panic: "\<not> is_panic (snd (snd (recovering fmt l st r)))"
  by (auto simp: recovering_def split: prod.split outcome.split)

lemma loads_recovering [intro]: "loads l bs st st' \<Longrightarrow> loads (recovering fmt l) bs st st'"
  by (auto simp: loads_def recovering_def is_fail_iff split: prod.split outcome.split)

section \<open>Arrays of hashes\<close>

text \<open>\<open>io.ReadFull\<close> into an array of 32 zero bytes: a short read leaves what could be read.\<close>

definition partial_hash :: "reader \<Rightarrow> hash" where
  "partial_hash r = hash_of_bytes (rdata r @ replicate (32 - length (rdata r)) 0)"

fun fill_hashes :: "nat \<Rightarrow> nat \<Rightarrow> hash list \<Rightarrow> reader \<Rightarrow> reader \<times> hash list \<times> unit outcome" where
  "fill_hashes 0 i arr r = (r, arr, Ok ())"
| "fill_hashes (Suc k) i arr r =
     (if i < length arr then
        (case read_full 32 r of
           (r', Ok bs) \<Rightarrow> fill_hashes k (Suc i) (arr[i := hash_of_bytes bs]) r'
         | (r', Fail e) \<Rightarrow> (r', arr[i := partial_hash r], Fail e)
         | (r', Panic p) \<Rightarrow> (r', arr, Panic p))
      else (r, arr, Panic IndexOutOfRange))"

text \<open>New elements in the place of the old ones.\<close>

primrec set_elems :: "'a list \<Rightarrow> 'a slice \<Rightarrow> 'a slice" where
  "set_elems xs NilSlice = NilSlice"
| "set_elems xs (Slice es sp) = Slice xs sp"

lemma elems_set_elems: "length xs = length (elems s) \<Longrightarrow> elems (set_elems xs s) = xs"
  by (cases s) simp_all

text \<open>The loop over an array of hashes differs from the generic one only in what a failed read leaves
  in the array.\<close>

lemma fill_hashes_fill_array:
  "fill_array read_hash k i arr r = (r1, arr1, x) \<Longrightarrow>
    \<exists>arr2. fill_hashes k i arr r = (r1, arr2, x) \<and> (x = Ok () \<longrightarrow> arr2 = arr1) \<or>
    \<not> i + k \<le> length arr"
proof (induction k arbitrary: i arr r)
  case (Suc k)
  show ?case
  proof (cases "i + Suc k \<le> length arr")
    case True
    then have i: "i < length arr" by simp
    obtain r' y where d: "read_full 32 r = (r', y)" by fastforce
    then show ?thesis
      using Suc.IH [of "Suc i" "arr[i := hash_of_bytes z]" r' for z] Suc.prems True i
      by (cases y) (auto simp: read_hash_def dmap_def index_set_nat)
  qed simp
qed simp

lemma loads_hashes:
  assumes "length hs \<le> length (get st)"
  shows "loads (\<lambda>st r. case fill_hashes (length hs) 0 (get st) r of
      (r', arr, res) \<Rightarrow> (r', upd arr st, wrapping fmt res)) (concat (map hash_bytes hs)) st
    (upd (hs @ drop (length hs) (get st)) st)"
proof (rule loadsI)
  let ?l = "\<lambda>st r. case fill_hashes (length hs) 0 (get st) r of
      (r', arr, res) \<Rightarrow> (r', upd arr st, wrapping fmt res)"
  show "?l st r = (r\<lparr>rdata := rest\<rparr>, upd (hs @ drop (length hs) (get st)) st, Ok ())"
    if "rdata r = concat (map hash_bytes hs) @ rest" for r rest
    using hash_codec.fill_array_enc [OF _ that, of 0 "get st"] assms
      fill_hashes_fill_array [of "length hs" 0 "get st" r] by auto
  show "is_fail (snd (snd (?l st r)))" if "strict_prefix (rdata r) (concat (map hash_bytes hs))" for r
    using hash_codec.fill_array_short [OF _ that, of 0 "get st"] assms
      fill_hashes_fill_array [of "length hs" 0 "get st" r] by fastforce
qed

section \<open>Reading through \<open>bufio\<close>\<close>

text \<open>
  \<open>buf := bufio.NewReaderSize(reader, 32*1024)\<close>.  The functions that do this read from the buffer,
  and what they leave in the caller's reader depends on how far the buffer has been filled.  A
  caller's reader that is itself a buffer of this size is used as it is.  Any other one is read
  whenever the buffer is empty; \<open>give\<close> chooses, from the bytes to come, how many one \<open>Read\<close> of it
  returns: at least one (after \<open>Read\<close>s that return nothing) and at most the 32 KB of the buffer.
\<close>

datatype caller = Buffered | Unbuffered "byte list \<Rightarrow> nat"

definition piece :: "(byte list \<Rightarrow> nat) \<Rightarrow> byte list \<Rightarrow> nat" where
  "piece give bs = max 1 (min (give bs) (min 32768 (length bs)))"

lemma piece_pos [simp]: "0 < piece give bs"
  by (simp add: piece_def)

text \<open>What is left in the source when the buffer has delivered \<open>k\<close> bytes.\<close>

function drain :: "(byte list \<Rightarrow> nat) \<Rightarrow> nat \<Rightarrow> byte list \<Rightarrow> byte list" where
  "drain give k bs =
     (if k = 0 \<or> bs = [] then bs else drain give (k - piece give bs) (drop (piece give bs) bs))"
  by pat_completeness auto
termination by (relation "measure (\<lambda>(give, k, bs). k)") auto

declare drain.simps [simp del]

definition behind :: "caller \<Rightarrow> reader \<Rightarrow> reader \<Rightarrow> reader" where
  "behind c r r' =
     (case c of
        Buffered \<Rightarrow> r'
      | Unbuffered give \<Rightarrow> r\<lparr>rdata := drain give (length (rdata r) - length (rdata r')) (rdata r)\<rparr>)"

definition buffering :: "caller \<Rightarrow> (reader \<Rightarrow> reader \<times> 'x) \<Rightarrow> reader \<Rightarrow> reader \<times> 'x" where
  "buffering c f r = (case f r of (r', x) \<Rightarrow> (behind c r r', x))"

lemma snd_buffering [simp]: "snd (buffering c f r) = snd (f r)"
  by (simp add: buffering_def split: prod.split)

lemma buffering_eq: "f r = (r', x) \<Longrightarrow> buffering c f r = (behind c r r', x)"
  by (simp add: buffering_def)

lemma drain_0 [simp]: "drain give 0 bs = bs"
  by (simp add: drain.simps)

lemma drain_Nil [simp]: "drain give k [] = []"
  by (simp add: drain.simps)

text \<open>The source is behind the bytes delivered, by less than the size of the buffer.\<close>

lemma drain_drop:
  "\<exists>c. drain give k bs = drop c bs \<and> min k (length bs) \<le> c \<and> (c < k + 32768)"
proof (induction give k bs rule: drain.induct)
  case (1 give k bs)
  show ?case
  proof (cases "k = 0 \<or> bs = []")
    case True
    then show ?thesis by (auto simp: drain.simps intro!: exI [of _ 0])
  next
    case False
    let ?p = "piece give bs"
    have p: "?p \<le> 32768" "?p \<le> length bs" using False by (auto simp: piece_def Suc_le_eq)
    obtain c where c: "drain give (k - ?p) (drop ?p bs) = drop c (drop ?p bs)"
      "min (k - ?p) (length (drop ?p bs)) \<le> c" "c < k - ?p + 32768"
      using "1.IH" [OF False] by blast
    show ?thesis
    proof (cases "?p < k")
      case True
      then show ?thesis
        using c p False by (intro exI [of _ "?p + c"]) (auto simp: drain.simps [of give k] add.commute)
    next
      case le: False
      then have "drain give k bs = drop ?p bs" using False by (simp add: drain.simps [of give k])
      then show ?thesis using le p False by (intro exI [of _ ?p]) auto
    qed
  qed
qed

lemma behind_rest:
  assumes "rdata r = bs @ rest" and "bs \<noteq> []"
  shows "\<exists>n<32768. behind c r (r\<lparr>rdata := rest\<rparr>) = r\<lparr>rdata := drop n rest\<rparr> \<and> (c = Buffered \<longrightarrow> n = 0)"
proof (cases c)
  case Buffered
  then show ?thesis by (intro exI [of _ 0]) (simp add: behind_def)
next
  case (Unbuffered give)
  obtain k where k: "drain give (length bs) (bs @ rest) = drop k (bs @ rest)" "length bs \<le> k"
    "k < length bs + 32768"
    using drain_drop [of give "length bs" "bs @ rest"] by auto
  then show ?thesis
    using Unbuffered assms(1) by (intro exI [of _ "k - length bs"]) (auto simp: behind_def)
qed

text \<open>
  \<open>drain\<close> is what the buffer does.  A buffered reader is the content of the buffer and the bytes still
  in the source; \<open>bufio_fill\<close> reads from the source until \<open>n\<close> bytes are there (those already copied to the
  caller of \<open>io.ReadFull\<close> included) or the source has ended.  \<open>buffer_at give bs k s\<close>: the reader \<open>s\<close>
  has delivered the first \<open>k\<close> of the bytes \<open>bs\<close> of the source.
\<close>

function bufio_fill :: "(byte list \<Rightarrow> nat) \<Rightarrow> nat \<Rightarrow> byte list \<times> byte list \<Rightarrow> byte list \<times> byte list" where
  "bufio_fill give n (buf, src) =
     (if n \<le> length buf \<or> src = [] then (buf, src)
      else bufio_fill give n (buf @ take (piece give src) src, drop (piece give src) src))"
  by pat_completeness auto
termination
  by (relation "measure (\<lambda>(give, n, (buf, src)). length src)") (auto simp: piece_def)

definition bufio_read_full ::
  "(byte list \<Rightarrow> nat) \<Rightarrow> go_error \<Rightarrow> nat \<Rightarrow> byte list \<times> byte list \<Rightarrow>
    (byte list \<times> byte list) \<times> byte list outcome" where
  "bufio_read_full give err n s =
     (case bufio_fill give n s of
        (buf, src) \<Rightarrow>
          if n \<le> length buf then ((drop n buf, src), Ok (take n buf))
          else (([], src), Fail (if buf \<noteq> [] \<and> err = IoEOF then IoErrUnexpectedEOF else err)))"

definition buffer_at :: "(byte list \<Rightarrow> nat) \<Rightarrow> byte list \<Rightarrow> nat \<Rightarrow> byte list \<times> byte list \<Rightarrow> bool" where
  "buffer_at give bs k s = (fst s @ snd s = drop k bs \<and> snd s = drain give k bs)"

lemma bufio_fill_spec:
  "bufio_fill give n (buf, src) = (buf', src') \<Longrightarrow>
    buf' @ src' = buf @ src \<and> src' = drain give (n - length buf) src \<and> (n \<le> length buf' \<or> src' = [])"
proof (induction give n "(buf, src)" arbitrary: buf src rule: bufio_fill.induct)
  case (1 give n buf src)
  show ?case
  proof (cases "n \<le> length buf \<or> src = []")
    case True
    then show ?thesis using "1.prems" by auto
  next
    case False
    let ?p = "piece give src"
    have "length (take ?p src) = ?p" using False by (auto simp: piece_def Suc_le_eq)
    then have "n - length (buf @ take ?p src) = n - length buf - ?p" by simp
    moreover have "bufio_fill give n (buf @ take ?p src, drop ?p src) = (buf', src')"
      using "1.prems" False by (simp only: bufio_fill.simps [of give n buf src] if_False)
    note "1.hyps" [OF False this]
    moreover have "drain give (n - length buf) src = drain give (n - length buf - ?p) (drop ?p src)"
      using False by (simp add: drain.simps [of give "n - length buf" src])
    ultimately show ?thesis by (metis append_assoc append_take_drop_id)
  qed
qed

lemma drain_add:
  "drain give (k + n) bs = drain give (n - (length bs - k - length (drain give k bs))) (drain give k bs)"
proof (induction give k bs arbitrary: n rule: drain.induct)
  case (1 give k bs)
  show ?case
  proof (cases "k = 0 \<or> bs = []")
    case False
    let ?p = "piece give bs"
    have p: "?p \<le> length bs" using False by (auto simp: piece_def Suc_le_eq)
    have k: "drain give k bs = drain give (k - ?p) (drop ?p bs)" using False by (simp add: drain.simps)
    have kn: "drain give (k + n) bs = drain give (k + n - ?p) (drop ?p bs)"
      using False by (simp add: drain.simps [of give "k + n"])
    show ?thesis
    proof (cases "?p \<le> k")
      case True
      then have "k + n - ?p = (k - ?p) + n" "length (drop ?p bs) - (k - ?p) = length bs - k"
        using p by auto
      with "1.IH" [OF False, of n] show ?thesis by (simp only: k kn)
    next
      case less: False
      then have "k - ?p = 0" by simp
      with k kn less p show ?thesis by (simp add: add.commute)
    qed
  qed auto
qed

text \<open>Reading from the buffer is reading from the bytes in order, and keeps the source where \<open>drain\<close>
  says it is.\<close>

lemma bufio_read_full_refines:
  assumes "buffer_at give bs k s" and "bufio_read_full give err n s = (s', x)"
  shows "read_full n \<lparr>rdata = drop k bs, rerr = err\<rparr> = (\<lparr>rdata = drop (k + n) bs, rerr = err\<rparr>, x) \<and>
    buffer_at give bs (k + n) s'"
proof -
  obtain buf src where s: "s = (buf, src)" by (rule prod.exhaust)
  obtain buf' src' where f: "bufio_fill give n (buf, src) = (buf', src')" by (rule prod.exhaust)
  note spec = bufio_fill_spec [OF f]
  have at: "buf @ src = drop k bs" "src = drain give k bs"
    using assms(1) s unfolding buffer_at_def by (metis fst_conv snd_conv)+
  have "length buf + length src = length bs - k"
    using arg_cong [OF at(1), of length] by simp
  then have "length bs - k - length (drain give k bs) = length buf" using at(2) by simp
  then have src': "src' = drain give (k + n) bs" using spec at(2) drain_add [of give k n bs] by simp
  have all: "buf' @ src' = drop k bs" using spec at(1) by metis
  show ?thesis
  proof (cases "n \<le> length buf'")
    case True
    then have len: "n \<le> length (drop k bs)" unfolding all [symmetric] by simp
    have "take n (drop k bs) = take n buf'" "drop n (drop k bs) = drop n buf' @ src'"
      unfolding all [symmetric] using True by simp_all
    with assms(2) s f True len src' show ?thesis
      by (auto simp: bufio_read_full_def read_full_def buffer_at_def add.commute)
  next
    case False
    with spec have "src' = []" by metis
    with all have buf': "buf' = drop k bs" by simp
    with False have "length bs < k + n" by simp
    with assms(2) s f False src' \<open>src' = []\<close> buf' show ?thesis
      by (auto simp: bufio_read_full_def read_full_def buffer_at_def)
  qed
qed

end
