(* ===== verification/Merkle_Tree.thy ===== *)
theory Merkle_Tree
  imports Merkle_Spec Bytes_Codec
begin

text \<open>
  \<open>merkle_tree.go\<close>: the merkle store, an array of the inner hashes of the tree over
  \<open>NextPowerOfTwo(len(nodes))\<close> leaves, level after level, computed level-wise by goroutines of
  1024 places each when a level is large.

  \<open>crypto/sha256\<close>'s \<open>Sum256\<close> is the parameter \<open>sha\<close> of every definition: nothing is assumed
  about it, so every result holds for SHA-256.  The indices of this file are never negative and
  are natural numbers here.
\<close>

section \<open>Nodes and hashes\<close>

record node =
  Hash :: hash
  Fee :: uint64
  NodeSizeInBytes :: uint64

definition zero_node :: node where
  "zero_node = \<lparr>Hash = 0, Fee = 0, NodeSizeInBytes = 0\<rparr>"

type_synonym sha256 = "byte list \<Rightarrow> hash"

text \<open>The double SHA-256 of two hashes, one after the other.\<close>

definition hash_pair :: "sha256 \<Rightarrow> hash \<Rightarrow> hash \<Rightarrow> hash" where
  "hash_pair sha l r = sha (hash_bytes (sha (hash_bytes l @ hash_bytes r)))"

definition calcMerkle :: "sha256 \<Rightarrow> hash \<Rightarrow> hash \<Rightarrow> hash" where
  "calcMerkle sha currentMerkle currentMerkle1 =
     (if currentMerkle = 0 then 0
      else if currentMerkle1 = 0 then
        (let hash = sha (hash_bytes currentMerkle @ hash_bytes currentMerkle)
         in sha (hash_bytes hash))
      else
        (let hash = sha (hash_bytes currentMerkle @ hash_bytes currentMerkle1)
         in sha (hash_bytes hash)))"

interpretation calc_merkle: merkle_combine "calcMerkle sha" "hash_pair sha" for sha
  by unfold_locales (simp_all add: calcMerkle_def hash_pair_def)

section \<open>Filling the store\<close>

definition getNodeHashAt :: "node list \<Rightarrow> nat \<Rightarrow> nat \<Rightarrow> hash outcome" where
  "getNodeHashAt nodes index len =
     (if len \<le> index then Ok 0 else omap Hash (index_get nodes (int index)))"

definition getMerklePair ::
  "node list \<Rightarrow> hash list \<Rightarrow> nat \<Rightarrow> nat \<Rightarrow> nat \<Rightarrow> (hash \<times> hash) outcome" where
  "getMerklePair nodes merkles i nextPoT len =
     (if i < nextPoT then
        obind (getNodeHashAt nodes i len) (\<lambda>currentMerkle.
        obind (getNodeHashAt nodes (i + 1) len) (\<lambda>currentMerkle1.
        Ok (currentMerkle, currentMerkle1)))
      else
        obind (index_get merkles (int (i - nextPoT))) (\<lambda>currentMerkle.
        obind (index_get merkles (int (i - nextPoT + 1))) (\<lambda>currentMerkle1.
        Ok (currentMerkle, currentMerkle1))))"

text \<open>One round of the loop of \<open>calcMerkles\<close>: the pair at \<open>i\<close> gives the hash at \<open>i / 2\<close>.\<close>

definition calcMerkles_round ::
  "sha256 \<Rightarrow> node list \<Rightarrow> nat \<Rightarrow> nat \<Rightarrow> nat \<Rightarrow> hash list \<Rightarrow> hash list outcome" where
  "calcMerkles_round sha nodes i nextPoT len merkles =
     (let offset = i div 2 in
      obind (getMerklePair nodes merkles i nextPoT len) (\<lambda>(currentMerkle, currentMerkle1).
      index_set merkles (int offset) (calcMerkle sha currentMerkle currentMerkle1)))"

function calcMerkles ::
  "sha256 \<Rightarrow> node list \<Rightarrow> nat \<Rightarrow> nat \<Rightarrow> nat \<Rightarrow> nat \<Rightarrow> hash list \<Rightarrow> hash list outcome" where
  "calcMerkles sha nodes merkleFrom merkleTo nextPoT len merkles =
     (if merkleFrom < merkleTo then
        obind (calcMerkles_round sha nodes merkleFrom nextPoT len merkles) (\<lambda>merkles'.
        calcMerkles sha nodes (merkleFrom + 2) merkleTo nextPoT len merkles')
      else Ok merkles)"
  by pat_completeness auto
termination
  by (relation "measure (\<lambda>(sha, nodes, merkleFrom, merkleTo, nextPoT, len, merkles).
    merkleTo - merkleFrom)") auto

declare calcMerkles.simps [simp del]

definition routineSplitSize :: nat where
  "routineSplitSize = 1024"

text \<open>The ranges of the goroutines started for a large level, in the order of their start; the
  loop that starts them would not end for a size of 0.\<close>

function chunks :: "nat \<Rightarrow> nat \<Rightarrow> nat \<Rightarrow> (nat \<times> nat) list" where
  "chunks sz i merkleTo =
     (if i < merkleTo \<and> 0 < sz
      then (i, Min_go (i + sz) merkleTo) # chunks sz (i + sz) merkleTo
      else [])"
  by pat_completeness auto
termination
  by (relation "measure (\<lambda>(sz, i, merkleTo). merkleTo - i)") auto

declare chunks.simps [simp del]

text \<open>The goroutines of a level, one after the other; that every interleaving of their rounds has
  the same result is proved below.\<close>

fun run_chunks ::
  "sha256 \<Rightarrow> node list \<Rightarrow> (nat \<times> nat) list \<Rightarrow> nat \<Rightarrow> nat \<Rightarrow> hash list \<Rightarrow> hash list outcome" where
  "run_chunks sha nodes [] nextPoT len merkles = Ok merkles"
| "run_chunks sha nodes ((i, j) # cs) nextPoT len merkles =
     obind (calcMerkles sha nodes i j nextPoT len merkles) (run_chunks sha nodes cs nextPoT len)"

definition build_level ::
  "sha256 \<Rightarrow> node list \<Rightarrow> nat \<Rightarrow> nat \<Rightarrow> nat \<Rightarrow> nat \<Rightarrow> hash list \<Rightarrow> hash list outcome" where
  "build_level sha nodes merkleFrom merkleTo nextPoT len merkles =
     (if merkleTo - merkleFrom > routineSplitSize
      then run_chunks sha nodes (chunks routineSplitSize merkleFrom merkleTo) nextPoT len merkles
      else calcMerkles sha nodes merkleFrom merkleTo nextPoT len merkles)"

function build_levels ::
  "sha256 \<Rightarrow> node list \<Rightarrow> nat \<Rightarrow> nat \<Rightarrow> nat \<Rightarrow> nat \<Rightarrow> nat \<Rightarrow> hash list \<Rightarrow> hash list outcome" where
  "build_levels sha nodes height nextPoT len h merkleFrom merkles =
     (if h \<le> height then
        (let merkleTo = merkleFrom + 2 ^ (height - h) - 1 in
         obind (build_level sha nodes merkleFrom merkleTo nextPoT len merkles) (\<lambda>merkles'.
         build_levels sha nodes height nextPoT len (h + 1) (merkleTo + 1) merkles'))
      else Ok merkles)"
  by pat_completeness auto
termination
  by (relation "measure (\<lambda>(sha, nodes, height, nextPoT, len, h, merkleFrom, merkles).
    Suc height - h)") auto

declare build_levels.simps [simp del]

text \<open>The allocation of \<open>merkles\<close> cannot fail: its \<open>nextPoT - 1\<close> hashes take less room than
  \<open>2^48\<close> bytes whenever the nodes themselves could be allocated.  The error result of the Go
  function is always nil.\<close>

definition BuildMerkleTreeStoreFromBytes :: "sha256 \<Rightarrow> node list \<Rightarrow> hash list outcome" where
  "BuildMerkleTreeStoreFromBytes sha nodes =
     (if length nodes = 0 then Ok []
      else
        (let len = length nodes;
             nextPoT = nat (NextPowerOfTwo (int len));
             arraySize = nextPoT * 2 - 1;
             merkles = replicate (nextPoT - 1) 0
         in if arraySize = 1 then Ok [Hash (nodes ! 0)]
            else
              (let height = nat (ceil_log2 (int len))
               in build_levels sha nodes height nextPoT len 0 0 merkles)))"

text \<open>A list of nodes that fits into a slice.\<close>

definition allocatable :: "node list \<Rightarrow> bool" where
  "allocatable nodes = (48 * int (length nodes) \<le> max_alloc)"

section \<open>The store as a function of the leaves\<close>

text \<open>\<open>tree_at c P q\<close> is the hash the store holds at place \<open>q\<close> when the leaves, marked up to a
  power of two, are \<open>P\<close>.\<close>

function tree_at :: "(hash \<Rightarrow> hash \<Rightarrow> hash) \<Rightarrow> hash list \<Rightarrow> nat \<Rightarrow> hash" where
  "tree_at c P q =
     (if 2 * q < length P then c (P ! (2 * q)) (P ! (2 * q + 1))
      else if q + 1 < length P then
        c (tree_at c P (2 * q - length P)) (tree_at c P (2 * q - length P + 1))
      else 0)"
  by pat_completeness auto
termination
  by (relation "measure (\<lambda>(c, P, q). q)") auto

declare tree_at.simps [simp del]

definition leaves :: "nat \<Rightarrow> node list \<Rightarrow> hash list" where
  "leaves N nodes = padded N (map Hash nodes)"

lemma length_leaves [simp]: "length nodes \<le> N \<Longrightarrow> length (leaves N nodes) = N"
  by (simp add: leaves_def)

lemma leaves_nth:
  "i < N \<Longrightarrow> leaves N nodes ! i = (if i < length nodes then Hash (nodes ! i) else 0)"
  by (simp add: leaves_def padded_def nth_append)

lemma tree_at_level:
  "length P = 2 ^ k \<Longrightarrow> Suc j \<le> k \<Longrightarrow> r < 2 ^ (k - Suc j) \<Longrightarrow>
    tree_at c P (2 ^ k - 2 ^ (k - j) + r) = (pair_level c ^^ Suc j) P ! r"
proof (induction j arbitrary: r)
  case 0
  then obtain k' where k: "k = Suc k'" by (cases k) auto
  with 0 have "2 * r < length P" by simp
  then show ?case using 0 k by (simp add: tree_at.simps [of c P r] pair_level_nth)
next
  case (Suc j)
  from Suc.prems(2) obtain d where d: "k = Suc (Suc j) + d" by (auto dest: le_Suc_ex)
  define x :: nat where "x = 2 ^ d"
  define N :: nat where "N = 2 ^ k"
  have pows: "2 ^ (k - Suc j) = 2 * x" "2 ^ (k - Suc (Suc j)) = x" "2 ^ (k - j) = 4 * x"
    by (simp_all add: x_def d)
  have "2 ^ (k - j) \<le> N" unfolding N_def by (rule power_increasing) simp_all
  then have le: "4 * x \<le> N" by (simp only: pows)
  have r: "r < x" and x: "0 < x" using Suc.prems(3) pows by (simp_all add: x_def)
  let ?q = "N - 2 * x + r"
  have P: "length P = N" using Suc.prems(1) by (simp add: N_def)
  obtain e where e: "N = 4 * x + e" using le by (auto dest: le_Suc_ex)
  have e2: "N - 2 * x = 2 * x + e" and e4: "N - 4 * x = e" using e by simp_all
  have q: "\<not> 2 * ?q < length P" unfolding P e2 using e by simp
  have q1: "?q + 1 < length P" unfolding P e2 using e r by simp
  have l: "2 * ?q - length P = N - 4 * x + 2 * r" unfolding P e2 e4 using e by simp
  have l1: "2 * ?q - length P + 1 = N - 4 * x + (2 * r + 1)" using l by simp
  define Q where "Q = (pair_level c ^^ Suc j) P"
  have IH: "tree_at c P (N - 4 * x + r') = Q ! r'" if "r' < 2 * x" for r'
    using Suc.IH [of r'] Suc.prems(1,2) that unfolding pows N_def Q_def by simp
  have "length ((pair_level c ^^ n) P) = length P div 2 ^ n" for n
    by (induction n) (simp_all add: div_mult2_eq [symmetric] mult.commute)
  then have len: "length Q = 2 * x"
    unfolding Suc.prems(1) Q_def by (simp add: d x_def power_add)
  have "tree_at c P ?q = c (tree_at c P (N - 4 * x + 2 * r)) (tree_at c P (N - 4 * x + (2 * r + 1)))"
    using q q1 by (subst tree_at.simps) (simp only: l l1 if_True if_False add.assoc)
  also have "\<dots> = pair_level c Q ! r"
    using r by (simp only: IH pair_level_nth len)
  also have "\<dots> = (pair_level c ^^ Suc (Suc j)) P ! r"
    by (simp add: Q_def)
  finally show ?case unfolding pows N_def .
qed

definition agree :: "(hash \<Rightarrow> hash \<Rightarrow> hash) \<Rightarrow> hash list \<Rightarrow> nat \<Rightarrow> hash list \<Rightarrow> bool" where
  "agree c P lo M = (\<forall>q<lo. M ! q = tree_at c P q)"

text \<open>The common frame of the lemmas about rounds: a store of the right size for the leaves.\<close>

definition store_frame :: "node list \<Rightarrow> nat \<Rightarrow> hash list \<Rightarrow> bool" where
  "store_frame nodes N M = (even N \<and> length nodes \<le> N \<and> length M = N - 1)"

lemma getNodeHashAt_leaves:
  "i < N \<Longrightarrow> getNodeHashAt nodes i (length nodes) = Ok (leaves N nodes ! i)"
  by (simp add: getNodeHashAt_def leaves_nth index_get_nat)

lemma calcMerkles_round_eq:
  assumes "store_frame nodes N M" and "agree (calcMerkle sha) (leaves N nodes) lo M"
    and "q + 1 < N" and "2 * q < N \<or> 2 * q + 1 < N + lo" and "lo \<le> length M"
  shows "calcMerkles_round sha nodes (2 * q) N (length nodes) M =
    Ok (M[q := tree_at (calcMerkle sha) (leaves N nodes) q])"
proof (cases "2 * q < N")
  case True
  have "2 * q + 1 < N" using True assms(1) by (auto simp: store_frame_def elim!: evenE)
  then have "getMerklePair nodes M (2 * q) N (length nodes) =
      Ok (leaves N nodes ! (2 * q), leaves N nodes ! (2 * q + 1))"
    using True getNodeHashAt_leaves [of "2 * q" N nodes] getNodeHashAt_leaves [of "2 * q + 1" N nodes]
    by (simp add: getMerklePair_def)
  moreover have "q < length M" using assms(1,3) by (simp add: store_frame_def)
  ultimately show ?thesis
    using True assms(1) by (simp add: calcMerkles_round_def index_set_nat store_frame_def
        tree_at.simps [of "calcMerkle sha" "leaves N nodes" q])
next
  case False
  with assms(4) have lo: "2 * q - N + 1 < lo" by linarith
  then have reads: "index_get M (int (2 * q - N)) = Ok (M ! (2 * q - N))"
    "index_get M (int (2 * q - N + 1)) = Ok (M ! (2 * q - N + 1))"
    using assms(5) by (intro index_get_nat; linarith)+
  have vals: "M ! (2 * q - N) = tree_at (calcMerkle sha) (leaves N nodes) (2 * q - N)"
    "M ! (2 * q - N + 1) = tree_at (calcMerkle sha) (leaves N nodes) (2 * q - N + 1)"
    using assms(2) lo by (simp_all add: agree_def)
  have "getMerklePair nodes M (2 * q) N (length nodes) =
      Ok (M ! (2 * q - N), M ! (2 * q - N + 1))"
    using False reads by (simp add: getMerklePair_def)
  moreover have "q < length M" using assms(1,3) by (simp add: store_frame_def)
  ultimately show ?thesis
    using False assms(1,3) vals by (simp add: calcMerkles_round_def index_set_nat store_frame_def
        tree_at.simps [of "calcMerkle sha" "leaves N nodes" q])
qed

text \<open>A run of places replaced by their values.\<close>

definition fill_run :: "(nat \<Rightarrow> 'a) \<Rightarrow> nat \<Rightarrow> nat \<Rightarrow> 'a list \<Rightarrow> 'a list" where
  "fill_run T p m M = take p M @ map T [p..<p + m] @ drop (p + m) M"

lemma fill_run_0 [simp]: "fill_run T p 0 M = M"
  by (simp add: fill_run_def)

lemma length_fill_run [simp]: "p + m \<le> length M \<Longrightarrow> length (fill_run T p m M) = length M"
  by (simp add: fill_run_def)

lemma fill_run_nth:
  "p + m \<le> length M \<Longrightarrow> q < length M \<Longrightarrow>
    fill_run T p m M ! q = (if p \<le> q \<and> q < p + m then T q else M ! q)"
  by (auto simp: fill_run_def nth_append)

lemma fill_run_Suc:
  "p + Suc m \<le> length M \<Longrightarrow> fill_run T (Suc p) m (M[p := T p]) = fill_run T p (Suc m) M"
  by (intro nth_equalityI) (auto simp: fill_run_nth nth_list_update)

lemma fill_run_append:
  "p + m + n \<le> length M \<Longrightarrow> fill_run T (p + m) n (fill_run T p m M) = fill_run T p (m + n) M"
  by (intro nth_equalityI) (auto simp: fill_run_nth)

lemma fill_run_agree:
  "agree c P lo M \<Longrightarrow> p + m \<le> length M \<Longrightarrow> lo \<le> length M \<Longrightarrow>
    agree c P lo (fill_run (tree_at c P) p m M)"
  by (simp add: agree_def fill_run_nth)

text \<open>The places \<open>p, ..., p + m - 1\<close> only read leaves or places below \<open>lo\<close>.\<close>

definition reads_below :: "nat \<Rightarrow> nat \<Rightarrow> nat \<Rightarrow> nat \<Rightarrow> bool" where
  "reads_below N lo p m = (p + m < N \<and> (m = 0 \<or> 2 * (p + m) \<le> N \<or> 2 * (p + m) \<le> N + lo))"

lemma reads_below_place:
  "reads_below N lo p m \<Longrightarrow> p \<le> q \<Longrightarrow> q < p + m \<Longrightarrow> q + 1 < N \<and> (2 * q < N \<or> 2 * q + 1 < N + lo)"
  by (auto simp: reads_below_def)

lemma reads_below_mono:
  "reads_below N lo p m \<Longrightarrow> p \<le> p' \<Longrightarrow> p' + m' \<le> p + m \<Longrightarrow> reads_below N lo p' m'"
  by (auto simp: reads_below_def)

abbreviation tree_val :: "sha256 \<Rightarrow> node list \<Rightarrow> nat \<Rightarrow> nat \<Rightarrow> hash" where
  "tree_val sha nodes N \<equiv> tree_at (calcMerkle sha) (leaves N nodes)"

abbreviation agrees :: "sha256 \<Rightarrow> node list \<Rightarrow> nat \<Rightarrow> nat \<Rightarrow> hash list \<Rightarrow> bool" where
  "agrees sha nodes N \<equiv> agree (calcMerkle sha) (leaves N nodes)"

lemma calcMerkles_run:
  "store_frame nodes N M \<Longrightarrow> agrees sha nodes N lo M \<Longrightarrow> lo \<le> length M \<Longrightarrow>
    reads_below N lo p m \<Longrightarrow> 2 * p + 2 * m \<le> Suc to \<or> m = 0 \<Longrightarrow> to \<le> 2 * p + 2 * m \<Longrightarrow>
    calcMerkles sha nodes (2 * p) to N (length nodes) M = Ok (fill_run (tree_val sha nodes N) p m M)"
proof (induction m arbitrary: p M)
  case 0
  then show ?case by (simp add: calcMerkles.simps)
next
  case (Suc m)
  let ?T = "tree_val sha nodes N"
  have p: "p + 1 < N" "2 * p < N \<or> 2 * p + 1 < N + lo" "p + Suc m \<le> length M"
    using reads_below_place [OF Suc.prems(4), of p] Suc.prems(1,4)
    by (auto simp: reads_below_def store_frame_def)
  then have round: "calcMerkles_round sha nodes (2 * p) N (length nodes) M = Ok (M[p := ?T p])"
    using Suc.prems(1-3) by (intro calcMerkles_round_eq)
  have "agrees sha nodes N lo (M[p := ?T p])"
    using Suc.prems(2,3) unfolding agree_def
    by (metis nth_list_update_eq nth_list_update_neq order_less_le_trans)
  moreover have "reads_below N lo (Suc p) m"
    using Suc.prems(4) by (rule reads_below_mono) simp_all
  ultimately have "calcMerkles sha nodes (2 * Suc p) to N (length nodes) (M[p := ?T p]) =
      Ok (fill_run ?T (Suc p) m (M[p := ?T p]))"
    using Suc.prems by (intro Suc.IH) (auto simp: store_frame_def)
  then show ?case
    using Suc.prems(5) round fill_run_Suc [OF p(3), of ?T]
    by (subst calcMerkles.simps) simp
qed

lemma run_chunks_run:
  "store_frame nodes N M \<Longrightarrow> agrees sha nodes N lo M \<Longrightarrow> lo \<le> length M \<Longrightarrow>
    reads_below N lo p m \<Longrightarrow> 2 * p + 2 * m \<le> Suc to \<or> m = 0 \<Longrightarrow> to \<le> 2 * p + 2 * m \<Longrightarrow>
    run_chunks sha nodes (chunks routineSplitSize (2 * p) to) N (length nodes) M =
      Ok (fill_run (tree_val sha nodes N) p m M)"
proof (induction m arbitrary: p M rule: less_induct)
  case (less m)
  let ?T = "tree_val sha nodes N"
  have pm: "p + m \<le> length M"
    using less.prems(1,4) unfolding reads_below_def store_frame_def by linarith
  show ?case
  proof (cases "2 * p < to")
    case False
    with less.prems(5) have "m = 0" by linarith
    with False show ?thesis by (simp add: chunks.simps)
  next
    case True
    define n where "n = min 512 m"
    define e where "e = Min_go (2 * p + routineSplitSize) to"
    have n: "0 < n" "n \<le> m" using True less.prems(6) by (auto simp: n_def)
    have e: "2 * p + 2 * n \<le> Suc e" "e \<le> 2 * p + 2 * n"
      using less.prems(5,6) n by (auto simp: e_def n_def routineSplitSize_def)
    have rest: "2 * p + routineSplitSize = 2 * (p + 512)" by (simp add: routineSplitSize_def)
    have first: "calcMerkles sha nodes (2 * p) e N (length nodes) M = Ok (fill_run ?T p n M)"
      using less.prems n e by (intro calcMerkles_run [where lo = lo])
        (auto intro: reads_below_mono)
    have "run_chunks sha nodes (chunks routineSplitSize (2 * (p + 512)) to) N (length nodes) (fill_run ?T p n M) =
        Ok (fill_run ?T (p + n) (m - n) (fill_run ?T p n M))"
    proof (cases "m \<le> 512")
      case True
      then have "\<not> 2 * (p + 512) < to" "n = m" using less.prems(6) by (simp_all add: n_def)
      then show ?thesis by (simp add: chunks.simps)
    next
      case False
      then have n512: "n = 512" by (simp add: n_def)
      have "run_chunks sha nodes (chunks routineSplitSize (2 * (p + n)) to) N (length nodes) (fill_run ?T p n M) =
          Ok (fill_run ?T (p + n) (m - n) (fill_run ?T p n M))"
        using less.prems n pm False n512
        by (intro less.IH) (auto simp: store_frame_def intro: reads_below_mono fill_run_agree)
      then show ?thesis by (simp add: n512)
    qed
    moreover have "chunks routineSplitSize (2 * p) to = (2 * p, e) # chunks routineSplitSize (2 * (p + 512)) to"
      using True by (subst chunks.simps) (simp add: e_def rest routineSplitSize_def)
    moreover have "fill_run ?T (p + n) (m - n) (fill_run ?T p n M) = fill_run ?T p m M"
      using fill_run_append [of p n "m - n" M ?T] n(2) pm by simp
    ultimately show ?thesis using first by simp
  qed
qed

lemma build_level_run:
  assumes "store_frame nodes N M" "agrees sha nodes N lo M" "lo \<le> length M" "reads_below N lo p m"
    and "2 * p + 2 * m \<le> Suc to \<or> m = 0" "to \<le> 2 * p + 2 * m"
  shows "build_level sha nodes (2 * p) to N (length nodes) M =
    Ok (fill_run (tree_val sha nodes N) p m M)"
  using calcMerkles_run [OF assms] run_chunks_run [OF assms] by (simp add: build_level_def)

text \<open>All levels: \<open>merkleFrom\<close> is twice the number of places filled so far.\<close>

lemma build_levels_run:
  "store_frame nodes (2 ^ k) M0 \<Longrightarrow> h \<le> k \<Longrightarrow> M = fill_run T 0 (2 ^ k - 2 ^ (k - h)) M0 \<Longrightarrow>
    T = tree_val sha nodes (2 ^ k) \<Longrightarrow>
    build_levels sha nodes k (2 ^ k) (length nodes) h (2 * (2 ^ k - 2 ^ (k - h))) M =
      Ok (fill_run T 0 (2 ^ k - 1) M0)"
proof (induction "k - h" arbitrary: h M)
  case 0
  then have h: "h = k" by simp
  let ?f = "2 * (2 ^ k - 2 ^ (k - h))"
  have "build_level sha nodes ?f ?f (2 ^ k) (length nodes) M = Ok M"
    by (simp add: build_level_def calcMerkles.simps)
  moreover have "M = fill_run T 0 (2 ^ k - 1) M0" using 0 h by simp
  ultimately show ?case using h by (simp add: build_levels.simps Let_def)
next
  case (Suc d)
  define x :: nat where "x = 2 ^ d"
  define N :: nat where "N = 2 ^ k"
  have kd: "k = Suc (h + d)" using Suc.hyps(2) Suc.prems(2) by simp
  have kh: "2 ^ (k - h) = 2 * x" and kh': "2 ^ (k - Suc h) = x"
    by (simp_all add: x_def kd)
  have "2 ^ (k - h) \<le> N" unfolding N_def by (rule power_increasing) simp_all
  then obtain p where N: "N = 2 * x + p" unfolding kh by (auto dest: le_Suc_ex)
  have x: "0 < x" by (simp add: x_def)
  have frame: "store_frame nodes N M0" using Suc.prems(1) by (simp add: N_def)
  have M: "M = fill_run T 0 p M0" using Suc.prems(3) N by (simp add: kh flip: N_def)
  have lenM0: "length M0 = N - 1" using frame by (simp add: store_frame_def)
  have "agrees sha nodes N p M"
    using Suc.prems(4) lenM0 x unfolding M agree_def
    by (simp add: fill_run_nth N N_def [symmetric])
  then have "build_level sha nodes (2 * p) (2 * p + 2 * x - 1) N (length nodes) M =
      Ok (fill_run (tree_val sha nodes N) p x M)"
    using frame lenM0 x by (intro build_level_run [where lo = p])
      (auto simp: store_frame_def M N reads_below_def)
  also have "fill_run (tree_val sha nodes N) p x M = fill_run T 0 (p + x) M0"
    using fill_run_append [of 0 p x M0 T] lenM0 x Suc.prems(4) by (simp add: M N N_def [symmetric])
  finally have level: "build_level sha nodes (2 * p) (2 * p + 2 * x - 1) N (length nodes) M =
      Ok (fill_run T 0 (p + x) M0)" .
  have "build_levels sha nodes k (2 ^ k) (length nodes) (Suc h) (2 * (2 ^ k - 2 ^ (k - Suc h)))
      (fill_run T 0 (p + x) M0) = Ok (fill_run T 0 (2 ^ k - 1) M0)"
    using Suc.hyps(2) Suc.prems N by (intro Suc.hyps(1)) (simp_all add: kh' add.commute flip: N_def)
  moreover have "2 * (2 ^ k - 2 ^ (k - Suc h)) = 2 * p + 2 * x"
    using N by (simp add: kh' flip: N_def)
  ultimately show ?case
    using level Suc.prems(2) x N
    by (subst build_levels.simps) (simp add: kh Let_def flip: N_def)
qed

lemma allocatable_bound: "allocatable nodes \<Longrightarrow> length nodes \<le> 2 ^ 43"
  by (simp add: allocatable_def max_alloc_def)

lemma NextPowerOfTwo_nodes:
  "nodes \<noteq> [] \<Longrightarrow> allocatable nodes \<Longrightarrow>
    nat (NextPowerOfTwo (int (length nodes))) = 2 ^ clog2 (length nodes)"
  using allocatable_bound [of nodes] NextPowerOfTwo_pos [of "int (length nodes)"]
  by (simp add: nat_power_eq)

lemma BuildMerkleTreeStoreFromBytes_eq:
  assumes "2 \<le> length nodes" and "allocatable nodes"
  defines "N \<equiv> 2 ^ clog2 (length nodes)"
  shows "BuildMerkleTreeStoreFromBytes sha nodes = Ok (map (tree_val sha nodes N) [0..<N - 1])"
proof -
  let ?k = "clog2 (length nodes)"
  have k: "0 < ?k" using assms(1) by (simp add: clog2_pos_iff)
  then have even: "even N" by (simp add: N_def)
  have le: "length nodes \<le> N" using clog2_upper by (simp add: N_def)
  have pot: "nat (NextPowerOfTwo (int (length nodes))) = N"
    unfolding N_def using assms(1,2) by (intro NextPowerOfTwo_nodes) auto
  have "N * 2 - 1 \<noteq> 1" and "0 < length nodes" using assms(1) le by auto
  moreover have "nat (ceil_log2 (int (length nodes))) = ?k"
    using assms(1) by (auto simp: ceil_log2_def)
  moreover have "build_levels sha nodes ?k (2 ^ ?k) (length nodes) 0 (2 * (2 ^ ?k - 2 ^ (?k - 0)))
      (replicate (N - 1) 0) = Ok (fill_run (tree_val sha nodes N) 0 (2 ^ ?k - 1) (replicate (N - 1) 0))"
    by (rule build_levels_run) (use even le in \<open>simp_all add: store_frame_def flip: N_def\<close>)
  then have "build_levels sha nodes ?k N (length nodes) 0 0 (replicate (N - 1) 0) =
      Ok (fill_run (tree_val sha nodes N) 0 (N - 1) (replicate (N - 1) 0))"
    by (simp flip: N_def)
  ultimately show ?thesis
    unfolding BuildMerkleTreeStoreFromBytes_def Let_def pot by (simp add: fill_run_def)
qed

section \<open>The store computes the tree\<close>

lemma BuildMerkleTreeStoreFromBytes_small [simp]:
  "BuildMerkleTreeStoreFromBytes sha [] = Ok []"
  "BuildMerkleTreeStoreFromBytes sha [n] = Ok [Hash n]"
proof -
  have "NextPowerOfTwo 1 = 1" by code_simp
  then show "BuildMerkleTreeStoreFromBytes sha [n] = Ok [Hash n]"
    by (simp add: BuildMerkleTreeStoreFromBytes_def)
qed (simp add: BuildMerkleTreeStoreFromBytes_def)

text \<open>The places of level \<open>Suc j\<close> hold the hashes of that level of the tree, then marks.\<close>

lemma tree_val_level_padded:
  assumes "tree_nonzero (hash_pair sha) (map Hash nodes)"
    and "k = clog2 (length nodes)" and "Suc j \<le> k" and "r < 2 ^ (k - Suc j)"
  shows "tree_val sha nodes (2 ^ k) (2 ^ k - 2 ^ (k - j) + r) =
    (let l = (level_up (hash_pair sha) ^^ Suc j) (map Hash nodes) in if r < length l then l ! r else 0)"
proof -
  let ?l = "(level_up (hash_pair sha) ^^ Suc j) (map Hash nodes)"
  have len: "length nodes \<le> 2 ^ k" using clog2_upper assms(2) by simp
  then have "tree_val sha nodes (2 ^ k) (2 ^ k - 2 ^ (k - j) + r) =
      (pair_level (calcMerkle sha) ^^ Suc j) (leaves (2 ^ k) nodes) ! r"
    using assms(3,4) by (intro tree_at_level) (simp_all del: funpow.simps)
  also have "(pair_level (calcMerkle sha) ^^ Suc j) (leaves (2 ^ k) nodes) = padded (2 ^ (k - Suc j)) ?l"
    unfolding leaves_def using assms(1-3) len
    by (intro calc_merkle.pair_levels_padded) (simp_all del: funpow.simps)
  also have "padded (2 ^ (k - Suc j)) ?l ! r = (if r < length ?l then ?l ! r else 0)"
    using assms(4) by (simp add: padded_def nth_append del: funpow.simps)
  finally show ?thesis by (simp only: Let_def)
qed

lemma tree_val_level:
  assumes "tree_nonzero (hash_pair sha) (map Hash nodes)"
    and "k = clog2 (length nodes)" and "Suc j \<le> k"
    and "r < length ((level_up (hash_pair sha) ^^ Suc j) (map Hash nodes))"
    and "length ((level_up (hash_pair sha) ^^ Suc j) (map Hash nodes)) \<le> 2 ^ (k - Suc j)"
  shows "tree_val sha nodes (2 ^ k) (2 ^ k - 2 ^ (k - j) + r) =
    (level_up (hash_pair sha) ^^ Suc j) (map Hash nodes) ! r"
  using tree_val_level_padded [OF assms(1-3) order_less_le_trans [OF assms(4,5)]] assms(4)
  by (simp only: Let_def if_True)

lemma level_up_funpow_length_le:
  "length xs \<le> 2 ^ k \<Longrightarrow> j \<le> k \<Longrightarrow> length ((level_up H ^^ j) xs) \<le> 2 ^ (k - j)"
proof (induction j arbitrary: k xs)
  case (Suc j)
  then obtain k' where k: "k = Suc k'" by (cases k) auto
  then have "length (level_up H xs) \<le> 2 ^ k'" using Suc.prems(1) by simp
  then show ?case using Suc.IH [of "level_up H xs" k'] Suc.prems(2) k by (simp add: funpow_swap1)
qed simp

lemma BuildMerkleTreeStoreFromBytes_root:
  assumes "nodes \<noteq> []" and "allocatable nodes" and "tree_nonzero (hash_pair sha) (map Hash nodes)"
  shows "\<exists>store. BuildMerkleTreeStoreFromBytes sha nodes = Ok store \<and> store \<noteq> [] \<and>
    last store = merkle_root (hash_pair sha) (map Hash nodes)"
proof (cases "2 \<le> length nodes")
  case False
  with assms(1) obtain n where "nodes = [n]" by (cases nodes) (auto simp: Suc_le_eq)
  then show ?thesis by simp
next
  case True
  let ?k = "clog2 (length nodes)" and ?H = "hash_pair sha"
  let ?N = "2 ^ ?k :: nat"
  obtain j where j: "?k = Suc j" using True clog2_pos_iff [of "length nodes"] by (cases ?k) auto
  have top: "(level_up ?H ^^ Suc j) (map Hash nodes) = [merkle_root ?H (map Hash nodes)]"
    using level_up_funpow_clog2 [of "map Hash nodes" ?H] assms(1) j by simp
  have "tree_val sha nodes ?N (?N - 2 ^ (?k - j) + 0) =
      (level_up ?H ^^ Suc j) (map Hash nodes) ! 0"
    using assms(3) j top by (intro tree_val_level) simp_all
  then have root: "tree_val sha nodes ?N (?N - 2) = merkle_root ?H (map Hash nodes)"
    unfolding top by (simp add: j)
  have "2 \<le> ?N" using j by simp
  then have "map (tree_val sha nodes ?N) [0..<?N - 1] \<noteq> []"
    and "last (map (tree_val sha nodes ?N) [0..<?N - 1]) = tree_val sha nodes ?N (?N - 2)"
    by (auto simp: last_map last_upt numeral_2_eq_2)
  with root show ?thesis
    using BuildMerkleTreeStoreFromBytes_eq [OF True assms(2), of sha] by simp
qed

lemma BuildMerkleTreeStoreFromBytes_total:
  "allocatable nodes \<Longrightarrow> \<exists>store. BuildMerkleTreeStoreFromBytes sha nodes = Ok store"
proof (cases "2 \<le> length nodes")
  case True
  assume "allocatable nodes"
  with True BuildMerkleTreeStoreFromBytes_eq [where nodes = nodes and sha = sha]
  show ?thesis by blast
next
  case False
  then have "nodes = [] \<or> (\<exists>n. nodes = [n])" by (cases nodes) (auto simp: Suc_le_eq)
  then show ?thesis by auto
qed

section \<open>Properties\<close>

text \<open>A function of bytes to evaluate the model with.\<close>

definition mix_sha :: sha256 where
  "mix_sha bs = 1 + hash_of_bytes (take 32 bs) + 3 * hash_of_bytes (drop 32 bs)"

lemma hash_pair_mix: "hash_pair mix_sha l r = 2 + l + 3 * r"
  by (simp add: hash_pair_def mix_sha_def) (simp add: hash_of_bytes_def)

definition leaf :: "nat \<Rightarrow> node" where
  "leaf n = \<lparr>Hash = of_nat n, Fee = of_nat (10 * n), NodeSizeInBytes = of_nat (100 * n)\<rparr>"

definition example_nodes :: "node list" where
  "example_nodes = [leaf 1, leaf 2, leaf 3]"

lemma example_nodes_nonzero: "tree_nonzero (hash_pair mix_sha) (map Hash example_nodes)"
  by (simp add: tree_nonzero_def merkle_levels.simps hash_pair_mix example_nodes_def leaf_def)

lemma example_nodes_simps [simp]:
  "length example_nodes = 3" "allocatable example_nodes" "example_nodes \<noteq> []"
  by (simp_all add: example_nodes_def allocatable_def max_alloc_def)

lemma clog2_3 [simp]: "clog2 3 = 2"
  by code_simp

text \<open>C2: \<open>BuildMerkleTreeStoreFromBytes\<close> returns, and the last hash of the store is Bitcoin's merkle
  root of the leaves, for every number of leaves (the padding to a power of two, the levels in
  one array and the goroutine ranges included), as long as no hash of the tree is the zero hash
  that the code uses as its mark for a missing node.\<close>

theorem merkle_store_root:
  assumes "nodes \<noteq> []" and "allocatable nodes" and "tree_nonzero (hash_pair sha) (map Hash nodes)"
  shows "\<exists>store. BuildMerkleTreeStoreFromBytes sha nodes = Ok store \<and> store \<noteq> [] \<and>
    last store = merkle_root (hash_pair sha) (map Hash nodes)"
  using assms by (rule BuildMerkleTreeStoreFromBytes_root)

theorem merkle_store_root_witness:
  "\<exists>store. BuildMerkleTreeStoreFromBytes mix_sha example_nodes = Ok store \<and> store \<noteq> [] \<and>
    last store = merkle_root (hash_pair mix_sha) (map Hash example_nodes)"
  by (rule merkle_store_root) (simp_all add: example_nodes_nonzero)

text \<open>C17: the store of at least two leaves has one place for every inner node of the padded tree, and
  the places of each level, which start at \<open>2^k - 2^(k - j)\<close>, hold the hashes of that level of
  Bitcoin's tree.\<close>

theorem merkle_store_levels:
  assumes "2 \<le> length nodes" and "allocatable nodes"
    and "tree_nonzero (hash_pair sha) (map Hash nodes)"
    and "k = clog2 (length nodes)" and "j < k"
    and "r < length ((level_up (hash_pair sha) ^^ Suc j) (map Hash nodes))"
  shows "\<exists>store. BuildMerkleTreeStoreFromBytes sha nodes = Ok store \<and> length store = 2 ^ k - 1 \<and>
    store ! (2 ^ k - 2 ^ (k - j) + r) = (level_up (hash_pair sha) ^^ Suc j) (map Hash nodes) ! r"
proof -
  let ?l = "(level_up (hash_pair sha) ^^ Suc j) (map Hash nodes)"
  have len: "length ?l \<le> 2 ^ (k - Suc j)"
    using assms(4,5) clog2_upper [of "length nodes"] by (intro level_up_funpow_length_le) simp_all
  have val: "tree_val sha nodes (2 ^ k) (2 ^ k - 2 ^ (k - j) + r) = ?l ! r"
    using assms len by (intro tree_val_level) simp_all
  obtain d where d: "k = Suc (j + d)" using assms(5) less_imp_Suc_add by blast
  have "(2::nat) ^ d \<le> 2 ^ (j + d)" by (rule power_increasing) simp_all
  moreover have "r < 2 ^ d" using order_less_le_trans [OF assms(6) len] by (simp add: d)
  moreover have "2 ^ (k - j) = 2 * (2::nat) ^ d" and "2 ^ k = 2 * (2::nat) ^ (j + d)"
    by (simp_all add: d)
  ultimately have "2 ^ k - 2 ^ (k - j) + r < (2::nat) ^ k - 1" by linarith
  then show ?thesis
    using val BuildMerkleTreeStoreFromBytes_eq [OF assms(1,2), of sha] assms(4) by simp
qed

theorem merkle_store_levels_witness:
  "\<exists>store. BuildMerkleTreeStoreFromBytes mix_sha example_nodes = Ok store \<and>
    length store = 2 ^ 2 - 1 \<and>
    store ! (2 ^ 2 - 2 ^ (2 - 0) + 1) =
      (level_up (hash_pair mix_sha) ^^ Suc 0) (map Hash example_nodes) ! 1"
  by (rule merkle_store_levels) (simp_all add: example_nodes_nonzero)

end
