(* ===== verification/Merkle_Parallel.thy ===== *)
theory Merkle_Parallel
  imports Merkle_Tree
begin

text \<open>
  The goroutines that \<open>BuildMerkleTreeStoreFromBytes\<close> starts for a large level, as a step
  relation over their loop variables and the shared array: a step is one round of one goroutine's
  \<open>calcMerkles\<close> loop, and the scheduler picks the goroutine.  A round reads two places and writes
  one; no other goroutine of the level writes the places it reads (\<open>level_race_free\<close>), so taking
  it as one step loses no behaviour.  The main result is that every complete run ends with the
  array that one sequential loop over the whole level computes.
\<close>

type_synonym goroutines = "(nat \<times> nat) list" \<comment> \<open>loop variable and bound of each\<close>

inductive par_step ::
  "sha256 \<Rightarrow> node list \<Rightarrow> nat \<Rightarrow> nat \<Rightarrow> goroutines \<times> hash list \<Rightarrow> goroutines \<times> hash list \<Rightarrow> bool"
  for sha nodes nextPoT len where
  round: "g < length gs \<Longrightarrow> gs ! g = (i, j) \<Longrightarrow> i < j \<Longrightarrow>
    calcMerkles_round sha nodes i nextPoT len merkles = Ok merkles' \<Longrightarrow>
    par_step sha nodes nextPoT len (gs, merkles) (gs[g := (i + 2, j)], merkles')"

inductive_cases par_stepE: "par_step sha nodes nextPoT len (gs, merkles) t"

text \<open>\<open>wg.Wait()\<close> returns when every loop has ended.\<close>

definition all_done :: "goroutines \<Rightarrow> bool" where
  "all_done gs = (\<forall>(i, j)\<in>set gs. \<not> i < j)"

section \<open>The ranges\<close>

text \<open>What the ranges of a level promise: even starts, no range beyond the level's bound, and
  every even index of the level in one of them.\<close>

definition ranges_ok :: "nat \<Rightarrow> nat \<Rightarrow> goroutines \<Rightarrow> bool" where
  "ranges_ok a to cs =
     ((\<forall>(s, e)\<in>set cs. even s \<and> a \<le> s \<and> s < e \<and> e \<le> to) \<and>
      (\<forall>i. even i \<longrightarrow> a \<le> i \<longrightarrow> i < to \<longrightarrow> (\<exists>(s, e)\<in>set cs. s \<le> i \<and> i < e)))"

lemma chunks_ranges_ok: "even sz \<Longrightarrow> 0 < sz \<Longrightarrow> even a \<Longrightarrow> ranges_ok a to (chunks sz a to)"
proof (induction sz a to rule: chunks.induct)
  case (1 sz a to)
  show ?case
  proof (cases "a < to")
    case False
    then show ?thesis by (simp add: chunks.simps ranges_ok_def)
  next
    case True
    with 1 have IH: "ranges_ok (a + sz) to (chunks sz (a + sz) to)" by simp
    have eq: "chunks sz a to = (a, min (a + sz) to) # chunks sz (a + sz) to"
      using True 1 by (subst chunks.simps) simp
    have "\<exists>(s, e)\<in>set (chunks sz a to). s \<le> i \<and> i < e" if "even i" "a \<le> i" "i < to" for i
    proof (cases "i < a + sz")
      case True
      with that show ?thesis by (simp add: eq)
    next
      case False
      with IH that have "\<exists>(s, e)\<in>set (chunks sz (a + sz) to). s \<le> i \<and> i < e"
        by (simp add: ranges_ok_def)
      then show ?thesis by (simp add: eq)
    qed
    moreover have "\<forall>(s, e)\<in>set (chunks sz a to). even s \<and> a \<le> s \<and> s < e \<and> e \<le> to"
      using IH True 1 by (fastforce simp: eq ranges_ok_def)
    ultimately show ?thesis by (simp add: ranges_ok_def)
  qed
qed

text \<open>The ranges are disjoint and in order.\<close>

lemma chunks_starts: "(s, e) \<in> set (chunks sz a to) \<Longrightarrow> a \<le> s"
proof (induction sz a to rule: chunks.induct)
  case (1 sz a to)
  then show ?case by (subst (asm) (2) chunks.simps) (fastforce split: if_splits)
qed

lemma chunks_disjoint:
  "g < h \<Longrightarrow> h < length (chunks sz a to) \<Longrightarrow> snd (chunks sz a to ! g) \<le> fst (chunks sz a to ! h)"
proof (induction sz a to arbitrary: g h rule: chunks.induct)
  case (1 sz a to)
  have "a < to \<and> 0 < sz" using "1.prems"(2) by (subst (asm) chunks.simps) (simp split: if_splits)
  then have eq: "chunks sz a to = (a, min (a + sz) to) # chunks sz (a + sz) to"
    by (subst chunks.simps) simp
  obtain h' where h: "h = Suc h'" using "1.prems"(1) by (cases h) auto
  have h': "h' < length (chunks sz (a + sz) to)" using "1.prems"(2) eq h by simp
  show ?case
  proof (cases g)
    case 0
    have "chunks sz (a + sz) to ! h' \<in> set (chunks sz (a + sz) to)" using h' by simp
    then have "a + sz \<le> fst (chunks sz (a + sz) to ! h')"
      by (metis chunks_starts prod.collapse)
    then show ?thesis using eq h 0 by simp
  next
    case (Suc g')
    then show ?thesis
      using "1.IH" [of g' h'] "1.prems" \<open>a < to \<and> 0 < sz\<close> h h' eq by simp
  qed
qed

section \<open>The invariant of a level\<close>

text \<open>The places a goroutine with start \<open>s\<close> and loop variable \<open>i\<close> has written.\<close>

definition written :: "goroutines \<Rightarrow> goroutines \<Rightarrow> nat \<Rightarrow> bool" where
  "written st gs q = (\<exists>g<length st. fst (st ! g) \<le> 2 * q \<and> 2 * q < fst (gs ! g))"

definition par_inv ::
  "(nat \<Rightarrow> hash) \<Rightarrow> goroutines \<Rightarrow> hash list \<Rightarrow> goroutines \<times> hash list \<Rightarrow> bool" where
  "par_inv T st M s =
     (case s of (gs, M') \<Rightarrow>
        length gs = length st \<and>
        (\<forall>g<length st. snd (gs ! g) = snd (st ! g) \<and> fst (st ! g) \<le> fst (gs ! g) \<and>
           even (fst (gs ! g)) \<and> fst (gs ! g) \<le> Suc (snd (st ! g))) \<and>
        length M' = length M \<and>
        (\<forall>q<length M. M' ! q = (if written st gs q then T q else M ! q)))"

lemma par_inv_init:
  "\<forall>(s, e)\<in>set st. even s \<and> s < e \<Longrightarrow> par_inv T st M (st, M)"
  by (fastforce simp: par_inv_def written_def dest: nth_mem)

text \<open>The hypotheses of a level: the store has the right size, the places below \<open>lo\<close> are done, and
  the ranges cover the places \<open>p, ..., p + m - 1\<close>, which read nothing above \<open>lo\<close>.\<close>

definition level_ok ::
  "sha256 \<Rightarrow> node list \<Rightarrow> nat \<Rightarrow> nat \<Rightarrow> nat \<Rightarrow> nat \<Rightarrow> nat \<Rightarrow> hash list \<Rightarrow> goroutines \<Rightarrow> bool" where
  "level_ok sha nodes N lo p m to M st =
     (store_frame nodes N M \<and> agrees sha nodes N lo M \<and> lo \<le> length M \<and> reads_below N lo p m \<and>
      2 * p + 2 * m \<le> Suc to \<and> to \<le> 2 * p + 2 * m \<and> ranges_ok (2 * p) to st)"

text \<open>In a state of the invariant the round of any unfinished goroutine writes the value of the
  tree at its place.\<close>

lemma par_round:
  assumes ok: "level_ok sha nodes N lo p m to M st"
    and inv: "par_inv (tree_val sha nodes N) st M (gs, M')"
    and g: "g < length gs" "gs ! g = (i, j)" "i < j"
  obtains q where "i = 2 * q" "q < length M"
    "calcMerkles_round sha nodes i N (length nodes) M' = Ok (M'[q := tree_val sha nodes N q])"
proof -
  let ?T = "tree_val sha nodes N"
  from inv g have "even i" "fst (st ! g) \<le> i" and len: "length M' = length M" "length gs = length st"
    and j: "j = snd (st ! g)"
    and M': "\<forall>q<length M. M' ! q = (if written st gs q then ?T q else M ! q)"
    by (fastforce simp: par_inv_def)+
  then obtain q where q: "i = 2 * q" by (elim evenE)
  have "st ! g \<in> set st" using g(1) len by simp
  then have "2 * p \<le> fst (st ! g)" "snd (st ! g) \<le> to"
    using ok by (fastforce simp: level_ok_def ranges_ok_def)+
  then have pq: "p \<le> q" "q < p + m"
    using q j g(3) \<open>fst (st ! g) \<le> i\<close> ok by (auto simp: level_ok_def)
  then have place: "q + 1 < N" "2 * q < N \<or> 2 * q + 1 < N + lo"
    using reads_below_place [of N lo p m q] ok by (simp_all add: level_ok_def)
  have frame: "store_frame nodes N M'" using ok len by (simp add: level_ok_def store_frame_def)
  have "agrees sha nodes N lo M'"
    using ok M' by (auto simp: level_ok_def agree_def)
  then have "calcMerkles_round sha nodes (2 * q) N (length nodes) M' = Ok (M'[q := ?T q])"
    using frame place ok len by (intro calcMerkles_round_eq) (auto simp: level_ok_def)
  moreover have "q < length M" using frame place(1) len by (simp add: store_frame_def)
  ultimately show thesis using that q by simp
qed

lemma par_step_inv:
  assumes ok: "level_ok sha nodes N lo p m to M st"
    and inv: "par_inv (tree_val sha nodes N) st M s"
    and step: "par_step sha nodes N (length nodes) s t"
  shows "par_inv (tree_val sha nodes N) st M t"
proof -
  let ?T = "tree_val sha nodes N"
  obtain gs M' where s: "s = (gs, M')" by fastforce
  from step obtain g i j M'' where g: "g < length gs" "gs ! g = (i, j)" "i < j"
    and r: "calcMerkles_round sha nodes i N (length nodes) M' = Ok M''"
    and t: "t = (gs[g := (i + 2, j)], M'')"
    unfolding s by (auto elim: par_stepE)
  obtain q where q: "i = 2 * q" "q < length M" "M'' = M'[q := ?T q]"
    using par_round [OF ok inv [unfolded s] g] r by (metis outcome.inject(1))
  have gi: "g < length st" "fst (st ! g) \<le> i" "j = snd (st ! g)" and len: "length gs = length st"
    using inv g unfolding s par_inv_def by fastforce+
  define gs' where "gs' = gs[g := (i + 2, j)]"
  have gs': "length gs' = length gs" "gs' ! g = (i + 2, j)" "h \<noteq> g \<Longrightarrow> gs' ! h = gs ! h" for h
    using g(1) by (simp_all add: gs'_def)
  have w: "written st (gs') q' \<longleftrightarrow> written st gs q' \<or> q' = q" for q'
  proof
    assume "written st (gs') q'"
    then obtain h where h: "h < length st" "fst (st ! h) \<le> 2 * q'"
      "2 * q' < fst (gs' ! h)" by (auto simp: written_def)
    show "written st gs q' \<or> q' = q"
    proof (cases "h = g")
      case True
      then have "2 * q' < 2 * q + 2" using h(3) gs' q(1) by simp
      then show ?thesis using True h g(2) q(1) by (auto simp: written_def intro!: exI [of _ g])
    next
      case False
      then show ?thesis using h gs'(3) by (auto simp: written_def)
    qed
  next
    assume "written st gs q' \<or> q' = q"
    then show "written st (gs') q'"
    proof
      assume "written st gs q'"
      then obtain h where h: "h < length st" "fst (st ! h) \<le> 2 * q'" "2 * q' < fst (gs ! h)"
        by (auto simp: written_def)
      then show ?thesis
        using g(2) gs' by (cases "h = g") (auto simp: written_def intro!: exI [of _ h])
    next
      assume "q' = q"
      then show ?thesis
        using gi gs'(2) q(1) by (auto simp: written_def intro!: exI [of _ g])
    qed
  qed
  have "\<forall>q'<length M. M'' ! q' = (if written st (gs') q' then ?T q' else M ! q')"
    using inv q unfolding s by (auto simp: par_inv_def w nth_list_update)
  moreover have "\<forall>h<length st. snd (gs' ! h) = snd (st ! h) \<and>
      fst (st ! h) \<le> fst (gs' ! h) \<and> even (fst (gs' ! h)) \<and>
      fst (gs' ! h) \<le> Suc (snd (st ! h))"
  proof (intro allI impI)
    fix h
    assume "h < length st"
    then show "snd (gs' ! h) = snd (st ! h) \<and> fst (st ! h) \<le> fst (gs' ! h) \<and>
        even (fst (gs' ! h)) \<and> fst (gs' ! h) \<le> Suc (snd (st ! h))"
      using inv g(3) gi q(1) gs'(2) gs'(3) [of h] unfolding s
      by (cases "h = g") (auto simp: par_inv_def)
  qed
  ultimately show ?thesis
    using inv q(3) gs'(1) unfolding s t gs'_def [symmetric] by (simp add: par_inv_def)
qed

lemma par_steps_inv:
  assumes "level_ok sha nodes N lo p m to M st"
    and "(par_step sha nodes N (length nodes))\<^sup>*\<^sup>* (st, M) s"
  shows "par_inv (tree_val sha nodes N) st M s"
  using assms(2)
proof (induction rule: rtranclp_induct)
  case base
  show ?case using assms(1) by (intro par_inv_init) (fastforce simp: level_ok_def ranges_ok_def)
next
  case (step s t)
  show ?case using par_step_inv [OF assms(1) step.IH step.hyps(2)] .
qed

text \<open>When all goroutines have ended, every place of the level is written.\<close>

lemma par_done:
  assumes ok: "level_ok sha nodes N lo p m to M st"
    and inv: "par_inv (tree_val sha nodes N) st M (gs, M')" and fin: "all_done gs"
  shows "M' = fill_run (tree_val sha nodes N) p m M"
proof -
  have len: "length gs = length st" "length M' = length M" and pm: "p + m \<le> length M"
    using inv ok unfolding par_inv_def level_ok_def reads_below_def store_frame_def by auto
  have "written st gs q \<longleftrightarrow> p \<le> q \<and> q < p + m" if "q < length M" for q
  proof
    assume "written st gs q"
    then obtain g where g: "g < length st" "fst (st ! g) \<le> 2 * q" "2 * q < fst (gs ! g)"
      by (auto simp: written_def)
    then have "fst (gs ! g) \<le> Suc (snd (st ! g))" "even (fst (gs ! g))"
      using inv by (auto simp: par_inv_def)
    then obtain c where "fst (gs ! g) = 2 * c" by (elim evenE)
    moreover from this have "q < c" using g(3) by simp
    ultimately have "2 * q < snd (st ! g)" using \<open>fst (gs ! g) \<le> Suc (snd (st ! g))\<close> by linarith
    moreover have "st ! g \<in> set st" using g(1) by simp
    then have "2 * p \<le> fst (st ! g)" "snd (st ! g) \<le> to"
      using ok by (fastforce simp: level_ok_def ranges_ok_def)+
    ultimately show "p \<le> q \<and> q < p + m" using g(2) ok by (auto simp: level_ok_def)
  next
    assume "p \<le> q \<and> q < p + m"
    then have "2 * p \<le> 2 * q" "2 * q < to" using ok by (auto simp: level_ok_def)
    moreover have "ranges_ok (2 * p) to st" using ok by (simp add: level_ok_def)
    ultimately have "\<exists>(s, e)\<in>set st. s \<le> 2 * q \<and> 2 * q < e" by (simp add: ranges_ok_def)
    then obtain s e where "(s, e) \<in> set st" and se: "s \<le> 2 * q" "2 * q < e" by blast
    then obtain g where g: "g < length st" "st ! g = (s, e)" by (metis in_set_conv_nth)
    then have "snd (gs ! g) = e" using inv by (fastforce simp: par_inv_def)
    moreover have "gs ! g \<in> set gs" using g(1) len by simp
    then have "\<not> fst (gs ! g) < snd (gs ! g)" using fin by (auto simp: all_done_def)
    ultimately show "written st gs q" using g se by (auto simp: written_def intro!: exI [of _ g])
  qed
  then have "M' ! q = fill_run (tree_val sha nodes N) p m M ! q" if "q < length M" for q
    using that inv by (simp add: fill_run_nth [OF pm that] par_inv_def)
  then show ?thesis using len pm by (intro nth_equalityI) simp_all
qed

text \<open>The places a range writes, and the places of the array it reads.\<close>

definition range_writes :: "nat \<times> nat \<Rightarrow> nat set" where
  "range_writes c = {q. fst c \<le> 2 * q \<and> 2 * q < snd c}"

definition range_reads :: "nat \<Rightarrow> nat \<times> nat \<Rightarrow> nat set" where
  "range_reads N c = (\<Union>q\<in>range_writes c \<inter> {q. N \<le> 2 * q}. {2 * q - N, 2 * q - N + 1})"

section \<open>Levels of a store\<close>

text \<open>
  The level \<open>h\<close> of the store of \<open>nodes\<close>: the loop of \<open>BuildMerkleTreeStoreFromBytes\<close> starts it
  at \<open>merkleFrom\<close> with every place of the earlier levels filled.
\<close>

definition level_from :: "node list \<Rightarrow> nat \<Rightarrow> nat" where
  "level_from nodes h = 2 * (2 ^ clog2 (length nodes) - 2 ^ (clog2 (length nodes) - h))"

definition level_to :: "node list \<Rightarrow> nat \<Rightarrow> nat" where
  "level_to nodes h = level_from nodes h + 2 ^ (clog2 (length nodes) - h) - 1"

definition level_ready :: "sha256 \<Rightarrow> node list \<Rightarrow> nat \<Rightarrow> hash list \<Rightarrow> bool" where
  "level_ready sha nodes h M =
     (h < clog2 (length nodes) \<and> length M = 2 ^ clog2 (length nodes) - 1 \<and>
      (\<forall>q < level_from nodes h div 2. M ! q = tree_val sha nodes (2 ^ clog2 (length nodes)) q))"

lemma level_ready_ok:
  assumes "level_ready sha nodes h M" and "even sz" and "0 < sz"
  defines "k \<equiv> clog2 (length nodes)" and "p \<equiv> level_from nodes h div 2"
  shows "level_ok sha nodes (2 ^ k) p p (2 ^ (k - Suc h)) (level_to nodes h) M
      (chunks sz (level_from nodes h) (level_to nodes h))"
    and "level_from nodes h = 2 * p"
proof -
  define x :: nat where "x = 2 ^ (k - Suc h)"
  define N :: nat where "N = 2 ^ k"
  have h: "h < k" using assms(1) by (simp add: level_ready_def k_def)
  then have x2: "2 ^ (k - h) = 2 * x" by (simp add: x_def flip: power_Suc Suc_diff_Suc)
  have "2 ^ (k - h) \<le> N" unfolding N_def by (rule power_increasing) simp_all
  then obtain y where N: "N = 2 * x + y" unfolding x2 by (auto dest: le_Suc_ex)
  have x: "0 < x" by (simp add: x_def)
  have frm: "level_from nodes h = 2 * y"
    unfolding level_from_def using N by (simp add: x2 flip: k_def N_def)
  then have p: "p = y" by (simp add: p_def)
  have to: "level_to nodes h = 2 * y + 2 * x - 1"
    unfolding level_to_def frm by (simp add: x2 flip: k_def)
  have "even N" using h by (simp add: N_def)
  moreover have "length nodes \<le> N" using clog2_upper by (simp add: N_def k_def)
  moreover have "length M = N - 1" and "\<forall>q<y. M ! q = tree_val sha nodes N q"
    using assms(1) p frm by (simp_all add: level_ready_def N_def k_def)
  ultimately have "level_ok sha nodes N y y x (level_to nodes h) M
      (chunks sz (level_from nodes h) (level_to nodes h))"
    using N x to frm chunks_ranges_ok [OF assms(2,3), of "2 * y" "level_to nodes h"]
    by (auto simp: level_ok_def store_frame_def agree_def reads_below_def)
  then show "level_ok sha nodes (2 ^ k) p p (2 ^ (k - Suc h)) (level_to nodes h) M
      (chunks sz (level_from nodes h) (level_to nodes h))"
    by (simp add: p N_def x_def)
  show "level_from nodes h = 2 * p" by (simp add: p frm)
qed

lemma par_complete:
  assumes "level_ready sha nodes h M" and "even sz" and "0 < sz"
    and "(par_step sha nodes (2 ^ clog2 (length nodes)) (length nodes))\<^sup>*\<^sup>*
      (chunks sz (level_from nodes h) (level_to nodes h), M) (gs, M')"
    and "all_done gs"
  shows "calcMerkles sha nodes (level_from nodes h) (level_to nodes h)
    (2 ^ clog2 (length nodes)) (length nodes) M = Ok M'"
proof -
  note ok = level_ready_ok [OF assms(1-3)]
  have "M' = fill_run (tree_val sha nodes (2 ^ clog2 (length nodes))) (level_from nodes h div 2)
      (2 ^ (clog2 (length nodes) - Suc h)) M"
    using par_done [OF ok(1) par_steps_inv [OF ok(1) assms(4)] assms(5)] .
  with ok show ?thesis
    by (metis (no_types, lifting) calcMerkles_run level_ok_def)
qed

section \<open>The whole store under any scheduler\<close>

text \<open>
  \<open>BuildMerkleTreeStoreFromBytes\<close> from its loop on, as a relation: a level of at most 1024 places
  is computed by the calling goroutine, a larger one by any complete run of its goroutines.
\<close>

inductive sched_build :: "sha256 \<Rightarrow> node list \<Rightarrow> nat \<Rightarrow> nat \<Rightarrow> hash list \<Rightarrow> hash list \<Rightarrow> bool"
  for sha nodes where
  finished: "clog2 (length nodes) < h \<Longrightarrow> sched_build sha nodes h merkleFrom merkles merkles"
| sequential: "h \<le> clog2 (length nodes) \<Longrightarrow>
    merkleTo = merkleFrom + 2 ^ (clog2 (length nodes) - h) - 1 \<Longrightarrow>
    \<not> merkleTo - merkleFrom > routineSplitSize \<Longrightarrow>
    calcMerkles sha nodes merkleFrom merkleTo (2 ^ clog2 (length nodes)) (length nodes) merkles =
      Ok merkles' \<Longrightarrow>
    sched_build sha nodes (h + 1) (merkleTo + 1) merkles' store \<Longrightarrow>
    sched_build sha nodes h merkleFrom merkles store"
| parallel: "h \<le> clog2 (length nodes) \<Longrightarrow>
    merkleTo = merkleFrom + 2 ^ (clog2 (length nodes) - h) - 1 \<Longrightarrow>
    merkleTo - merkleFrom > routineSplitSize \<Longrightarrow>
    (par_step sha nodes (2 ^ clog2 (length nodes)) (length nodes))\<^sup>*\<^sup>*
      (chunks routineSplitSize merkleFrom merkleTo, merkles) (gs, merkles') \<Longrightarrow>
    all_done gs \<Longrightarrow>
    sched_build sha nodes (h + 1) (merkleTo + 1) merkles' store \<Longrightarrow>
    sched_build sha nodes h merkleFrom merkles store"

text \<open>Filling the next level of a store whose earlier levels are filled.\<close>

lemma level_ready_next:
  assumes "level_ready sha nodes h M"
    and "calcMerkles sha nodes (level_from nodes h) (level_to nodes h) (2 ^ clog2 (length nodes))
      (length nodes) M = Ok M'"
  shows "length M' = length M \<and> (\<forall>q < level_from nodes (Suc h) div 2. 
      M' ! q = tree_val sha nodes (2 ^ clog2 (length nodes)) q) \<and>
    level_from nodes (Suc h) = level_to nodes h + 1"
proof -
  define k where "k = clog2 (length nodes)"
  define x :: nat where "x = 2 ^ (k - Suc h)"
  define N :: nat where "N = 2 ^ k"
  define p where "p = level_from nodes h div 2"
  have h: "h < k" using assms(1) by (simp add: level_ready_def k_def)
  then have x2: "2 ^ (k - h) = 2 * x" by (simp add: x_def flip: power_Suc Suc_diff_Suc)
  have "2 ^ (k - h) \<le> N" unfolding N_def by (rule power_increasing) simp_all
  then have Nx: "2 * x \<le> N" by (simp add: x2)
  have x: "0 < x" by (simp add: x_def)
  have frm: "level_from nodes h = 2 * p" "p = N - 2 * x"
    unfolding p_def level_from_def by (simp_all add: x2 flip: k_def N_def)
  have to: "level_to nodes h = 2 * p + 2 * x - 1"
    unfolding level_to_def frm by (simp add: x2 flip: k_def)
  have frm': "level_from nodes (Suc h) = 2 * (N - x)"
    unfolding level_from_def by (simp flip: k_def N_def x_def)
  note ok = level_ready_ok [OF assms(1), of 2, folded k_def, folded N_def x_def p_def, simplified]
  have "M' = fill_run (tree_val sha nodes N) p x M"
    using calcMerkles_run [of nodes N M sha p p x "level_to nodes h"] ok(1) assms(2) frm(1)
    by (simp add: level_ok_def flip: k_def N_def)
  moreover have "length M = N - 1" "\<forall>q<p. M ! q = tree_val sha nodes N q"
    using assms(1) frm(1) by (simp_all add: level_ready_def flip: k_def N_def)
  ultimately show ?thesis
    unfolding frm' to using Nx x frm(2)
    by (simp add: fill_run_nth flip: k_def N_def)
qed

inductive_cases sched_buildE: "sched_build sha nodes h merkleFrom merkles store"

lemma sched_build_end: "sched_build sha nodes h f M store \<Longrightarrow> clog2 (length nodes) < h \<Longrightarrow> store = M"
  by (erule sched_buildE) simp_all

lemma sched_build_store:
  "sched_build sha nodes h merkleFrom M store \<Longrightarrow> merkleFrom = level_from nodes h \<Longrightarrow>
    h \<le> clog2 (length nodes) \<Longrightarrow> length M = 2 ^ clog2 (length nodes) - 1 \<Longrightarrow>
    (\<forall>q < level_from nodes h div 2. M ! q = tree_val sha nodes (2 ^ clog2 (length nodes)) q) \<Longrightarrow>
    store = map (tree_val sha nodes (2 ^ clog2 (length nodes))) [0..<2 ^ clog2 (length nodes) - 1]"
proof (induction rule: sched_build.induct)
  case (finished h merkleFrom merkles)
  then show ?case by simp
next
  case (sequential h merkleTo merkleFrom merkles merkles' store)
  have to: "merkleTo = level_to nodes h" using sequential by (simp add: level_to_def)
  show ?case
  proof (cases "h = clog2 (length nodes)")
    case True
    then have "merkles' = merkles" using sequential.hyps by (simp add: calcMerkles.simps)
    moreover have "store = merkles'" using True sequential.hyps(5) by (intro sched_build_end) auto
    ultimately show ?thesis
      using sequential.prems True by (intro nth_equalityI) (simp_all add: level_from_def)
  next
    case False
    then have "level_ready sha nodes h merkles" using sequential by (simp add: level_ready_def)
    from level_ready_next [OF this] sequential False show ?thesis by (simp add: to)
  qed
next
  case (parallel h merkleTo merkleFrom merkles gs merkles' store)
  have to: "merkleTo = level_to nodes h" using parallel by (simp add: level_to_def)
  have "h \<noteq> clog2 (length nodes)" using parallel.hyps(2,3) by auto
  then have ready: "level_ready sha nodes h merkles" using parallel by (simp add: level_ready_def)
  have "calcMerkles sha nodes (level_from nodes h) (level_to nodes h) (2 ^ clog2 (length nodes))
      (length nodes) merkles = Ok merkles'"
    using parallel.hyps(4,5) parallel.prems(1) to
    by (intro par_complete [OF ready, of routineSplitSize gs]) (simp_all add: routineSplitSize_def)
  from level_ready_next [OF ready this] parallel \<open>h \<noteq> _\<close> show ?case by (simp add: to)
qed

section \<open>Properties\<close>

text \<open>Two goroutines of one pair each over the first level of three leaves; the second one moves
  first.\<close>

lemma calcMerkle_mix:
  "calcMerkle mix_sha a b = (if a = 0 then 0 else if b = 0 then 2 + a + 3 * a else 2 + a + 3 * b)"
  using calc_merkle.combine_both [of a b mix_sha] calc_merkle.combine_left [of a mix_sha]
    calc_merkle.combine_none [of mix_sha b]
  by (auto simp: hash_pair_mix)

lemma example_level_ready: "level_ready mix_sha example_nodes 0 [0, 0, 0]"
  by (simp add: level_ready_def level_from_def)

lemma example_level_bounds: "level_from example_nodes 0 = 0" "level_to example_nodes 0 = 3"
  by (simp_all add: level_to_def level_from_def)

lemma example_chunks: "chunks 2 0 3 = [(0, 2), (2, 3)]"
  by (simp add: chunks.simps)

lemmas example_simps = calcMerkles_round_def getMerklePair_def getNodeHashAt_def index_get_def
  index_set_def example_nodes_def leaf_def calcMerkle_mix

lemma example_round_second:
  "calcMerkles_round mix_sha example_nodes 2 4 3 [0, 0, 0] = Ok [0, 14, 0]"
  by (simp add: example_simps)

lemma example_round_first:
  "calcMerkles_round mix_sha example_nodes 0 4 3 [0, 14, 0] = Ok [9, 14, 0]"
  by (simp add: example_simps)

lemma example_step_second:
  "par_step mix_sha example_nodes 4 3 ([(0, 2), (2, 3)], [0, 0, 0]) ([(0, 2), (4, 3)], [0, 14, 0])"
  using par_step.round [of 1 "[(0, 2), (2, 3)]" 2 3, OF _ _ _ example_round_second] by simp

lemma example_step_first:
  "par_step mix_sha example_nodes 4 3 ([(0, 2), (4, 3)], [0, 14, 0]) ([(2, 2), (4, 3)], [9, 14, 0])"
  using par_step.round [of 0 "[(0, 2), (4, 3)]" 0 2, OF _ _ _ example_round_first]
  by (simp add: numeral_2_eq_2)

text \<open>C4: However the goroutines of the large levels are scheduled, the store that
  \<open>BuildMerkleTreeStoreFromBytes\<close> ends up with is one and the same: the one it computes when the
  goroutines run one after the other.\<close>

theorem any_schedule_builds_same_store:
  assumes "2 \<le> length nodes" and "allocatable nodes"
    and "sched_build sha nodes 0 0 (replicate (2 ^ clog2 (length nodes) - 1) 0) store"
  shows "BuildMerkleTreeStoreFromBytes sha nodes = Ok store"
  using sched_build_store [OF assms(3)] BuildMerkleTreeStoreFromBytes_eq [OF assms(1,2), of sha]
  by (simp add: level_from_def)

lemma example_round_top:
  "calcMerkles_round mix_sha example_nodes 4 4 3 [9, 14, 0] = Ok [9, 14, 53]"
  by (simp add: example_simps)

lemma example_round_bottom:
  "calcMerkles mix_sha example_nodes 0 3 4 3 [0, 0, 0] = Ok [9, 14, 0]"
proof -
  have "calcMerkles_round mix_sha example_nodes 0 4 3 [0, 0, 0] = Ok [9, 0, 0]"
    and "calcMerkles_round mix_sha example_nodes 2 4 3 [9, 0, 0] = Ok [9, 14, 0]"
    by (simp_all add: example_simps)
  then show ?thesis
    by (simp add: calcMerkles.simps [of _ _ 0] calcMerkles.simps [of _ _ 2] calcMerkles.simps [of _ _ 4]
        flip: numeral_2_eq_2)
qed

lemma example_store_0: "replicate (2 ^ clog2 (length example_nodes) - 1) 0 = [0, 0, 0]"
proof -
  have "2 ^ clog2 (length example_nodes) - 1 = (3::nat)" by simp
  then show ?thesis by (simp only:) (simp add: numeral_3_eq_3)
qed

theorem any_schedule_builds_same_store_witness:
  "BuildMerkleTreeStoreFromBytes mix_sha example_nodes = Ok [9, 14, 53]"
proof (rule any_schedule_builds_same_store)
  have "sched_build mix_sha example_nodes 2 6 [9, 14, 53] [9, 14, 53]"
    using sched_build.sequential [of 2 example_nodes 6 6 mix_sha "[9, 14, 53]" "[9, 14, 53]"]
      sched_build.finished [of example_nodes 3]
    by (simp add: routineSplitSize_def calcMerkles.simps)
  then have "sched_build mix_sha example_nodes 1 4 [9, 14, 0] [9, 14, 53]"
    using sched_build.sequential [of 1 example_nodes 5 4 mix_sha "[9, 14, 0]" "[9, 14, 53]"]
    by (simp add: routineSplitSize_def calcMerkles.simps example_round_top flip: numeral_2_eq_2)
  then have top: "sched_build mix_sha example_nodes (0 + 1) (3 + 1) [9, 14, 0] [9, 14, 53]"
    by simp
  have "sched_build mix_sha example_nodes 0 0 [0, 0, 0] [9, 14, 53]"
    by (rule sched_build.sequential [OF _ _ _ _ top])
      (simp_all add: routineSplitSize_def example_round_bottom del: calcMerkles.simps)
  then show "sched_build mix_sha example_nodes 0 0
      (replicate (2 ^ clog2 (length example_nodes) - 1) 0) [9, 14, 53]"
    by (simp only: example_store_0)
qed simp_all

text \<open>Whatever the scheduler does, when all goroutines of a level have ended the shared array is
  the one that a single sequential \<open>calcMerkles\<close> over the level leaves (for any even size of the
  ranges; the code's is 1024).\<close>

theorem parallel_level_deterministic:
  assumes "level_ready sha nodes h M" and "even sz" and "0 < sz"
    and "(par_step sha nodes (2 ^ clog2 (length nodes)) (length nodes))\<^sup>*\<^sup>*
      (chunks sz (level_from nodes h) (level_to nodes h), M) (gs, M')"
    and "all_done gs"
  shows "calcMerkles sha nodes (level_from nodes h) (level_to nodes h)
    (2 ^ clog2 (length nodes)) (length nodes) M = Ok M'"
  using assms by (rule par_complete)

theorem parallel_level_deterministic_witness:
  "calcMerkles mix_sha example_nodes 0 3 4 3 [0, 0, 0] = Ok [9, 14, 0]"
proof -
  have "(par_step mix_sha example_nodes 4 3)\<^sup>*\<^sup>*
      ([(0, 2), (2, 3)], [0, 0, 0]) ([(2, 2), (4, 3)], [9, 14, 0])"
    using example_step_second example_step_first by (meson converse_rtranclp_into_rtranclp rtranclp.rtrancl_refl)
  then show ?thesis
    using parallel_level_deterministic [OF example_level_ready, of 2 "[(2, 2), (4, 3)]" "[9, 14, 0]"]
    by (simp add: example_level_bounds example_chunks all_done_def)
qed

text \<open>C18: No goroutine of a level can panic or fail: in every reachable state the round of every
  goroutine that has not ended succeeds, so the level also cannot get stuck.\<close>

theorem parallel_level_progress:
  assumes "level_ready sha nodes h M" and "even sz" and "0 < sz"
    and "(par_step sha nodes (2 ^ clog2 (length nodes)) (length nodes))\<^sup>*\<^sup>*
      (chunks sz (level_from nodes h) (level_to nodes h), M) (gs, M')"
    and "g < length gs" and "gs ! g = (i, j)" and "i < j"
  shows "\<exists>M''. calcMerkles_round sha nodes i (2 ^ clog2 (length nodes)) (length nodes) M' = Ok M'' \<and>
    par_step sha nodes (2 ^ clog2 (length nodes)) (length nodes) (gs, M') (gs[g := (i + 2, j)], M'')"
proof -
  note ok = level_ready_ok [OF assms(1-3)]
  obtain q where "calcMerkles_round sha nodes i (2 ^ clog2 (length nodes)) (length nodes) M' =
      Ok (M'[q := tree_val sha nodes (2 ^ clog2 (length nodes)) q])"
    using par_round [OF ok(1) par_steps_inv [OF ok(1) assms(4)] assms(5-7)] by blast
  then show ?thesis using par_step.round [OF assms(5-7)] by blast
qed

theorem parallel_level_progress_witness:
  "\<exists>M''. calcMerkles_round mix_sha example_nodes 2 4 3 [0, 0, 0] = Ok M'' \<and>
    par_step mix_sha example_nodes 4 3 ([(0, 2), (2, 3)], [0, 0, 0]) ([(0, 2), (4, 3)], M'')"
  using parallel_level_progress [OF example_level_ready, of 2 "[(0, 2), (2, 3)]" "[0, 0, 0]" 1 2 3]
  by (simp add: example_level_bounds example_chunks)

text \<open>A level is free of data races: two different goroutines write different places, and none
  reads a place that a goroutine of the same level writes.\<close>

theorem parallel_level_race_free:
  assumes "level_ready sha nodes h M" and "even sz" and "0 < sz"
    and "c = chunks sz (level_from nodes h) (level_to nodes h)"
    and "a < length c" and "b < length c"
  shows "(a \<noteq> b \<longrightarrow> range_writes (c ! a) \<inter> range_writes (c ! b) = {}) \<and>
    range_reads (2 ^ clog2 (length nodes)) (c ! a) \<inter> range_writes (c ! b) = {}"
proof -
  let ?p = "level_from nodes h div 2" and ?k = "clog2 (length nodes)"
  note ok = level_ready_ok [OF assms(1-3)]
  have "range_writes (c ! a) \<inter> range_writes (c ! b) = {}" if "a \<noteq> b"
    using chunks_disjoint [of a b sz "level_from nodes h" "level_to nodes h"]
      chunks_disjoint [of b a sz "level_from nodes h" "level_to nodes h"] that assms(4-6)
    by (fastforce simp: range_writes_def)
  moreover have rng: "2 * ?p \<le> fst (c ! x)" "snd (c ! x) \<le> level_to nodes h" if "x < length c" for x
    using ok(1) assms(4) nth_mem [OF that] by (fastforce simp: level_ok_def ranges_ok_def)+
  have "2 * q - 2 ^ ?k + 1 < ?p" if "q \<in> range_writes (c ! a)" "2 ^ ?k \<le> 2 * q" for q
  proof -
    have "?p \<le> q \<and> q < ?p + 2 ^ (?k - Suc h)"
      using that(1) rng [OF assms(5)] ok(1) by (auto simp: range_writes_def level_ok_def)
    then have "2 * q + 1 < 2 ^ ?k + ?p"
      using reads_below_place [of "2 ^ ?k" ?p ?p "2 ^ (?k - Suc h)" q] ok(1) that(2)
      by (auto simp: level_ok_def)
    then show ?thesis using that(2) by linarith
  qed
  then have "x < ?p" if "x \<in> range_reads (2 ^ ?k) (c ! a)" for x
    using that by (fastforce simp: range_reads_def)
  moreover have "?p \<le> x" if "x \<in> range_writes (c ! b)" for x
    using that rng(1) [OF assms(6)] by (auto simp: range_writes_def)
  ultimately show ?thesis by fastforce
qed

theorem parallel_level_race_free_witness:
  "range_writes (0, 2) \<inter> range_writes (2, 3) = {} \<and>
    range_reads 4 (0, 2) \<inter> range_writes (2, 3) = {}"
  using parallel_level_race_free [OF example_level_ready, of 2 "[(0, 2), (2, 3)]" 0 1]
  by (simp add: example_level_bounds example_chunks)

end
