(* ===== verification/Mmap_Store.thy ===== *)
theory Mmap_Store
  imports Merkle_Tree
begin

text \<open>
  \<open>mmap_store.go\<close> with \<open>mmap_unix.go\<close>: node arrays in a mapping of a temporary file.

  The operating system is a state of what the program holds of it (files, open descriptors,
  mappings) and a record of the answers it may give to the calls of the code, so that every
  failure of every call is covered, \<open>os.Remove\<close> included, whose error the code ignores.  Closing a
  file gives its descriptor back even when it reports an error.  A mapping is known by its address;
  the bytes in it are the elements of the node slice and are not modelled a second time.
\<close>

section \<open>The operating system\<close>

record os_state =
  temp_files :: "string set"
  open_files :: "string set"
  mappings :: "nat set"

record os_answers =
  answer_create :: "os_state \<Rightarrow> string \<Rightarrow> go_error + string"
  answer_truncate :: "os_state \<Rightarrow> int \<Rightarrow> go_error option"
  answer_mmap :: "os_state \<Rightarrow> int \<Rightarrow> go_error + nat"
  answer_munmap :: "nat \<Rightarrow> go_error option"
  answer_remove :: "string \<Rightarrow> go_error option"

text \<open>What the system documents: a temporary file and a mapping are new, a file has a name, it cannot
  be given a negative size and a mapping cannot have a length that is not positive.\<close>

definition os_documented :: "os_answers \<Rightarrow> bool" where
  "os_documented os =
     ((\<forall>w dir f. answer_create os w dir = Inr f \<longrightarrow>
          f \<notin> temp_files w \<union> open_files w \<and> f \<noteq> '''') \<and>
      (\<forall>w n. n < 0 \<longrightarrow> answer_truncate os w n \<noteq> None) \<and>
      (\<forall>w n a. answer_mmap os w n = Inr a \<longrightarrow> 0 < n \<and> a \<notin> mappings w))"

definition os_CreateTemp ::
  "os_answers \<Rightarrow> string \<Rightarrow> os_state \<Rightarrow> os_state \<times> string outcome" where
  "os_CreateTemp os dir w =
     (case answer_create os w dir of
        Inl e \<Rightarrow> (w, Fail e)
      | Inr f \<Rightarrow> (w\<lparr>temp_files := insert f (temp_files w), open_files := insert f (open_files w)\<rparr>, Ok f))"

definition file_Truncate :: "os_answers \<Rightarrow> int \<Rightarrow> os_state \<Rightarrow> unit outcome" where
  "file_Truncate os n w = (case answer_truncate os w n of None \<Rightarrow> Ok () | Some e \<Rightarrow> Fail e)"

definition file_Close :: "string \<Rightarrow> os_state \<Rightarrow> os_state" where
  "file_Close f w = w\<lparr>open_files := open_files w - {f}\<rparr>"

text \<open>\<open>_ = os.Remove(path)\<close>: when it fails, the file stays.\<close>

definition os_Remove :: "os_answers \<Rightarrow> string \<Rightarrow> os_state \<Rightarrow> os_state" where
  "os_Remove os f w =
     (case answer_remove os f of
        None \<Rightarrow> w\<lparr>temp_files := temp_files w - {f}\<rparr>
      | Some e \<Rightarrow> w)"

text \<open>\<open>mmapFile\<close> and \<open>munmap\<close>: the shared mapping of a whole file, and its release.\<close>

definition mmapFile :: "os_answers \<Rightarrow> int \<Rightarrow> os_state \<Rightarrow> os_state \<times> nat outcome" where
  "mmapFile os bytes w =
     (case answer_mmap os w bytes of
        Inl e \<Rightarrow> (w, Fail e)
      | Inr a \<Rightarrow> (w\<lparr>mappings := insert a (mappings w)\<rparr>, Ok a))"

definition munmap :: "os_answers \<Rightarrow> nat \<Rightarrow> os_state \<Rightarrow> os_state \<times> unit outcome" where
  "munmap os a w =
     (case answer_munmap os a of
        None \<Rightarrow> (w\<lparr>mappings := mappings w - {a}\<rparr>, Ok ())
      | Some e \<Rightarrow> (w, Fail e))"

section \<open>The store\<close>

record mmapNodeStore =
  data :: "nat option"
  filePath :: string
  once :: bool

definition nodeSize :: int where
  "nodeSize = 48"

text \<open>\<open>Close\<close>: the body runs under \<open>sync.Once\<close>.\<close>

definition store_Close ::
  "os_answers \<Rightarrow> mmapNodeStore \<Rightarrow> os_state \<Rightarrow> os_state \<times> mmapNodeStore \<times> unit outcome" where
  "store_Close os m w =
     (if once m then (w, m, Ok ())
      else
        (let (w1, err) =
           (case data m of
              None \<Rightarrow> (w, Ok ())
            | Some a \<Rightarrow> (let (w', r) = munmap os a w in (w', wrapping ''munmap failed: %w'' r)));
             w2 = (if filePath m \<noteq> '''' then os_Remove os (filePath m) w1 else w1)
         in (w2, m\<lparr>data := None, once := True\<rparr>, err)))"

text \<open>\<open>unsafe.Slice(ptr, n)[:0:n]\<close> of nodes: it panics when the \<open>n\<close> nodes do not fit into the
  address space.  The memory of a mapping is zero at first.\<close>

definition unsafe_node_slice :: "int \<Rightarrow> node slice outcome" where
  "unsafe_node_slice n =
     (if 2 ^ 64 \<le> n * nodeSize then Panic UnsafeSliceLenOutOfRange
      else Ok (Slice [] (replicate (nat n) zero_node)))"

definition newFileBackedMmapNodes ::
  "os_answers \<Rightarrow> int \<Rightarrow> string \<Rightarrow> os_state \<Rightarrow> os_state \<times> (node slice \<times> mmapNodeStore) outcome" where
  "newFileBackedMmapNodes os capacity dir w =
     (if capacity \<le> 0 then (w, Fail (Wrap ''%w: got %d'' [ErrCapacityNotPositive]))
      else
        (let bytes = wrap64 (capacity * nodeSize) in
         case os_CreateTemp os dir w of
           (w1, Fail e) \<Rightarrow> (w1, Fail (Wrap ''failed to create temp file: %w'' [e]))
         | (w1, Panic p) \<Rightarrow> (w1, Panic p)
         | (w1, Ok path) \<Rightarrow>
            (case file_Truncate os bytes w1 of
               Fail e \<Rightarrow> (os_Remove os path (file_Close path w1),
                          Fail (Wrap ''failed to truncate file to %d bytes: %w'' [e]))
             | Panic p \<Rightarrow> (w1, Panic p)
             | Ok _ \<Rightarrow>
                (case mmapFile os bytes w1 of
                   (w2, Fail e) \<Rightarrow> (os_Remove os path (file_Close path w2),
                                    Fail (Wrap ''mmap failed: %w'' [e]))
                 | (w2, Panic p) \<Rightarrow> (w2, Panic p)
                 | (w2, Ok a) \<Rightarrow>
                    (let w3 = file_Close path w2 in
                     case unsafe_node_slice capacity of
                       Ok nodes \<Rightarrow>
                         (w3, Ok (nodes, \<lparr>data = Some a, filePath = path, once = False\<rparr>))
                     | Fail e \<Rightarrow> (w3, Fail e)
                     | Panic p \<Rightarrow> (w3, Panic p))))))"

text \<open>A store holds its file and its mapping, and no descriptor.\<close>

definition holds :: "mmapNodeStore \<Rightarrow> os_state \<Rightarrow> os_state \<Rightarrow> bool" where
  "holds m w w' =
     (\<exists>a. data m = Some a \<and> \<not> once m \<and> a \<notin> mappings w \<and> mappings w' = insert a (mappings w) \<and>
       filePath m \<notin> temp_files w \<and> temp_files w' = insert (filePath m) (temp_files w) \<and>
       open_files w' = open_files w \<and> filePath m \<noteq> '''')"

lemmas mmap_defs = newFileBackedMmapNodes_def os_CreateTemp_def file_Truncate_def mmapFile_def
  file_Close_def os_Remove_def unsafe_node_slice_def

lemma fresh_file:
  "os_documented os \<Longrightarrow> answer_create os w dir = Inr f \<Longrightarrow>
    f \<notin> temp_files w \<and> f \<notin> open_files w \<and> f \<noteq> ''''"
  by (simp add: os_documented_def)

lemma fresh_mapping: "os_documented os \<Longrightarrow> answer_mmap os w n = Inr a \<Longrightarrow> 0 < n \<and> a \<notin> mappings w"
  by (simp add: os_documented_def)

text \<open>What is left of a store after its release: what the system refused to take back.\<close>

definition leftover :: "os_answers \<Rightarrow> mmapNodeStore \<Rightarrow> os_state \<Rightarrow> os_state" where
  "leftover os m w = w\<lparr>
     mappings := (case answer_munmap os (the (data m)) of
                    None \<Rightarrow> mappings w | Some e \<Rightarrow> insert (the (data m)) (mappings w)),
     temp_files := (case answer_remove os (filePath m) of
                      None \<Rightarrow> temp_files w | Some e \<Rightarrow> insert (filePath m) (temp_files w))\<rparr>"

definition only_file_left :: "os_answers \<Rightarrow> os_state \<Rightarrow> os_state \<Rightarrow> bool" where
  "only_file_left os w w' =
     (w' = w \<or> (\<exists>f. f \<notin> temp_files w \<and> answer_remove os f \<noteq> None \<and>
        w' = w\<lparr>temp_files := insert f (temp_files w)\<rparr>))"

lemma leftover_nothing:
  "answer_munmap os (the (data m)) = None \<Longrightarrow> answer_remove os (filePath m) = None \<Longrightarrow> leftover os m w = w"
  by (simp add: leftover_def)

lemma only_file_left_refl [simp]: "only_file_left os w w"
  by (simp add: only_file_left_def)

lemma discarded_file:
  assumes "f \<notin> temp_files w" and "f \<notin> open_files w"
  shows "only_file_left os w (os_Remove os f (file_Close f
    (w\<lparr>temp_files := insert f (temp_files w), open_files := insert f (open_files w)\<rparr>)))"
  using assms by (auto simp: only_file_left_def os_Remove_def file_Close_def split: option.split)

lemma newFileBackedMmapNodes_Fail:
  assumes "os_documented os" and "newFileBackedMmapNodes os capacity dir w = (w', Fail e)"
  shows "only_file_left os w w'"
proof (cases "answer_create os w dir")
  case (Inl e)
  then show ?thesis
    using assms(2) by (simp add: newFileBackedMmapNodes_def os_CreateTemp_def only_file_left_def Let_def split: if_splits)
next
  case (Inr f)
  from fresh_file [OF assms(1) Inr] have "f \<notin> temp_files w" "f \<notin> open_files w" by simp_all
  then show ?thesis
    using assms(2) Inr discarded_file [of f w os]
    by (auto simp: newFileBackedMmapNodes_def os_CreateTemp_def file_Truncate_def mmapFile_def
        unsafe_node_slice_def Let_def
        split: if_splits sum.splits option.splits)
qed

text \<open>Everything was given back but for what the system refused to take.\<close>

definition given_back :: "os_answers \<Rightarrow> os_state \<Rightarrow> os_state \<Rightarrow> bool" where
  "given_back os w w' =
     (open_files w' = open_files w \<and>
      (mappings w' = mappings w \<or> (\<exists>a. answer_munmap os a \<noteq> None \<and> mappings w' = insert a (mappings w))) \<and>
      (temp_files w' = temp_files w \<or>
         (\<exists>f. answer_remove os f \<noteq> None \<and> temp_files w' = insert f (temp_files w))))"

lemma given_back_leftover: "given_back os w (leftover os m w)"
  by (auto simp: given_back_def leftover_def split: option.split)

lemma given_back_only_file: "only_file_left os w w' \<Longrightarrow> given_back os w w'"
  by (auto simp: given_back_def only_file_left_def)

lemma given_back_all:
  "given_back os w w' \<Longrightarrow> \<forall>a. answer_munmap os a = None \<Longrightarrow> \<forall>f. answer_remove os f = None \<Longrightarrow> w' = w"
  by (simp add: given_back_def)

lemma newFileBackedMmapNodes_Ok:
  assumes "os_documented os" and "newFileBackedMmapNodes os capacity dir w = (w', Ok (nodes, m))"
  shows "holds m w w' \<and> nodes = Slice [] (replicate (nat capacity) zero_node) \<and> 0 < capacity"
  using assms(2)
  by (auto simp: mmap_defs holds_def Let_def
      dest!: fresh_file [OF assms(1)] fresh_mapping [OF assms(1)]
      split: if_splits sum.splits option.splits)

lemma newFileBackedMmapNodes_Panic:
  assumes "os_documented os" and "newFileBackedMmapNodes os capacity dir w = (w', Panic p)"
  shows "2 ^ 64 \<le> capacity * nodeSize \<and>
    temp_files w \<subset> temp_files w' \<and> mappings w \<subset> mappings w'"
  using assms(2)
  by (auto simp: mmap_defs Let_def
      dest!: fresh_file [OF assms(1)] fresh_mapping [OF assms(1)]
      split: if_splits sum.splits option.splits)

lemma store_Close_holds:
  assumes "holds m w w'"
  shows "store_Close os m w' = (leftover os m w, m\<lparr>data := None, once := True\<rparr>,
    case answer_munmap os (the (data m)) of None \<Rightarrow> Ok () | Some e \<Rightarrow> Fail (Wrap ''munmap failed: %w'' [e]))"
  using assms
  by (auto simp: holds_def store_Close_def munmap_def os_Remove_def leftover_def split: option.split)

lemma store_Close_once: "store_Close os m w = (w', m', r) \<Longrightarrow> store_Close os m' w'' = (w'', m', Ok ())"
  by (auto simp: store_Close_def split: if_splits prod.splits)

text \<open>On Windows (\<open>mmap_windows.go\<close>) \<open>mmapFile\<close> is a stub that fails and \<open>munmap\<close> one that does nothing.
  \<open>windows_os\<close> are the answers for which \<open>newFileBackedMmapNodes\<close> calls the stub.\<close>

definition mmapFile_windows :: "os_state \<Rightarrow> os_state \<times> nat outcome" where
  "mmapFile_windows w = (w, Fail (Foreign ''mmap is not supported on Windows''))"

definition munmap_windows :: "os_state \<Rightarrow> os_state \<times> unit outcome" where
  "munmap_windows w = (w, Ok ())"

definition windows_os :: "os_answers \<Rightarrow> os_answers" where
  "windows_os os = os\<lparr>answer_mmap := \<lambda>w n. Inl (Foreign ''mmap is not supported on Windows'')\<rparr>"

lemma mmapFile_windows_os: "mmapFile (windows_os os) n w = mmapFile_windows w"
  by (simp add: mmapFile_def mmapFile_windows_def windows_os_def)

lemma os_documented_windows: "os_documented os \<Longrightarrow> os_documented (windows_os os)"
  by (simp add: os_documented_def windows_os_def)

lemma newFileBackedMmapNodes_windows:
  "\<exists>w' e. newFileBackedMmapNodes (windows_os os) capacity dir w = (w', Fail e)"
proof (cases "answer_create (windows_os os) w dir")
  case (Inl e)
  then show ?thesis by (simp add: newFileBackedMmapNodes_def os_CreateTemp_def Let_def)
next
  case (Inr f)
  then show ?thesis
    by (simp add: newFileBackedMmapNodes_def os_CreateTemp_def Let_def file_Truncate_def mmapFile_windows_os
        mmapFile_windows_def split: option.split)
qed

section \<open>Properties\<close>

text \<open>A system that has one file name and one address to give; the second one refuses every
  mapping.\<close>

definition kind_os :: os_answers where
  "kind_os = \<lparr>answer_create =
       (\<lambda>w dir. if ''f'' \<in> temp_files w \<union> open_files w then Inl (Foreign ''EEXIST'') else Inr ''f''),
     answer_truncate = (\<lambda>w n. if n < 0 then Some (Foreign ''EINVAL'') else None),
     answer_mmap = (\<lambda>w n. if n \<le> 0 \<or> 7 \<in> mappings w then Inl (Foreign ''EINVAL'') else Inr 7),
     answer_munmap = (\<lambda>a. None),
     answer_remove = (\<lambda>f. None)\<rparr>"

definition full_os :: os_answers where
  "full_os = kind_os\<lparr>answer_mmap := \<lambda>w n. Inl (Foreign ''ENOMEM'')\<rparr>"

text \<open>One that refuses every mapping, and to remove files as well.\<close>

definition stuck_os :: os_answers where
  "stuck_os = full_os\<lparr>answer_remove := \<lambda>f. Some (Foreign ''EBUSY'')\<rparr>"

definition empty_os_state :: os_state where
  "empty_os_state = \<lparr>temp_files = {}, open_files = {}, mappings = {}\<rparr>"

lemma os_documented_examples: "os_documented kind_os" "os_documented full_os" "os_documented stuck_os"
  by (auto simp: os_documented_def kind_os_def full_os_def stuck_os_def split: if_splits)

text \<open>C32: When \<open>newFileBackedMmapNodes\<close> returns an error, whichever call failed, no descriptor and no
  mapping of it is left behind, and no file either unless the system refused to remove it, an error
  that the code ignores.\<close>

theorem mmap_error_leaves_nothing:
  assumes "os_documented os" and "newFileBackedMmapNodes os capacity dir w = (w', Fail e)"
  shows "open_files w' = open_files w \<and> mappings w' = mappings w \<and>
    (temp_files w' = temp_files w \<or>
     (\<exists>f. f \<notin> temp_files w \<and> answer_remove os f \<noteq> None \<and> temp_files w' = insert f (temp_files w))) \<and>
    ((\<forall>f. answer_remove os f = None) \<longrightarrow> w' = w)"
  using newFileBackedMmapNodes_Fail [OF assms] by (auto simp: only_file_left_def)

theorem mmap_error_leaves_nothing_witness:
  "(\<exists>w' e. newFileBackedMmapNodes full_os 4 ''d'' empty_os_state = (w', Fail e) \<and> w' = empty_os_state) \<and>
   (\<exists>w' e. newFileBackedMmapNodes stuck_os 4 ''d'' empty_os_state = (w', Fail e) \<and>
      mappings w' = {} \<and> temp_files w' = {''f''})"
proof -
  note defs = mmap_defs full_os_def stuck_os_def kind_os_def empty_os_state_def wrap64_def nodeSize_def
  obtain w' e where w': "newFileBackedMmapNodes full_os 4 ''d'' empty_os_state = (w', Fail e)"
    by (simp add: defs)
  obtain v' e' where v': "newFileBackedMmapNodes stuck_os 4 ''d'' empty_os_state = (v', Fail e')"
    and files: "temp_files v' = {''f''}" by (simp add: defs)
  have "\<forall>f. answer_remove full_os f = None" by (simp add: defs)
  with mmap_error_leaves_nothing [OF os_documented_examples(2) w']
    mmap_error_leaves_nothing [OF os_documented_examples(3) v'] w' v' files
  show ?thesis by (auto simp: empty_os_state_def)
qed

text \<open>What \<open>newFileBackedMmapNodes\<close> acquires, one \<open>Close\<close> of the store releases, but for what the
  system refuses to take back; the refusal to unmap is reported, the refusal to remove the file is not.
  Every further \<open>Close\<close> does nothing and returns nil.\<close>

theorem mmap_Close_releases:
  assumes "os_documented os" and "newFileBackedMmapNodes os capacity dir w = (w', Ok (nodes, m))"
  shows "slice_len nodes = 0 \<and> int (slice_cap nodes) = capacity \<and>
    (\<exists>m' r. store_Close os m w' = (leftover os m w, m', r) \<and>
      (is_fail r \<longleftrightarrow> answer_munmap os (the (data m)) \<noteq> None) \<and>
      store_Close os m' (leftover os m w) = (leftover os m w, m', Ok ()))"
proof -
  from newFileBackedMmapNodes_Ok [OF assms] have "holds m w w'"
    and nodes: "nodes = Slice [] (replicate (nat capacity) zero_node)" "0 < capacity" by auto
  note close = store_Close_holds [OF this(1), of os]
  with store_Close_once [OF close] nodes show ?thesis
    by (auto simp: slice_len_def slice_cap_def split: option.splits)
qed

theorem mmap_Close_releases_witness:
  "\<exists>w' nodes m. newFileBackedMmapNodes kind_os 4 ''d'' empty_os_state = (w', Ok (nodes, m)) \<and>
    int (slice_cap nodes) = 4 \<and> (\<exists>m' r. store_Close kind_os m w' = (empty_os_state, m', r))"
proof -
  obtain w' nodes m where new: "newFileBackedMmapNodes kind_os 4 ''d'' empty_os_state =
      (w', Ok (nodes, m))" "m = \<lparr>data = Some 7, filePath = ''f'', once = False\<rparr>"
    by (simp add: mmap_defs kind_os_def empty_os_state_def wrap64_def nodeSize_def)
  have "leftover kind_os m empty_os_state = empty_os_state"
    by (rule leftover_nothing) (simp_all add: kind_os_def)
  with new(1) mmap_Close_releases [OF os_documented_examples(1) new(1)] show ?thesis by auto
qed

text \<open>On Windows, where mapping is a stub, \<open>newFileBackedMmapNodes\<close> returns an error for every
  capacity, directory and system, and leaves at most a file that the system refused to remove.\<close>

theorem windows_never_maps:
  assumes "os_documented os"
  shows "\<exists>w' e. newFileBackedMmapNodes (windows_os os) capacity dir w = (w', Fail e) \<and>
    only_file_left (windows_os os) w w'"
  using newFileBackedMmapNodes_windows newFileBackedMmapNodes_Fail [OF os_documented_windows [OF assms]] by blast

theorem windows_never_maps_witness:
  "\<exists>w' e. newFileBackedMmapNodes (windows_os kind_os) 4 ''d'' empty_os_state = (w', Fail e)"
  using windows_never_maps [OF os_documented_examples(1)] by blast

end
