(* ===== verification/Coinbase_Placeholder.thy ===== *)
theory Coinbase_Placeholder
  imports Merkle_Tree
begin

text \<open>
  \<open>coinbase_placeholder.go\<close>: the hash that stands for the coinbase transaction of a block that is
  not mined yet, and the placeholder transaction.

  Transactions are go-bt's \<open>bt.Tx\<close>, which is not part of this repository: a type variable, with
  the constructor \<open>bt.NewTx\<close>, the assignments to the fields \<open>Version\<close> and \<open>LockTime\<close> and the
  method \<open>TxIDChainHash\<close> as parameters.
\<close>

definition CoinbasePlaceholder :: hash where
  "CoinbasePlaceholder = hash_of_bytes (replicate 32 0xFF)"

definition FrozenBytes :: "byte list" where
  "FrozenBytes = replicate 36 0xFF"

definition FrozenBytesTxBytes :: "byte list" where
  "FrozenBytesTxBytes = take 32 FrozenBytes"

definition FrozenBytesTxHash :: hash where
  "FrozenBytesTxHash = hash_of_bytes FrozenBytesTxBytes"

definition generateCoinbasePlaceholderTx ::
  "'tx \<Rightarrow> (uint32 \<Rightarrow> 'tx \<Rightarrow> 'tx) \<Rightarrow> (uint32 \<Rightarrow> 'tx \<Rightarrow> 'tx) \<Rightarrow> 'tx" where
  "generateCoinbasePlaceholderTx NewTx set_Version set_LockTime =
     set_LockTime 0xFFFFFFFF (set_Version 0xFFFFFFFF NewTx)"

definition IsCoinbasePlaceHolderTx ::
  "'tx \<Rightarrow> (uint32 \<Rightarrow> 'tx \<Rightarrow> 'tx) \<Rightarrow> (uint32 \<Rightarrow> 'tx \<Rightarrow> 'tx) \<Rightarrow> ('tx \<Rightarrow> hash) \<Rightarrow> 'tx \<Rightarrow> bool" where
  "IsCoinbasePlaceHolderTx NewTx set_Version set_LockTime TxIDChainHash tx =
     (let coinbasePlaceholderTx = generateCoinbasePlaceholderTx NewTx set_Version set_LockTime;
          coinbasePlaceholderTxHash = TxIDChainHash coinbasePlaceholderTx
      in TxIDChainHash tx = coinbasePlaceholderTxHash)"

lemma CoinbasePlaceholder_eq: "CoinbasePlaceholder = - 1"
  unfolding CoinbasePlaceholder_def hash_of_bytes_def by code_simp

lemma FrozenBytesTxHash_eq: "FrozenBytesTxHash = CoinbasePlaceholder"
  by (simp add: FrozenBytesTxHash_def FrozenBytesTxBytes_def FrozenBytes_def CoinbasePlaceholder_def
      min_def)

lemma CoinbasePlaceholder_nonzero [simp]: "CoinbasePlaceholder \<noteq> 0"
  by (simp add: CoinbasePlaceholder_eq)

end
