(* ===== verification/Subtree.thy ===== *)
theory Subtree
  imports Coinbase_Placeholder Mmap_Store
begin

text \<open>
  \<open>subtree.go\<close>, first part: the \<open>Subtree\<close>, its constructors, the operations that change its nodes
  and the ones that look nodes up.  A method is a function from the receiver (and its arguments)
  to the new receiver and the outcome; on a panic the receiver is the one at that moment.  The
  mutex makes the locked methods atomic (\<open>Subtree_Concurrent\<close>) and is not part of the state.  \<open>grow\<close> is the choice of the
  run-time system when \<open>append\<close> needs a larger array.
\<close>

record subtree =
  Height :: int
  Fees :: uint64
  SizeInBytes :: uint64
  FeeHash :: hash
  Nodes :: "node slice"
  ConflictingNodes :: "hash slice"
  rootHash :: "hash option"
  treeSize :: int
  nodeIndex :: "(hash \<rightharpoonup> int) option"
  closer :: "mmapNodeStore option"

definition zero_subtree :: subtree where
  "zero_subtree = \<lparr>Height = 0, Fees = 0, SizeInBytes = 0, FeeHash = 0, Nodes = NilSlice,
     ConflictingNodes = NilSlice, rootHash = None, treeSize = 0, nodeIndex = None, closer = None\<rparr>"

abbreviation node_list :: "subtree \<Rightarrow> node list" where
  "node_list st \<equiv> elems (Nodes st)"

section \<open>Constructors\<close>

definition NewTree :: "int \<Rightarrow> subtree outcome" where
  "NewTree height =
     (if height < 0 then Fail ErrHeightNegative
      else
        (let treeSize = pow2_int height in
         obind (make_slice nodeSize zero_node 0 treeSize) (\<lambda>nodes.
         Ok (zero_subtree\<lparr>Nodes := nodes, Height := height, FeeHash := 0, treeSize := treeSize\<rparr>))))"

definition NewTreeByLeafCount :: "int \<Rightarrow> subtree outcome" where
  "NewTreeByLeafCount maxNumberOfLeaves =
     (if \<not> IsPowerOfTwo maxNumberOfLeaves then Fail ErrNotPowerOfTwo
      else (let height = ceil_log2 maxNumberOfLeaves in NewTree height))"

definition NewIncompleteTreeByLeafCount :: "int \<Rightarrow> subtree outcome" where
  "NewIncompleteTreeByLeafCount maxNumberOfLeaves =
     (let height = ceil_log2 maxNumberOfLeaves in NewTree height)"

definition NewTreeMmap ::
  "os_answers \<Rightarrow> int \<Rightarrow> string \<Rightarrow> os_state \<Rightarrow> os_state \<times> subtree outcome" where
  "NewTreeMmap os height dir w =
     (if height < 0 then (w, Fail ErrHeightNegative)
      else
        (let treeSize = pow2_int height in
         case newFileBackedMmapNodes os treeSize dir w of
           (w', Fail e) \<Rightarrow> (w', Fail (Wrap ''mmap allocation failed: %w'' [e]))
         | (w', Panic p) \<Rightarrow> (w', Panic p)
         | (w', Ok (nodes, m)) \<Rightarrow>
             (w', Ok (zero_subtree\<lparr>Nodes := nodes, Height := height, FeeHash := 0,
                        treeSize := treeSize, closer := Some m\<rparr>))))"

definition NewTreeByLeafCountMmap ::
  "os_answers \<Rightarrow> int \<Rightarrow> string \<Rightarrow> os_state \<Rightarrow> os_state \<times> subtree outcome" where
  "NewTreeByLeafCountMmap os maxNumberOfLeaves dir w =
     (if \<not> IsPowerOfTwo maxNumberOfLeaves then (w, Fail ErrNotPowerOfTwo)
      else (let height = ceil_log2 maxNumberOfLeaves in NewTreeMmap os height dir w))"

text \<open>\<open>(*Subtree).Close\<close> and \<open>IsMmapBacked\<close> accept a nil receiver.\<close>

definition Close ::
  "os_answers \<Rightarrow> subtree option \<Rightarrow> os_state \<Rightarrow> os_state \<times> subtree option \<times> unit outcome" where
  "Close os st w =
     (case st of
        None \<Rightarrow> (w, st, Ok ())
      | Some s \<Rightarrow>
          (case closer s of
             None \<Rightarrow> (w, st, Ok ())
           | Some m \<Rightarrow>
               (let (w', m', r) = store_Close os m w in (w', Some (s\<lparr>closer := Some m'\<rparr>), r))))"

definition IsMmapBacked :: "subtree option \<Rightarrow> bool" where
  "IsMmapBacked st = (case st of None \<Rightarrow> False | Some s \<Rightarrow> closer s \<noteq> None)"

text \<open>\<open>Duplicate\<close> copies the two slices at their length; the node index and the closer are not
  copied.\<close>

definition Duplicate :: "subtree \<Rightarrow> subtree" where
  "Duplicate st = zero_subtree\<lparr>Height := Height st, Fees := Fees st, SizeInBytes := SizeInBytes st,
     FeeHash := FeeHash st, Nodes := Slice (elems (Nodes st)) [],
     ConflictingNodes := Slice (elems (ConflictingNodes st)) [], rootHash := rootHash st,
     treeSize := treeSize st\<rparr>"

definition Size :: "subtree \<Rightarrow> nat" where
  "Size st = slice_cap (Nodes st)"

definition Length :: "subtree \<Rightarrow> nat" where
  "Length st = slice_len (Nodes st)"

definition IsComplete :: "subtree \<Rightarrow> bool" where
  "IsComplete st = (slice_len (Nodes st) = slice_cap (Nodes st))"

definition ReleaseNodes :: "subtree \<Rightarrow> subtree \<times> node slice outcome" where
  "ReleaseNodes st =
     (if Nodes st = NilSlice then (st, Ok NilSlice)
      else
        (case reslice (Nodes st) (int (slice_cap (Nodes st))) of
           Ok nodes \<Rightarrow> (st\<lparr>Nodes := NilSlice\<rparr>, Ok nodes)
         | Fail e \<Rightarrow> (st, Fail e)
         | Panic p \<Rightarrow> (st, Panic p)))"

section \<open>Adding nodes\<close>

definition AddSubtreeNode :: "growth \<Rightarrow> node \<Rightarrow> subtree \<Rightarrow> subtree \<times> unit outcome" where
  "AddSubtreeNode grow n st =
     (if int (slice_len (Nodes st)) + 1 > treeSize st then (st, Fail ErrSubtreeFull)
      else if Hash n = CoinbasePlaceholder then
        (st, Fail (Wrap ''[AddSubtreeNode] %w, tree length is %d'' [ErrCoinbasePlaceholderMisuse]))
      else
        (let st1 = st\<lparr>Nodes := append_elem grow zero_node (Nodes st) n\<rparr>;
             st2 = st1\<lparr>rootHash := None, Fees := Fees st1 + Fee n,
                       SizeInBytes := SizeInBytes st1 + NodeSizeInBytes n\<rparr>
         in (case nodeIndex st2 of
               None \<Rightarrow> (st2, Ok ())
             | Some m \<Rightarrow>
                 (st2\<lparr>nodeIndex := Some (m(Hash n \<mapsto> int (slice_len (Nodes st2)) - 1))\<rparr>, Ok ()))))"

definition AddSubtreeNodeWithoutLock :: "growth \<Rightarrow> node \<Rightarrow> subtree \<Rightarrow> subtree \<times> unit outcome" where
  "AddSubtreeNodeWithoutLock grow n st =
     (if int (slice_len (Nodes st)) + 1 > treeSize st then (st, Fail ErrSubtreeFull)
      else
        (let st1 = st\<lparr>Nodes := append_elem grow zero_node (Nodes st) n\<rparr>;
             st2 = st1\<lparr>rootHash := None, Fees := Fees st1 + Fee n,
                       SizeInBytes := SizeInBytes st1 + NodeSizeInBytes n\<rparr>
         in (case nodeIndex st2 of
               None \<Rightarrow> (st2, Ok ())
             | Some m \<Rightarrow>
                 (st2\<lparr>nodeIndex := Some (m(Hash n \<mapsto> int (slice_len (Nodes st2)) - 1))\<rparr>, Ok ()))))"

definition AddCoinbaseNode :: "growth \<Rightarrow> subtree \<Rightarrow> subtree \<times> unit outcome" where
  "AddCoinbaseNode grow st =
     (if slice_len (Nodes st) \<noteq> 0 then (st, Fail ErrSubtreeNotEmpty)
      else
        (let n = \<lparr>Hash = CoinbasePlaceholder, Fee = 0, NodeSizeInBytes = 0\<rparr>
         in (st\<lparr>Nodes := append_elem grow zero_node (Nodes st) n, rootHash := None, Fees := 0,
                SizeInBytes := 0\<rparr>, Ok ())))"

definition AddConflictingNode :: "growth \<Rightarrow> hash \<Rightarrow> subtree \<Rightarrow> subtree \<times> unit outcome" where
  "AddConflictingNode grow newConflictingNode st =
     (let st1 = (if ConflictingNodes st = NilSlice then st\<lparr>ConflictingNodes := Slice [] [0]\<rparr> else st);
          found = list_ex (\<lambda>n. Hash n = newConflictingNode) (elems (Nodes st1))
      in if \<not> found then (st1, Fail ErrConflictingNodeNotInSubtree)
         else if list_ex (\<lambda>h. h = newConflictingNode) (elems (ConflictingNodes st1)) then (st1, Ok ())
         else (st1\<lparr>ConflictingNodes := append_elem grow 0 (ConflictingNodes st1) newConflictingNode\<rparr>,
               Ok ()))"

definition AddNode ::
  "growth \<Rightarrow> hash \<Rightarrow> uint64 \<Rightarrow> uint64 \<Rightarrow> subtree \<Rightarrow> subtree \<times> unit outcome" where
  "AddNode grow h fee sizeInBytes st =
     (if int (slice_len (Nodes st)) + 1 > treeSize st then (st, Fail ErrSubtreeFull)
      else if h = CoinbasePlaceholder then
        (st, Fail (Wrap ''[AddNode] %w'' [ErrCoinbasePlaceholderMisuse]))
      else
        (let n = \<lparr>Hash = h, Fee = fee, NodeSizeInBytes = sizeInBytes\<rparr>;
             st1 = st\<lparr>Nodes := append_elem grow zero_node (Nodes st) n\<rparr>;
             st2 = st1\<lparr>rootHash := None, Fees := Fees st1 + fee,
                       SizeInBytes := SizeInBytes st1 + sizeInBytes\<rparr>
         in (case nodeIndex st2 of
               None \<Rightarrow> (st2, Ok ())
             | Some m \<Rightarrow>
                 (st2\<lparr>nodeIndex := Some (m(h \<mapsto> int (slice_len (Nodes st2)) - 1))\<rparr>, Ok ()))))"

section \<open>Removing a node\<close>

text \<open>The index expressions of the code read the same element three times; only the first read can
  panic.\<close>

definition RemoveNodeAtIndex :: "int \<Rightarrow> subtree \<Rightarrow> subtree \<times> unit outcome" where
  "RemoveNodeAtIndex index st =
     (if index \<ge> int (slice_len (Nodes st)) then (st, Fail ErrIndexOutOfRange)
      else
        (case index_get (elems (Nodes st)) index of
           Fail e \<Rightarrow> (st, Fail e)
         | Panic p \<Rightarrow> (st, Panic p)
         | Ok n \<Rightarrow>
             (let st1 = st\<lparr>Fees := Fees st - Fee n, SizeInBytes := SizeInBytes st - NodeSizeInBytes n,
                           Nodes := remove_elem (Nodes st) (nat index), rootHash := None\<rparr>
              in (case nodeIndex st1 of
                    None \<Rightarrow> (st1, Ok ())
                  | Some m \<Rightarrow> (st1\<lparr>nodeIndex := Some (m(Hash n := None))\<rparr>, Ok ())))))"

section \<open>Looking nodes up\<close>

text \<open>\<open>for idx, node := range nodes { m[node.Hash] = idx }\<close>.\<close>

primrec index_nodes :: "int \<Rightarrow> node list \<Rightarrow> (hash \<rightharpoonup> int) \<Rightarrow> (hash \<rightharpoonup> int)" where
  "index_nodes idx [] m = m"
| "index_nodes idx (n # ns) m = index_nodes (idx + 1) ns (m(Hash n \<mapsto> idx))"

definition NodeIndex :: "hash \<Rightarrow> subtree \<Rightarrow> subtree \<times> int" where
  "NodeIndex h st =
     (let st1 = (if nodeIndex st = None
                 then st\<lparr>nodeIndex := Some (index_nodes 0 (elems (Nodes st)) Map.empty)\<rparr> else st)
      in (st1, (case the (nodeIndex st1) h of Some i \<Rightarrow> i | None \<Rightarrow> - 1)))"

definition HasNode :: "hash \<Rightarrow> subtree \<Rightarrow> subtree \<times> bool" where
  "HasNode h st = (let (st1, i) = NodeIndex h st in (st1, i \<noteq> - 1))"

text \<open>\<open>GetNode\<close> returns a pointer into the node array; the model returns the node it points to.\<close>

definition GetNode :: "hash \<Rightarrow> subtree \<Rightarrow> subtree \<times> node outcome" where
  "GetNode h st =
     (let (st1, i) = NodeIndex h st in
      if i \<noteq> - 1 then (st1, index_get (elems (Nodes st1)) i) else (st1, Fail ErrNodeNotFound))"

text \<open>\<open>TxMap\<close> is implemented by go-tx-map: \<open>IntToUint32\<close>, \<open>NewSwissMapUint64\<close>, \<open>Put\<close> and
  \<open>Exists\<close> are parameters.\<close>

primrec put_nodes :: "('m \<Rightarrow> hash \<Rightarrow> uint64 \<Rightarrow> 'm) \<Rightarrow> nat \<Rightarrow> node list \<Rightarrow> 'm \<Rightarrow> 'm" where
  "put_nodes Put idx [] m = m"
| "put_nodes Put idx (n # ns) m = put_nodes Put (idx + 1) ns (Put m (Hash n) (of_nat idx))"

definition GetMap ::
  "(int \<Rightarrow> uint32 outcome) \<Rightarrow> (uint32 \<Rightarrow> 'm) \<Rightarrow> ('m \<Rightarrow> hash \<Rightarrow> uint64 \<Rightarrow> 'm) \<Rightarrow> subtree \<Rightarrow> 'm outcome" where
  "GetMap IntToUint32 NewSwissMapUint64 Put st =
     obind (IntToUint32 (int (slice_len (Nodes st)))) (\<lambda>lengthUint32.
     Ok (put_nodes Put 0 (elems (Nodes st)) (NewSwissMapUint64 lengthUint32)))"

definition Difference :: "(hash \<Rightarrow> bool) \<Rightarrow> subtree \<Rightarrow> node list outcome" where
  "Difference Exists st = Ok (filter (\<lambda>n. \<not> Exists (Hash n)) (elems (Nodes st)))"

section \<open>The constructors\<close>

lemma NewTree_Ok:
  "0 \<le> height \<Longrightarrow> height \<le> 42 \<Longrightarrow>
    NewTree height = Ok (zero_subtree\<lparr>Nodes := Slice [] (replicate (2 ^ nat height) zero_node),
      Height := height, FeeHash := 0, treeSize := 2 ^ nat height\<rparr>)"
proof -
  assume h: "0 \<le> height" "height \<le> 42"
  then have "(2::int) ^ nat height \<le> 2 ^ 42" by (intro power_increasing) simp_all
  then show ?thesis
    using h by (simp add: NewTree_def pow2_int_def nodeSize_def make_slice_def max_alloc_def
        nat_power_eq)
qed

lemma NewTree_Panic: "43 \<le> height \<Longrightarrow> NewTree height = Panic MakeSliceLenOutOfRange"
proof (cases "height < 63")
  case True
  assume "43 \<le> height"
  then have "(2::int) ^ 43 \<le> 2 ^ nat height" by (intro power_increasing) simp_all
  then show ?thesis
    using True \<open>43 \<le> height\<close>
    by (simp add: NewTree_def pow2_int_def nodeSize_def make_slice_def max_alloc_def)
next
  case False
  then show ?thesis
    by (simp add: NewTree_def pow2_int_def make_slice_def min_int_def)
qed

lemma NewTree_eq_Ok:
  "NewTree height = Ok st \<longleftrightarrow> 0 \<le> height \<and> height \<le> 42 \<and>
    st = zero_subtree\<lparr>Nodes := Slice [] (replicate (2 ^ nat height) zero_node),
      Height := height, FeeHash := 0, treeSize := 2 ^ nat height\<rparr>"
proof (cases "height < 0")
  case True
  then show ?thesis by (simp add: NewTree_def)
next
  case False
  then show ?thesis
    using NewTree_Ok [of height] NewTree_Panic [of height] by (cases "height \<le> 42") auto
qed

section \<open>The contract of the adding operations\<close>

text \<open>What a successful addition does to the subtree.\<close>

definition push :: "growth \<Rightarrow> node \<Rightarrow> subtree \<Rightarrow> subtree" where
  "push grow n st =
     st\<lparr>Nodes := append_elem grow zero_node (Nodes st) n, rootHash := None, Fees := Fees st + Fee n,
        SizeInBytes := SizeInBytes st + NodeSizeInBytes n,
        nodeIndex := map_option (\<lambda>m. m(Hash n \<mapsto> int (slice_len (Nodes st)))) (nodeIndex st)\<rparr>"

lemma slice_len_append_elem [simp]: "slice_len (append_elem grow z s x) = Suc (slice_len s)"
  by (simp add: slice_len_def)

lemma push_simps [simp]:
  "node_list (push grow n st) = node_list st @ [n]" "rootHash (push grow n st) = None"
  "Fees (push grow n st) = Fees st + Fee n"
  "SizeInBytes (push grow n st) = SizeInBytes st + NodeSizeInBytes n"
  "treeSize (push grow n st) = treeSize st" "Height (push grow n st) = Height st"
  "ConflictingNodes (push grow n st) = ConflictingNodes st" "closer (push grow n st) = closer st"
  "FeeHash (push grow n st) = FeeHash st"
  "slice_len (Nodes (push grow n st)) = Suc (slice_len (Nodes st))"
  by (simp_all add: push_def)

text \<open>The loop that adds one node after the other and stops at the first error.\<close>

fun add_nodes ::
  "(node \<Rightarrow> subtree \<Rightarrow> subtree \<times> unit outcome) \<Rightarrow> node list \<Rightarrow> subtree \<Rightarrow> subtree \<times> unit outcome" where
  "add_nodes add [] st = (st, Ok ())"
| "add_nodes add (n # ns) st =
     (case add n st of (st', Ok _) \<Rightarrow> add_nodes add ns st' | (st', r) \<Rightarrow> (st', r))"

text \<open>The fee and the size of a subtree are the sums over its nodes, modulo \<open>2^64\<close>; an index, once
  built, is the index of its nodes; the nodes do not exceed the size of the tree.\<close>

definition sums_valid :: "subtree \<Rightarrow> bool" where
  "sums_valid st = (Fees st = sum_list (map Fee (node_list st)) \<and>
     SizeInBytes st = sum_list (map NodeSizeInBytes (node_list st)))"

definition index_valid :: "subtree \<Rightarrow> bool" where
  "index_valid st =
     (case nodeIndex st of None \<Rightarrow> True | Some m \<Rightarrow> m = index_nodes 0 (node_list st) Map.empty)"

definition within :: "subtree \<Rightarrow> bool" where
  "within st = (int (slice_len (Nodes st)) \<le> treeSize st)"

lemma index_nodes_snoc:
  "index_nodes i (ns @ [n]) m = (index_nodes i ns m)(Hash n \<mapsto> i + int (length ns))"
  by (induction ns arbitrary: i m) (simp_all add: algebra_simps)

lemma sums_valid_push: "sums_valid st \<Longrightarrow> sums_valid (push grow n st)"
  by (simp add: sums_valid_def)

lemma index_valid_push: "index_valid st \<Longrightarrow> index_valid (push grow n st)"
  by (auto simp: index_valid_def push_def index_nodes_snoc slice_len_def split: option.splits)

text \<open>
  \<open>add\<close> refuses a full subtree and a node that is not \<open>allowed\<close>, without a change; otherwise it
  pushes the node.
\<close>

locale node_adder =
  fixes add :: "node \<Rightarrow> subtree \<Rightarrow> subtree \<times> unit outcome"
    and grow :: growth
    and allowed :: "node \<Rightarrow> bool"
  assumes add_full: "treeSize st \<le> int (slice_len (Nodes st)) \<Longrightarrow> add n st = (st, Fail ErrSubtreeFull)"
    and add_misuse: "int (slice_len (Nodes st)) < treeSize st \<Longrightarrow> \<not> allowed n \<Longrightarrow>
      \<exists>e. add n st = (st, Fail e) \<and> errors_is e ErrCoinbasePlaceholderMisuse"
    and add_ok: "int (slice_len (Nodes st)) < treeSize st \<Longrightarrow> allowed n \<Longrightarrow>
      add n st = (push grow n st, Ok ())"
begin

lemma add_cases:
  obtains "add n st = (push grow n st, Ok ())" "int (slice_len (Nodes st)) < treeSize st"
  | e where "add n st = (st, Fail e)"
  using add_full [of st n] add_misuse [of st n] add_ok [of st n] by (metis not_le)

lemma add_preserves:
  assumes "add n st = (st', r)"
  shows "\<not> is_panic r" "within st \<Longrightarrow> within st'" "sums_valid st \<Longrightarrow> sums_valid st'"
    "index_valid st \<Longrightarrow> index_valid st'"
  using assms by (cases rule: add_cases [of n st];
    auto simp: within_def sums_valid_push index_valid_push)+

text \<open>Adding as many nodes as there is room for: all of them are appended, in order, and the array
  is not moved.\<close>

lemma add_nodes_ok:
  "\<forall>n\<in>set ns. allowed n \<Longrightarrow> int (slice_len (Nodes st) + length ns) \<le> treeSize st \<Longrightarrow>
    treeSize st \<le> int (slice_cap (Nodes st)) \<Longrightarrow> sums_valid st \<Longrightarrow> index_valid st \<Longrightarrow>
    \<exists>st'. add_nodes add ns st = (st', Ok ()) \<and> node_list st' = node_list st @ ns \<and>
      slice_cap (Nodes st') = slice_cap (Nodes st) \<and> treeSize st' = treeSize st \<and>
      Height st' = Height st \<and> sums_valid st' \<and> index_valid st' \<and>
      (ns \<noteq> [] \<longrightarrow> rootHash st' = None)"
proof (induction ns arbitrary: st)
  case (Cons n ns)
  then have room: "int (slice_len (Nodes st)) < treeSize st" by simp
  with Cons.prems have add: "add n st = (push grow n st, Ok ())" by (intro add_ok) simp_all
  have cap: "slice_cap (Nodes (push grow n st)) = slice_cap (Nodes st)"
    using room Cons.prems(3) by (simp add: push_def slice_cap_append_elem)
  obtain st' where st': "add_nodes add ns (push grow n st) = (st', Ok ())"
    "node_list st' = (node_list st @ [n]) @ ns" "slice_cap (Nodes st') = slice_cap (Nodes st)"
    "treeSize st' = treeSize st" "Height st' = Height st" "sums_valid st'" "index_valid st'"
    "ns \<noteq> [] \<longrightarrow> rootHash st' = None"
    using Cons.IH [of "push grow n st"] Cons.prems
    by (auto simp: cap sums_valid_push index_valid_push)
  then show ?case using add by (cases ns) auto
qed simp

end

lemma AddSubtreeNode_eq:
  "AddSubtreeNode grow n st =
     (if int (slice_len (Nodes st)) + 1 > treeSize st then (st, Fail ErrSubtreeFull)
      else if Hash n = CoinbasePlaceholder then
        (st, Fail (Wrap ''[AddSubtreeNode] %w, tree length is %d'' [ErrCoinbasePlaceholderMisuse]))
      else (push grow n st, Ok ()))"
  by (simp add: AddSubtreeNode_def push_def Let_def split: option.split)

lemma AddSubtreeNodeWithoutLock_eq:
  "AddSubtreeNodeWithoutLock grow n st =
     (if int (slice_len (Nodes st)) + 1 > treeSize st then (st, Fail ErrSubtreeFull)
      else (push grow n st, Ok ()))"
  by (simp add: AddSubtreeNodeWithoutLock_def push_def Let_def split: option.split)

lemma AddNode_eq:
  "AddNode grow (Hash n) (Fee n) (NodeSizeInBytes n) st =
     (if int (slice_len (Nodes st)) + 1 > treeSize st then (st, Fail ErrSubtreeFull)
      else if Hash n = CoinbasePlaceholder then
        (st, Fail (Wrap ''[AddNode] %w'' [ErrCoinbasePlaceholderMisuse]))
      else (push grow n st, Ok ()))"
proof -
  have "\<lparr>Hash = Hash n, Fee = Fee n, NodeSizeInBytes = NodeSizeInBytes n\<rparr> = n" by simp
  then show ?thesis by (simp only: AddNode_def push_def Let_def) (simp split: option.split)
qed

interpretation add_subtree_node:
  node_adder "AddSubtreeNode grow" grow "\<lambda>n. Hash n \<noteq> CoinbasePlaceholder" for grow
  by unfold_locales (simp_all add: AddSubtreeNode_eq)

interpretation add_without_lock: node_adder "AddSubtreeNodeWithoutLock grow" grow "\<lambda>_. True" for grow
  by unfold_locales (simp_all add: AddSubtreeNodeWithoutLock_eq)

interpretation add_node:
  node_adder "\<lambda>n. AddNode grow (Hash n) (Fee n) (NodeSizeInBytes n)" grow
    "\<lambda>n. Hash n \<noteq> CoinbasePlaceholder" for grow
  by unfold_locales (simp_all only: AddNode_eq, simp_all)

section \<open>The other operations\<close>

lemma AddCoinbaseNode_preserves:
  assumes "AddCoinbaseNode grow st = (st', r)"
  shows "\<not> is_panic r" "1 \<le> treeSize st \<Longrightarrow> within st \<Longrightarrow> within st'"
    "sums_valid st \<Longrightarrow> sums_valid st'" "nodeIndex st = None \<Longrightarrow> nodeIndex st' = None"
    "treeSize st' = treeSize st"
  using assms
  by (auto simp: AddCoinbaseNode_def Let_def within_def sums_valid_def slice_len_def split: if_splits)

lemma AddConflictingNode_preserves:
  assumes "AddConflictingNode grow h st = (st', r)"
  shows "\<not> is_panic r" "Nodes st' = Nodes st" "Fees st' = Fees st" "SizeInBytes st' = SizeInBytes st"
    "nodeIndex st' = nodeIndex st" "rootHash st' = rootHash st" "treeSize st' = treeSize st"
  using assms by (auto simp: AddConflictingNode_def Let_def split: if_splits)

lemma index_get_panic_iff: "is_panic (index_get xs i) \<longleftrightarrow> i < 0 \<or> int (length xs) \<le> i"
  by (auto simp: index_get_def)

lemma sum_list_remove:
  "i < length xs \<Longrightarrow>
    sum_list (map f (take i xs @ drop (Suc i) xs)) = sum_list (map f xs) - (f (xs ! i) :: 'a::ab_group_add)"
proof -
  assume i: "i < length xs"
  have "sum_list (map f xs) = sum_list (map f (take i xs @ xs ! i # drop (Suc i) xs))"
    using i by (simp flip: id_take_nth_drop)
  then show ?thesis by (simp add: algebra_simps)
qed

lemma RemoveNodeAtIndex_Ok:
  assumes "0 \<le> index" and "index < int (slice_len (Nodes st))"
  shows "RemoveNodeAtIndex index st =
    (st\<lparr>Fees := Fees st - Fee (node_list st ! nat index),
        SizeInBytes := SizeInBytes st - NodeSizeInBytes (node_list st ! nat index),
        Nodes := remove_elem (Nodes st) (nat index), rootHash := None,
        nodeIndex := map_option (\<lambda>m. m(Hash (node_list st ! nat index) := None)) (nodeIndex st)\<rparr>, Ok ())"
  using assms by (simp add: RemoveNodeAtIndex_def index_get_def slice_len_def Let_def split: option.split)

lemma slice_len_remove_elem: "i < slice_len s \<Longrightarrow> slice_len (remove_elem s i) = slice_len s - 1"
  by (simp add: slice_len_def remove_elem_def)

lemma RemoveNodeAtIndex_preserves:
  assumes "RemoveNodeAtIndex index st = (st', r)"
  shows "is_panic r \<longleftrightarrow> index < 0" "within st \<Longrightarrow> within st'" "sums_valid st \<Longrightarrow> sums_valid st'"
    "treeSize st' = treeSize st" "nodeIndex st = None \<Longrightarrow> nodeIndex st' = None"
proof -
  consider "index < 0" "st' = st" "is_panic r" | "int (slice_len (Nodes st)) \<le> index" "0 \<le> index" "st' = st" "is_fail r"
    | "0 \<le> index" "index < int (slice_len (Nodes st))"
    using assms by (cases "index < 0"; cases "index < int (slice_len (Nodes st))")
      (auto simp: RemoveNodeAtIndex_def index_get_def)
  note cases = this
  from cases show "is_panic r \<longleftrightarrow> index < 0"
    by cases (use assms in \<open>auto simp: RemoveNodeAtIndex_Ok is_fail_iff\<close>)
  from cases show "within st \<Longrightarrow> within st'"
    by cases (use assms slice_len_remove_elem [of "nat index" "Nodes st"] in
      \<open>auto simp: RemoveNodeAtIndex_Ok within_def\<close>)
  from cases show "sums_valid st \<Longrightarrow> sums_valid st'"
    by cases (use assms in \<open>auto simp: RemoveNodeAtIndex_Ok sums_valid_def sum_list_remove slice_len_def
      simp del: map_append sum_list_append\<close>)
  from cases show "treeSize st' = treeSize st"
    by cases (use assms in \<open>auto simp: RemoveNodeAtIndex_Ok\<close>)
  from cases show "nodeIndex st = None \<Longrightarrow> nodeIndex st' = None"
    by cases (use assms in \<open>auto simp: RemoveNodeAtIndex_Ok\<close>)
qed

lemma index_nodes_Some:
  "index_nodes i ns m h = Some j \<Longrightarrow>
    (i \<le> j \<and> j < i + int (length ns) \<and> Hash (ns ! nat (j - i)) = h \<and>
      (\<forall>k. nat (j - i) < k \<and> k < length ns \<longrightarrow> Hash (ns ! k) \<noteq> h)) \<or>
    (m h = Some j \<and> h \<notin> Hash ` set ns)"
proof (induction ns rule: rev_induct)
  case (snoc n ns)
  show ?case
  proof (cases "Hash n = h")
    case True
    then show ?thesis using snoc.prems by (auto simp: index_nodes_snoc nth_append)
  next
    case False
    with snoc.prems have "index_nodes i ns m h = Some j" by (simp add: index_nodes_snoc)
    from snoc.IH [OF this] False show ?thesis by (auto simp: nth_append less_Suc_eq)
  qed
qed simp

lemma index_nodes_None: "index_nodes i ns Map.empty h = None \<longleftrightarrow> h \<notin> Hash ` set ns"
  by (induction ns rule: rev_induct) (auto simp: index_nodes_snoc)

lemma NodeIndex_valid:
  assumes "index_valid st"
  shows "NodeIndex h st =
    (st\<lparr>nodeIndex := Some (index_nodes 0 (node_list st) Map.empty)\<rparr>,
     case index_nodes 0 (node_list st) Map.empty h of Some i \<Rightarrow> i | None \<Rightarrow> - 1)"
  using assms by (cases "nodeIndex st") (auto simp: NodeIndex_def index_valid_def Let_def)

lemma NodeIndex_preserves:
  assumes "NodeIndex h st = (st', i)"
  shows "Nodes st' = Nodes st" "Fees st' = Fees st" "SizeInBytes st' = SizeInBytes st"
    "rootHash st' = rootHash st" "treeSize st' = treeSize st"
    "ConflictingNodes st' = ConflictingNodes st" "index_valid st \<Longrightarrow> index_valid st'"
  using assms by (auto simp: NodeIndex_def Let_def index_valid_def split: if_splits option.splits)

section \<open>Properties\<close>

text \<open>A growth that doubles, and a subtree of three of four leaves whose index is built.\<close>

definition doubling :: growth where
  "doubling cap need = max need (2 * cap)"

definition indexed_subtree :: subtree where
  "indexed_subtree = zero_subtree\<lparr>Height := 2, treeSize := 4, Fees := 60, SizeInBytes := 600,
     Nodes := Slice [leaf 1, leaf 2, leaf 3] [zero_node],
     nodeIndex := Some (index_nodes 0 [leaf 1, leaf 2, leaf 3] Map.empty)\<rparr>"

lemma indexed_subtree_valid: "index_valid indexed_subtree" "sums_valid indexed_subtree" "within indexed_subtree"
  by (simp_all add: index_valid_def indexed_subtree_def sums_valid_def leaf_def within_def slice_len_def)

text \<open>A new tree of height \<open>h\<close> takes any \<open>2^h\<close> nodes that are not the coinbase placeholder, in
  order and without moving its array; its fees and size are the sums over the nodes, it is complete
  exactly when \<open>2^h\<close> nodes are in it, and then every further node is refused with
  \<open>ErrSubtreeFull\<close> and no change.\<close>

theorem new_tree_filled:
  assumes "0 \<le> height" and "height \<le> 42" and "NewTree height = Ok st"
    and "\<forall>n\<in>set ns. Hash n \<noteq> CoinbasePlaceholder" and "length ns \<le> 2 ^ nat height"
  shows "\<exists>st'. add_nodes (AddSubtreeNode grow) ns st = (st', Ok ()) \<and> node_list st' = ns \<and>
    Fees st' = sum_list (map Fee ns) \<and> SizeInBytes st' = sum_list (map NodeSizeInBytes ns) \<and>
    Size st' = 2 ^ nat height \<and> (IsComplete st' \<longleftrightarrow> length ns = 2 ^ nat height) \<and>
    (IsComplete st' \<longrightarrow> (\<forall>n. AddSubtreeNode grow n st' = (st', Fail ErrSubtreeFull)))"
proof -
  have st: "node_list st = []" "slice_cap (Nodes st) = 2 ^ nat height" "treeSize st = 2 ^ nat height"
    "sums_valid st" "index_valid st"
    using assms(3) by (auto simp: NewTree_eq_Ok slice_cap_def sums_valid_def index_valid_def
        zero_subtree_def)
  moreover have "int (length ns) \<le> 2 ^ nat height"
    using assms(5) by (metis of_nat_le_iff of_nat_numeral of_nat_power)
  ultimately obtain st' where st': "add_nodes (AddSubtreeNode grow) ns st = (st', Ok ())"
    "node_list st' = ns" "slice_cap (Nodes st') = 2 ^ nat height" "treeSize st' = 2 ^ nat height"
    "sums_valid st'"
    using add_subtree_node.add_nodes_ok [of ns st grow] assms(4) by (auto simp: slice_len_def)
  moreover have complete: "IsComplete st' \<longleftrightarrow> length ns = 2 ^ nat height"
    using st'(2,3) by (simp add: IsComplete_def slice_len_def)
  moreover have "AddSubtreeNode grow n st' = (st', Fail ErrSubtreeFull)" if "IsComplete st'" for n
    using that st'(2,4) complete by (intro add_subtree_node.add_full) (simp add: slice_len_def)
  ultimately show ?thesis by (auto simp: sums_valid_def Size_def)
qed

theorem new_tree_filled_witness:
  "\<exists>st st'. NewTree 1 = Ok st \<and> add_nodes (AddSubtreeNode doubling) [leaf 1, leaf 2] st = (st', Ok ()) \<and>
    node_list st' = [leaf 1, leaf 2] \<and> Fees st' = 30 \<and> IsComplete st'"
proof -
  obtain st where "NewTree 1 = Ok st" by (simp add: NewTree_eq_Ok)
  moreover have "sum_list (map Fee [leaf 1, leaf 2]) = 30" by (simp add: leaf_def)
  ultimately show ?thesis
    using new_tree_filled [of 1 st "[leaf 1, leaf 2]" doubling]
    by (auto simp: leaf_def CoinbasePlaceholder_eq)
qed

text \<open>\<open>NewIncompleteTreeByLeafCount\<close> makes an empty tree whose size is the least power of two
  that holds the leaves, for every number of leaves up to \<open>2^42\<close>.\<close>

theorem incomplete_tree_capacity:
  assumes "1 \<le> leafs" and "leafs \<le> 2 ^ 42"
  shows "\<exists>st. NewIncompleteTreeByLeafCount leafs = Ok st \<and> node_list st = [] \<and>
    leafs \<le> treeSize st \<and> treeSize st = int (Size st) \<and> IsPowerOfTwo (treeSize st) \<and>
    (\<forall>k. leafs \<le> 2 ^ k \<longrightarrow> treeSize st \<le> 2 ^ k)"
proof -
  let ?k = "clog2 (nat leafs)"
  have "nat leafs \<le> 2 ^ 42" using assms by (simp add: nat_le_iff)
  then have "?k \<le> 42" by (simp only: clog2_le_iff)
  then obtain st where st: "NewTree (int ?k) = Ok st" and
    eq: "node_list st = []" "slice_cap (Nodes st) = 2 ^ ?k" "treeSize st = 2 ^ ?k"
    using NewTree_Ok [of "int ?k"] by (auto simp: slice_cap_def)
  have "NewIncompleteTreeByLeafCount leafs = Ok st"
    using st assms(1) by (simp add: NewIncompleteTreeByLeafCount_def ceil_log2_def)
  moreover have "leafs \<le> 2 ^ ?k"
    using clog2_upper [of "nat leafs"] assms(1) by (metis nat_le_iff of_nat_numeral of_nat_power)
  moreover have "(2::int) ^ ?k \<le> 2 ^ k" if "leafs \<le> 2 ^ k" for k
  proof -
    have "nat leafs \<le> 2 ^ k" using that by (simp add: nat_le_iff)
    then show ?thesis by (intro power_increasing) (simp_all add: clog2_le_iff)
  qed
  ultimately show ?thesis using eq by (auto simp: Size_def IsPowerOfTwo_iff)
qed

theorem incomplete_tree_capacity_witness:
  "\<exists>st. NewIncompleteTreeByLeafCount 5 = Ok st \<and> 5 \<le> treeSize st \<and> IsPowerOfTwo (treeSize st)"
  using incomplete_tree_capacity [of 5] by auto

text \<open>C28: As long as no index was built, or the one that was built is the index of the nodes, \<open>NodeIndex\<close>
  builds it if need be and returns the last place of the hash, or -1 exactly when no node has it, and
  \<open>GetNode\<close> returns the node at that place or \<open>ErrNodeNotFound\<close>.  \<open>AddSubtreeNode\<close>,
  \<open>AddSubtreeNodeWithoutLock\<close> and \<open>AddNode\<close> keep a built index right; \<open>RemoveNodeAtIndex\<close>,
  \<open>ReplaceRootNode\<close>, \<open>AddCoinbaseNode\<close>, \<open>ReleaseNodes\<close> and reading into the subtree do not.\<close>

theorem NodeIndex_finds:
  assumes "index_valid st" and "NodeIndex h st = (st', i)"
  shows "index_valid st' \<and> Nodes st' = Nodes st \<and>
    (if h \<in> Hash ` set (node_list st)
     then 0 \<le> i \<and> nat i < length (node_list st) \<and> Hash (node_list st ! nat i) = h \<and>
       (\<forall>k < length (node_list st). nat i < k \<longrightarrow> Hash (node_list st ! k) \<noteq> h) \<and>
       GetNode h st = (st', Ok (node_list st ! nat i))
     else i = - 1 \<and> GetNode h st = (st', Fail ErrNodeNotFound))"
proof -
  let ?m = "index_nodes 0 (node_list st) Map.empty"
  have st': "st' = st\<lparr>nodeIndex := Some ?m\<rparr>" and i: "i = (case ?m h of Some i \<Rightarrow> i | None \<Rightarrow> - 1)"
    using assms by (simp_all add: NodeIndex_valid)
  have get: "GetNode h st =
      (if i \<noteq> - 1 then (st', index_get (node_list st') i) else (st', Fail ErrNodeNotFound))"
    using assms(2) by (simp add: GetNode_def)
  show ?thesis
  proof (cases "?m h")
    case None
    then show ?thesis
      using index_nodes_None [of 0 "node_list st" h] i get st' by (simp add: index_valid_def)
  next
    case (Some j)
    moreover from index_nodes_Some [OF Some]
    have j: "0 \<le> j" "nat j < length (node_list st)" "Hash (node_list st ! nat j) = h"
      "\<forall>k. nat j < k \<and> k < length (node_list st) \<longrightarrow> Hash (node_list st ! k) \<noteq> h" by auto
    moreover from j have "h \<in> Hash ` set (node_list st)" by force
    moreover have "index_get (node_list st) j = Ok (node_list st ! nat j)"
      using j(1,2) by (simp add: index_get_def)
    ultimately show ?thesis using i get st' by (simp add: index_valid_def)
  qed
qed

theorem NodeIndex_finds_witness:
  "\<exists>st' i. NodeIndex 3 indexed_subtree = (st', i) \<and> 0 \<le> i \<and>
    GetNode 3 indexed_subtree = (st', Ok (node_list indexed_subtree ! nat i))"
proof -
  obtain st' i where ni: "NodeIndex 3 indexed_subtree = (st', i)" by fastforce
  have "3 \<in> Hash ` set (node_list indexed_subtree)" by (simp add: indexed_subtree_def leaf_def)
  with NodeIndex_finds [OF indexed_subtree_valid(1) ni] ni show ?thesis by simp
qed

text \<open>\<open>RemoveNodeAtIndex\<close> undoes an addition: removing the node just added gives back the
  nodes, the fees and the size, whatever they were (also across the wrap-around of the sums).\<close>

theorem add_then_remove:
  assumes "AddSubtreeNode grow n st = (st1, Ok ())"
    and "RemoveNodeAtIndex (int (Length st)) st1 = (st2, r)"
  shows "r = Ok () \<and> node_list st2 = node_list st \<and> Fees st2 = Fees st \<and>
    SizeInBytes st2 = SizeInBytes st \<and> treeSize st2 = treeSize st"
proof -
  have st1: "st1 = push grow n st" using assms(1) by (auto simp: AddSubtreeNode_eq split: if_splits)
  then have "node_list st1 ! slice_len (Nodes st) = n" by (simp add: slice_len_def)
  with assms(2) show ?thesis
    by (subst (asm) RemoveNodeAtIndex_Ok) (auto simp: st1 Length_def slice_len_def)
qed

theorem add_then_remove_witness:
  "\<exists>st1 st2. AddSubtreeNode doubling (leaf 4) indexed_subtree = (st1, Ok ()) \<and>
    RemoveNodeAtIndex 3 st1 = (st2, Ok ()) \<and> node_list st2 = node_list indexed_subtree"
proof -
  obtain st1 where add: "AddSubtreeNode doubling (leaf 4) indexed_subtree = (st1, Ok ())"
    by (simp add: AddSubtreeNode_eq indexed_subtree_def slice_len_def leaf_def CoinbasePlaceholder_eq)
  obtain st2 r where rem: "RemoveNodeAtIndex 3 st1 = (st2, r)" by fastforce
  have "int (Length indexed_subtree) = 3" by (simp add: Length_def indexed_subtree_def slice_len_def)
  with add_then_remove [OF add, of st2 r] add rem show ?thesis by auto
qed

text \<open>C35: Removing a node does not renumber an index that is already built: a later node keeps its
  old number there, although it has moved one place to the left, and looking up the last node
  panics.\<close>

theorem remove_leaves_stale_index:
  assumes "nodeIndex st \<noteq> None" and "index_valid st" and "distinct (map Hash (node_list st))"
    and "i < j" and "j < length (node_list st)"
    and "RemoveNodeAtIndex (int i) st = (st1, Ok ())"
  shows "node_list st1 ! (j - 1) = node_list st ! j \<and>
    snd (NodeIndex (Hash (node_list st ! j)) st1) = int j \<and>
    (j = length (node_list st) - 1 \<longrightarrow> is_panic (snd (GetNode (Hash (node_list st ! j)) st1)))"
proof -
  let ?h = "Hash (node_list st ! j)" and ?m = "index_nodes 0 (node_list st) Map.empty"
  have idx: "nodeIndex st = Some ?m" using assms(1,2) by (auto simp: index_valid_def)
  have "?m ?h \<noteq> None" using index_nodes_None [of 0 "node_list st" ?h] assms(5) by auto
  then obtain k where k: "?m ?h = Some k" by blast
  from index_nodes_Some [OF k] have "nat k = j" "0 \<le> k"
    using assms(3,5) by (auto simp: distinct_conv_nth)
  then have m: "?m ?h = Some (int j)" using k by auto
  have ne: "Hash (node_list st ! i) \<noteq> ?h" using assms(3-5) by (auto simp: distinct_conv_nth)
  have st1: "node_list st1 = take i (node_list st) @ drop (Suc i) (node_list st)"
    "nodeIndex st1 = Some (?m(Hash (node_list st ! i) := None))"
    using assms(4-6) RemoveNodeAtIndex_Ok [of "int i" st] idx by (auto simp: slice_len_def)
  have "snd (NodeIndex ?h st1) = int j"
    using st1(2) m ne by (simp add: NodeIndex_def)
  moreover have "is_panic (snd (GetNode ?h st1))" if "j = length (node_list st) - 1"
    using st1 m ne that assms(4,5) by (auto simp: GetNode_def NodeIndex_def index_get_def)
  ultimately show ?thesis using st1(1) assms(4,5) by (auto simp: nth_append)
qed

theorem remove_leaves_stale_index_witness:
  "\<exists>st1. RemoveNodeAtIndex 0 indexed_subtree = (st1, Ok ()) \<and> snd (NodeIndex 3 st1) = 2 \<and>
    is_panic (snd (GetNode 3 st1))"
proof -
  obtain st1 where "RemoveNodeAtIndex (int 0) indexed_subtree = (st1, Ok ())"
    by (simp add: RemoveNodeAtIndex_Ok indexed_subtree_def slice_len_def)
  with remove_leaves_stale_index [of indexed_subtree 0 2 st1] indexed_subtree_valid(1)
  show ?thesis by (simp add: indexed_subtree_def leaf_def)
qed

text \<open>\<open>AddConflictingNode\<close> succeeds exactly for the hashes of the nodes of the subtree, records
  each once, and keeps the conflicting nodes distinct and among the nodes.\<close>

theorem AddConflictingNode_among_nodes:
  assumes "distinct (elems (ConflictingNodes st))"
    and "set (elems (ConflictingNodes st)) \<subseteq> Hash ` set (node_list st)"
    and "AddConflictingNode grow h st = (st', r)"
  shows "distinct (elems (ConflictingNodes st')) \<and>
    set (elems (ConflictingNodes st')) \<subseteq> Hash ` set (node_list st') \<and> Nodes st' = Nodes st \<and>
    (if h \<in> Hash ` set (node_list st)
     then r = Ok () \<and> set (elems (ConflictingNodes st')) = insert h (set (elems (ConflictingNodes st)))
     else r = Fail ErrConflictingNodeNotInSubtree \<and>
       elems (ConflictingNodes st') = elems (ConflictingNodes st))"
  using assms by (auto simp: AddConflictingNode_def Let_def list_ex_iff split: if_splits)

theorem AddConflictingNode_among_nodes_witness:
  "\<exists>st'. AddConflictingNode doubling 3 indexed_subtree = (st', Ok ()) \<and>
    set (elems (ConflictingNodes st')) = {3}"
proof -
  obtain st' r where "AddConflictingNode doubling 3 indexed_subtree = (st', r)" by fastforce
  with AddConflictingNode_among_nodes [of indexed_subtree doubling 3 st' r] show ?thesis
    by (simp add: indexed_subtree_def leaf_def zero_subtree_def)
qed

lemma put_nodes_lookup:
  assumes put: "\<And>m h v h'. lookup m h = None \<Longrightarrow>
      lookup (Put m h v) h' = (if h' = h then Some v else lookup m h')"
  shows "distinct (map Hash ns) \<Longrightarrow> \<forall>n\<in>set ns. lookup m (Hash n) = None \<Longrightarrow>
    (\<forall>i<length ns. lookup (put_nodes Put b ns m) (Hash (ns ! i)) = Some (of_nat (b + i))) \<and>
    (\<forall>h. h \<notin> Hash ` set ns \<longrightarrow> lookup (put_nodes Put b ns m) h = lookup m h)"
proof (induction ns arbitrary: b m)
  case (Cons n ns)
  let ?m = "Put m (Hash n) (of_nat b)"
  have m: "lookup ?m h = (if h = Hash n then Some (of_nat b) else lookup m h)" for h
    using Cons.prems(2) by (simp add: put)
  have fresh: "\<forall>x\<in>set ns. lookup ?m (Hash x) = None" using Cons.prems by (auto simp: m image_iff)
  have IH: "\<forall>i<length ns. lookup (put_nodes Put (b + 1) ns ?m) (Hash (ns ! i)) = Some (of_nat (b + 1 + i))"
    "\<forall>h. h \<notin> Hash ` set ns \<longrightarrow> lookup (put_nodes Put (b + 1) ns ?m) h = lookup ?m h"
    using Cons.IH [OF _ fresh, of "b + 1"] Cons.prems(1) by simp_all
  have "lookup (put_nodes Put b (n # ns) m) (Hash ((n # ns) ! i)) = Some (of_nat (b + i))"
    if "i < length (n # ns)" for i
    using that IH Cons.prems(1) m by (cases i) auto
  then show ?case using IH(2) m by simp
qed simp

text \<open>\<open>GetMap\<close> maps every hash to the place of its node and no other hash to anything, for
  distinct hashes, a map that starts empty and a \<open>Put\<close> that stores what it is given under a new key
  and keeps the other keys.\<close>

theorem GetMap_maps:
  assumes "IntToUint32 (int (Length st)) = Ok l" and "distinct (map Hash (node_list st))"
    and "\<And>h. lookup (NewSwissMapUint64 l) h = None"
    and "\<And>m h v h'. lookup m h = None \<Longrightarrow>
      lookup (Put m h v) h' = (if h' = h then Some v else lookup m h')"
  shows "\<exists>m. GetMap IntToUint32 NewSwissMapUint64 Put st = Ok m \<and>
    (\<forall>i<length (node_list st). lookup m (Hash (node_list st ! i)) = Some (of_nat i)) \<and>
    (\<forall>h. h \<notin> Hash ` set (node_list st) \<longrightarrow> lookup m h = None)"
  using put_nodes_lookup [of lookup Put "node_list st" "NewSwissMapUint64 l" 0] assms
  by (auto simp: GetMap_def Length_def)

theorem GetMap_maps_witness:
  "\<exists>m. GetMap (\<lambda>i. Ok (of_int i)) (\<lambda>_. Map.empty) (\<lambda>m h v. if m h = None then m(h \<mapsto> v) else m)
      indexed_subtree = Ok m \<and> m 2 = Some 1 \<and> m 4 = None"
proof -
  obtain m where m: "GetMap (\<lambda>i. Ok (of_int i)) (\<lambda>_. Map.empty)
      (\<lambda>m h v. if m h = None then m(h \<mapsto> v) else m) indexed_subtree = Ok m"
    "\<forall>i<3. m (Hash (node_list indexed_subtree ! i)) = Some (of_nat i)"
    "\<forall>h. h \<notin> Hash ` set (node_list indexed_subtree) \<longrightarrow> m h = None"
    using GetMap_maps [of "\<lambda>i. Ok (of_int i)" indexed_subtree "of_int (int (Length indexed_subtree))" "\<lambda>m h. m h"
        "\<lambda>_. Map.empty" "\<lambda>m h v. if m h = None then m(h \<mapsto> v) else m"]
    by (auto simp: indexed_subtree_def leaf_def split: if_splits)
  have "m (Hash (node_list indexed_subtree ! 1)) = Some 1" using m(2) by (auto dest: spec [of _ 1])
  moreover have "m 4 = None" using m(3) by (auto simp: indexed_subtree_def leaf_def)
  ultimately show ?thesis using m(1) by (simp add: indexed_subtree_def leaf_def)
qed

end
