(* ===== verification/Subtree_Root.thy ===== *)
theory Subtree_Root
  imports Subtree
begin

text \<open>
  \<open>subtree.go\<close>, second part, with \<open>merkle_tree.go\<close>'s \<open>GetMerkleProofForCoinbase\<close>: the root hash of
  a subtree and its cache, the root lifted to a height, and merkle proofs, against the tree of
  \<open>Merkle_Spec\<close>.  Receivers that the code tests for nil are options.
\<close>

section \<open>Roots\<close>

definition RootHash :: "sha256 \<Rightarrow> subtree option \<Rightarrow> subtree option \<times> hash option outcome" where
  "RootHash sha st =
     (case st of
        None \<Rightarrow> (st, Ok None)
      | Some s \<Rightarrow>
          if rootHash s \<noteq> None then (st, Ok (rootHash s))
          else if Length s = 0 then (st, Ok None)
          else
            (case BuildMerkleTreeStoreFromBytes sha (elems (Nodes s)) of
               Fail _ \<Rightarrow> (st, Ok None)
             | Panic p \<Rightarrow> (st, Panic p)
             | Ok store \<Rightarrow>
                 (case index_get store (int (length store) - 1) of
                    Ok h \<Rightarrow> (Some (s\<lparr>rootHash := Some h\<rparr>), Ok (Some h))
                  | Fail e \<Rightarrow> (st, Fail e)
                  | Panic p \<Rightarrow> (st, Panic p))))"

text \<open>The same with a receiver that is not nil.\<close>

definition root_hash :: "sha256 \<Rightarrow> subtree \<Rightarrow> subtree \<times> hash option outcome" where
  "root_hash sha s = (case RootHash sha (Some s) of (st, r) \<Rightarrow> (the st, r))"

definition ReplaceRootNode ::
  "growth \<Rightarrow> sha256 \<Rightarrow> hash \<Rightarrow> uint64 \<Rightarrow> uint64 \<Rightarrow> subtree \<Rightarrow> subtree \<times> hash option outcome" where
  "ReplaceRootNode grow sha node fee sizeInBytes st =
     (let n = \<lparr>Hash = node, Fee = fee, NodeSizeInBytes = sizeInBytes\<rparr>;
          st1 = (if slice_len (Nodes st) < 1
                 then st\<lparr>Nodes := append_elem grow zero_node (Nodes st) n\<rparr>
                 else st\<lparr>Nodes := Slice ((elems (Nodes st))[0 := n]) (spare (Nodes st))\<rparr>);
          st2 = st1\<lparr>rootHash := None, SizeInBytes := SizeInBytes st1 + sizeInBytes\<rparr>
      in root_hash sha st2)"

text \<open>The loop of \<open>RootHashPadded\<close>: the root hashed with itself \<open>n\<close> times.\<close>

primrec lift_root :: "sha256 \<Rightarrow> nat \<Rightarrow> hash \<Rightarrow> hash" where
  "lift_root sha 0 root = root"
| "lift_root sha (Suc n) root =
     (let buf = hash_bytes root @ hash_bytes root; first = sha buf
      in lift_root sha n (sha (hash_bytes first)))"

definition RootHashPadded ::
  "sha256 \<Rightarrow> int \<Rightarrow> subtree option \<Rightarrow> subtree option \<times> hash option outcome" where
  "RootHashPadded sha targetHeight st =
     (case st of
        None \<Rightarrow> (st, Fail ErrSubtreeNil)
      | Some s \<Rightarrow>
          (let len = Length s in
           if len = 0 then (st, Ok None)
           else
             (let actualHeight = int (bits_Len (of_nat (len - 1))) in
              if targetHeight < actualHeight then (st, Fail ErrTargetHeightTooSmall)
              else
                (case RootHash sha st of
                   (st', Ok (Some root)) \<Rightarrow>
                     (st', Ok (Some (lift_root sha (nat (targetHeight - actualHeight)) root)))
                 | (st', Ok None) \<Rightarrow> (st', Panic NilDereference)
                 | (st', Fail e) \<Rightarrow> (st', Fail e)
                 | (st', Panic p) \<Rightarrow> (st', Panic p)))))"

definition RootHashWithReplaceRootNode ::
  "growth \<Rightarrow> sha256 \<Rightarrow> hash \<Rightarrow> uint64 \<Rightarrow> uint64 \<Rightarrow> subtree option \<Rightarrow> hash outcome" where
  "RootHashWithReplaceRootNode grow sha node fee sizeInBytes st =
     (case st of
        None \<Rightarrow> Fail ErrSubtreeNil
      | Some s \<Rightarrow>
          (case ReplaceRootNode grow sha node fee sizeInBytes (Duplicate s) of
             (_, Panic p) \<Rightarrow> Panic p
           | (subtreeClone, _) \<Rightarrow>
               obind (BuildMerkleTreeStoreFromBytes sha (elems (Nodes subtreeClone))) (\<lambda>store.
               index_get store (int (length store) - 1))))"

section \<open>Merkle proofs\<close>

definition getLeafSiblingHash :: "node list \<Rightarrow> int \<Rightarrow> hash outcome" where
  "getLeafSiblingHash nodes index =
     (if index mod 2 = 0 then
        (if index + 1 \<ge> int (length nodes) then omap Hash (index_get nodes index)
         else omap Hash (index_get nodes (index + 1)))
      else omap Hash (index_get nodes (index - 1)))"

text \<open>\<open>&&\<close> does not evaluate its second operand when the first is false.\<close>

definition calculateTreePosition :: "hash list \<Rightarrow> int \<Rightarrow> int \<Rightarrow> int \<Rightarrow> int outcome" where
  "calculateTreePosition merkleTree treeIndexPos treeIndex totalLength =
     (let treePos = treeIndexPos + treeIndex in
      if treePos mod 2 = 0 then
        (if totalLength > treePos + 1 then
           obind (index_get merkleTree (treePos + 1)) (\<lambda>h.
           if h \<noteq> 0 then Ok (treePos + 1) else Ok treePos)
         else Ok treePos)
      else
        obind (index_get merkleTree (treePos - 1)) (\<lambda>h.
        if h \<noteq> 0 then Ok (treePos - 1) else Ok treePos))"

text \<open>The loop over the levels, from \<open>i = height\<close> down to 1.\<close>

fun proof_loop ::
  "node list \<Rightarrow> hash list \<Rightarrow> int \<Rightarrow> nat \<Rightarrow> int \<Rightarrow> nat \<Rightarrow> int \<Rightarrow> int \<Rightarrow> hash list \<Rightarrow> hash list outcome" where
  "proof_loop nodes merkleTree index height totalLength 0 treeIndexPos treeIndex acc = Ok acc"
| "proof_loop nodes merkleTree index height totalLength (Suc i) treeIndexPos treeIndex acc =
     (if Suc i = height then
        obind (getLeafSiblingHash nodes index) (\<lambda>siblingHash.
        proof_loop nodes merkleTree index height totalLength i treeIndexPos (treeIndex div 2)
          (acc @ [siblingHash]))
      else
        obind (calculateTreePosition merkleTree treeIndexPos treeIndex totalLength) (\<lambda>treePos.
        obind (index_get merkleTree treePos) (\<lambda>h.
        proof_loop nodes merkleTree index height totalLength i (treeIndexPos + 2 ^ Suc i)
          (treeIndex div 2) (acc @ [h]))))"

definition GetMerkleProof :: "sha256 \<Rightarrow> int \<Rightarrow> subtree \<Rightarrow> hash list outcome" where
  "GetMerkleProof sha index st =
     (let nodes = elems (Nodes st) in
      if index \<ge> int (length nodes) then Fail ErrIndexOutOfRange
      else
        obind (BuildMerkleTreeStoreFromBytes sha nodes) (\<lambda>merkleTree.
        (let height = ceil_log2 (int (length nodes));
             totalLength = pow2_int height + int (length merkleTree)
         in obind (make_slice 8 (0 :: hash) 0 height) (\<lambda>_.
            proof_loop nodes merkleTree index (nat height) totalLength (nat height) 0 index []))))"

text \<open>The subtrees are pointers that are not nil; \<open>RootHash\<close> fills their caches.\<close>

fun add_roots ::
  "growth \<Rightarrow> sha256 \<Rightarrow> subtree list \<Rightarrow> subtree \<Rightarrow> subtree list \<times> subtree outcome" where
  "add_roots grow sha [] topTree = ([], Ok topTree)"
| "add_roots grow sha (s # ss) topTree =
     (case root_hash sha s of
        (s', Ok (Some root)) \<Rightarrow>
          (case AddNode grow root (Fees s') (SizeInBytes s') topTree of
             (topTree', Ok _) \<Rightarrow>
               (case add_roots grow sha ss topTree' of (ss', r) \<Rightarrow> (s' # ss', r))
           | (_, Fail e) \<Rightarrow> (s' # ss, Fail e)
           | (_, Panic p) \<Rightarrow> (s' # ss, Panic p))
      | (s', Ok None) \<Rightarrow> (s' # ss, Panic NilDereference)
      | (s', Fail e) \<Rightarrow> (s' # ss, Fail e)
      | (s', Panic p) \<Rightarrow> (s' # ss, Panic p))"

definition GetMerkleProofForCoinbase ::
  "growth \<Rightarrow> sha256 \<Rightarrow> subtree list \<Rightarrow> subtree list \<times> hash list outcome" where
  "GetMerkleProofForCoinbase grow sha subtrees =
     (case subtrees of
        [] \<Rightarrow> (subtrees, Fail ErrNoSubtreesAvailable)
      | first # _ \<Rightarrow>
          (case wrapping ''failed creating merkle proof for subtree: %w'' (GetMerkleProof sha 0 first) of
             Fail e \<Rightarrow> (subtrees, Fail e)
           | Panic p \<Rightarrow> (subtrees, Panic p)
           | Ok merkleProof \<Rightarrow>
               (case NewTreeByLeafCount (CeilPowerOfTwo (int (length subtrees))) of
                  Fail e \<Rightarrow> (subtrees, Fail e)
                | Panic p \<Rightarrow> (subtrees, Panic p)
                | Ok topTree \<Rightarrow>
                    (case add_roots grow sha subtrees topTree of
                       (subtrees', Fail e) \<Rightarrow> (subtrees', Fail e)
                     | (subtrees', Panic p) \<Rightarrow> (subtrees', Panic p)
                     | (subtrees', Ok topTree') \<Rightarrow>
                         (subtrees',
                          omap (\<lambda>topMerkleProof. merkleProof @ topMerkleProof)
                            (wrapping ''failed creating merkle proofs for top tree: %w''
                              (GetMerkleProof sha 0 topTree')))))))"

section \<open>The cached root\<close>

text \<open>A cached root is the one the nodes give.\<close>

definition cache_valid :: "sha256 \<Rightarrow> subtree \<Rightarrow> bool" where
  "cache_valid sha st =
     (\<forall>h. rootHash st = Some h \<longrightarrow>
       (\<exists>store. BuildMerkleTreeStoreFromBytes sha (node_list st) = Ok store \<and> store \<noteq> [] \<and>
         h = last store))"

lemma cache_valid_None [simp]: "rootHash st = None \<Longrightarrow> cache_valid sha st"
  by (simp add: cache_valid_def)

lemma index_get_last: "xs \<noteq> [] \<Longrightarrow> index_get xs (int (length xs) - 1) = Ok (last xs)"
  by (cases xs) (auto simp: index_get_def last_conv_nth nat_diff_distrib)

text \<open>What \<open>RootHash\<close> does to the receiver.\<close>

lemma root_hash_frame:
  assumes "root_hash sha s = (s', r)"
  shows "Nodes s' = Nodes s" "Fees s' = Fees s" "SizeInBytes s' = SizeInBytes s"
    "treeSize s' = treeSize s" "nodeIndex s' = nodeIndex s" "ConflictingNodes s' = ConflictingNodes s"
    "Height s' = Height s" "closer s' = closer s"
  using assms
  by (auto simp: root_hash_def RootHash_def split: if_splits outcome.splits)

lemma merkle_store_nonempty:
  "BuildMerkleTreeStoreFromBytes sha nodes = Ok store \<Longrightarrow> nodes \<noteq> [] \<Longrightarrow> allocatable nodes \<Longrightarrow>
    store \<noteq> []"
proof (cases "2 \<le> length nodes")
  case True
  then have "2 \<le> (2::nat) ^ clog2 (length nodes)"
    using clog2_upper [of "length nodes"] by linarith
  moreover assume "BuildMerkleTreeStoreFromBytes sha nodes = Ok store" "allocatable nodes"
  ultimately show ?thesis
    using BuildMerkleTreeStoreFromBytes_eq [OF True, of sha] by auto
next
  case False
  moreover assume "nodes \<noteq> []" "BuildMerkleTreeStoreFromBytes sha nodes = Ok store"
  ultimately show ?thesis by (cases nodes) (auto simp: Suc_le_eq)
qed

lemma root_hash_cases:
  assumes "cache_valid sha s" and "allocatable (node_list s)"
  obtains "node_list s = []" "root_hash sha s = (s, Ok None)"
  | h store where "node_list s \<noteq> []" "root_hash sha s = (s\<lparr>rootHash := Some h\<rparr>, Ok (Some h))"
    "BuildMerkleTreeStoreFromBytes sha (node_list s) = Ok store" "h = last store"
proof (cases "rootHash s")
  case (Some h)
  then have "s\<lparr>rootHash := Some h\<rparr> = s" by simp
  moreover obtain store where "BuildMerkleTreeStoreFromBytes sha (node_list s) = Ok store"
    "store \<noteq> []" "h = last store" using Some assms(1) by (auto simp: cache_valid_def)
  moreover from this have "node_list s \<noteq> []" by auto
  ultimately show thesis
    using Some by (intro that(2) [of h store]) (simp_all add: root_hash_def RootHash_def)
next
  case None
  show thesis
  proof (cases "node_list s = []")
    case True
    with None show thesis
      by (intro that(1)) (simp_all add: root_hash_def RootHash_def Length_def slice_len_def)
  next
    case False
    obtain store where st: "BuildMerkleTreeStoreFromBytes sha (node_list s) = Ok store"
      using BuildMerkleTreeStoreFromBytes_total [OF assms(2)] by blast
    then have "store \<noteq> []" using False assms(2) by (rule merkle_store_nonempty)
    with None False st show thesis
      by (intro that(2) [of "last store" store])
        (simp_all add: root_hash_def RootHash_def Length_def slice_len_def index_get_last)
  qed
qed

section \<open>The operations\<close>

text \<open>The calls that change a subtree in use, and what they leave behind.  \<open>GetNode\<close> and \<open>HasNode\<close> change
  it as \<open>NodeIndex\<close> does, \<open>Serialize\<close>, \<open>RootHashPadded\<close> and \<open>GetMerkleProofForCoinbase\<close> as \<open>RootHash\<close> does.\<close>

datatype operation =
    Do_AddSubtreeNode node
  | Do_AddSubtreeNodeWithoutLock node
  | Do_AddNode node
  | Do_AddCoinbaseNode
  | Do_AddConflictingNode hash
  | Do_RemoveNodeAtIndex int
  | Do_ReplaceRootNode hash uint64 uint64
  | Do_RootHash
  | Do_NodeIndex hash
  | Do_Duplicate

primrec perform :: "growth \<Rightarrow> sha256 \<Rightarrow> operation \<Rightarrow> subtree \<Rightarrow> subtree" where
  "perform grow sha (Do_AddSubtreeNode n) st = fst (AddSubtreeNode grow n st)"
| "perform grow sha (Do_AddSubtreeNodeWithoutLock n) st = fst (AddSubtreeNodeWithoutLock grow n st)"
| "perform grow sha (Do_AddNode n) st = fst (AddNode grow (Hash n) (Fee n) (NodeSizeInBytes n) st)"
| "perform grow sha Do_AddCoinbaseNode st = fst (AddCoinbaseNode grow st)"
| "perform grow sha (Do_AddConflictingNode h) st = fst (AddConflictingNode grow h st)"
| "perform grow sha (Do_RemoveNodeAtIndex i) st = fst (RemoveNodeAtIndex i st)"
| "perform grow sha (Do_ReplaceRootNode h fee sz) st = fst (ReplaceRootNode grow sha h fee sz st)"
| "perform grow sha Do_RootHash st = fst (root_hash sha st)"
| "perform grow sha (Do_NodeIndex h) st = fst (NodeIndex h st)"
| "perform grow sha Do_Duplicate st = Duplicate st"

text \<open>The tree keeps its size, the nodes stay within it, and the cache never goes stale.\<close>

definition sound :: "sha256 \<Rightarrow> subtree \<Rightarrow> bool" where
  "sound sha st = (within st \<and> 1 \<le> treeSize st \<and> treeSize st \<le> 2 ^ 42 \<and> cache_valid sha st)"

lemma sound_allocatable: "sound sha st \<Longrightarrow> allocatable (node_list st)"
  by (simp add: sound_def within_def allocatable_def slice_len_def max_alloc_def)

lemma sound_new: "NewTree height = Ok st \<Longrightarrow> sound sha st"
proof -
  assume *: "NewTree height = Ok st"
  then have "(2::int) ^ nat height \<le> 2 ^ 42" by (intro power_increasing) (auto simp: NewTree_eq_Ok)
  with * show ?thesis
    by (simp add: NewTree_eq_Ok sound_def within_def slice_len_def zero_subtree_def)
qed

lemma sound_push: "int (slice_len (Nodes st)) < treeSize st \<Longrightarrow> sound sha st \<Longrightarrow> sound sha (push grow n st)"
  by (simp add: sound_def within_def)

text \<open>Every operation that forgets the cached root is sound as soon as it respects the size.\<close>

lemma sound_forget:
  "sound sha st \<Longrightarrow> treeSize st' = treeSize st \<Longrightarrow> within st' \<Longrightarrow> rootHash st' = None \<Longrightarrow> sound sha st'"
  by (simp add: sound_def)

lemma sound_same_nodes:
  "sound sha st \<Longrightarrow> treeSize st' = treeSize st \<Longrightarrow> node_list st' = node_list st \<Longrightarrow>
    rootHash st' = rootHash st \<Longrightarrow> sound sha st'"
  by (simp add: sound_def within_def slice_len_def cache_valid_def)

lemma sound_root_hash:
  assumes "sound sha s"
  shows "sound sha (fst (root_hash sha s))" and "\<exists>res. snd (root_hash sha s) = Ok res"
proof -
  have alloc: "allocatable (node_list s)" using assms by (rule sound_allocatable)
  have cache: "cache_valid sha s" using assms by (simp add: sound_def)
  have "sound sha (fst (root_hash sha s)) \<and> (\<exists>res. snd (root_hash sha s) = Ok res)"
  proof (cases rule: root_hash_cases [OF cache alloc])
    case 1
    then show ?thesis using assms by simp
  next
    case (2 h store)
    then have "store \<noteq> []" using merkle_store_nonempty alloc by blast
    with 2 assms show ?thesis by (simp add: sound_def within_def cache_valid_def)
  qed
  then show "sound sha (fst (root_hash sha s))" and "\<exists>res. snd (root_hash sha s) = Ok res" by auto
qed

definition replaced :: "growth \<Rightarrow> node \<Rightarrow> subtree \<Rightarrow> subtree" where
  "replaced grow n st =
     (let st1 = (if slice_len (Nodes st) < 1
                 then st\<lparr>Nodes := append_elem grow zero_node (Nodes st) n\<rparr>
                 else st\<lparr>Nodes := Slice ((elems (Nodes st))[0 := n]) (spare (Nodes st))\<rparr>)
      in st1\<lparr>rootHash := None, SizeInBytes := SizeInBytes st1 + NodeSizeInBytes n\<rparr>)"

lemma ReplaceRootNode_eq:
  "ReplaceRootNode grow sha h fee sz st =
    root_hash sha (replaced grow \<lparr>Hash = h, Fee = fee, NodeSizeInBytes = sz\<rparr> st)"
  by (simp add: ReplaceRootNode_def replaced_def Let_def)

lemma replaced_simps:
  "node_list (replaced grow n st) = n # tl (node_list st)" "treeSize (replaced grow n st) = treeSize st"
  "rootHash (replaced grow n st) = None" "nodeIndex (replaced grow n st) = nodeIndex st"
  "Fees (replaced grow n st) = Fees st"
  by (cases "node_list st"; simp add: replaced_def Let_def slice_len_def)+

lemma sound_replaced: "sound sha st \<Longrightarrow> sound sha (replaced grow n st)"
  by (rule sound_forget; cases "node_list st")
    (auto simp: replaced_simps sound_def within_def slice_len_def)

lemma sound_perform: "sound sha st \<Longrightarrow> sound sha (perform grow sha op st)"
proof (cases op)
  case (Do_AddSubtreeNode n)
  assume "sound sha st"
  with Do_AddSubtreeNode show ?thesis
    by (cases rule: add_subtree_node.add_cases [of grow n st]) (simp_all add: sound_push)
next
  case (Do_AddSubtreeNodeWithoutLock n)
  assume "sound sha st"
  with Do_AddSubtreeNodeWithoutLock show ?thesis
    by (cases rule: add_without_lock.add_cases [of grow n st]) (simp_all add: sound_push)
next
  case (Do_AddNode n)
  assume "sound sha st"
  with Do_AddNode show ?thesis
    by (cases rule: add_node.add_cases [of grow n st]) (simp_all add: sound_push)
next
  case Do_AddCoinbaseNode
  assume "sound sha st"
  then show ?thesis
    using Do_AddCoinbaseNode by (auto simp: AddCoinbaseNode_def Let_def sound_def within_def slice_len_def)
next
  case (Do_AddConflictingNode h)
  assume *: "sound sha st"
  obtain st' r where "AddConflictingNode grow h st = (st', r)" by fastforce
  with * show ?thesis
    using Do_AddConflictingNode AddConflictingNode_preserves [of grow h st st' r]
    by (auto intro: sound_same_nodes)
next
  case (Do_RemoveNodeAtIndex i)
  assume *: "sound sha st"
  obtain st' r where rem: "RemoveNodeAtIndex i st = (st', r)" by fastforce
  note p = RemoveNodeAtIndex_preserves [OF rem]
  have "st' = st \<or> rootHash st' = None"
    using rem by (auto simp: RemoveNodeAtIndex_def Let_def split: if_splits outcome.splits option.splits)
  with * p show ?thesis using rem Do_RemoveNodeAtIndex by (auto simp: sound_def)
next
  case (Do_ReplaceRootNode h fee sz)
  assume "sound sha st"
  then show ?thesis
    using Do_ReplaceRootNode by (simp add: ReplaceRootNode_eq sound_root_hash(1) sound_replaced)
next
  case Do_RootHash
  assume "sound sha st"
  with Do_RootHash show ?thesis by (simp add: sound_root_hash(1))
next
  case (Do_NodeIndex h)
  assume *: "sound sha st"
  obtain st' i where "NodeIndex h st = (st', i)" by fastforce
  with * show ?thesis
    using Do_NodeIndex NodeIndex_preserves [of h st st' i] by (auto intro: sound_same_nodes)
next
  case Do_Duplicate
  assume "sound sha st"
  then show ?thesis
    by (rule sound_same_nodes) (simp_all add: Do_Duplicate Duplicate_def)
qed

text \<open>Fees and size are the sums unless \<open>ReplaceRootNode\<close> is used.\<close>

lemma sums_valid_same:
  "sums_valid st \<Longrightarrow> node_list st' = node_list st \<Longrightarrow> Fees st' = Fees st \<Longrightarrow>
    SizeInBytes st' = SizeInBytes st \<Longrightarrow> sums_valid st'"
  by (simp add: sums_valid_def)

lemmas frames =
  root_hash_frame [OF prod.collapse [symmetric]]
  AddConflictingNode_preserves [OF prod.collapse [symmetric]]
  NodeIndex_preserves(1-6) [OF prod.collapse [symmetric]]

lemma sums_valid_perform:
  "sums_valid st \<Longrightarrow> (\<forall>h fee sz. op \<noteq> Do_ReplaceRootNode h fee sz) \<Longrightarrow>
    sums_valid (perform grow sha op st)"
  by (cases op)
    (auto intro: sums_valid_same [of st] add_subtree_node.add_preserves(3) add_without_lock.add_preserves(3)
      add_node.add_preserves(3) AddCoinbaseNode_preserves(3) RemoveNodeAtIndex_preserves(3)
      simp: frames Duplicate_def
      intro!: prod.collapse [symmetric])

text \<open>An index stays the index of the nodes while the nodes only grow through the adding operations.\<close>

fun keeps_index :: "operation \<Rightarrow> bool" where
  "keeps_index (Do_RemoveNodeAtIndex i) = False"
| "keeps_index (Do_ReplaceRootNode h fee sz) = False"
| "keeps_index Do_AddCoinbaseNode = False"
| "keeps_index op = True"

lemma index_valid_same:
  "index_valid st \<Longrightarrow> node_list st' = node_list st \<Longrightarrow> nodeIndex st' = nodeIndex st \<Longrightarrow>
    index_valid st'"
  by (cases "nodeIndex st") (simp_all add: index_valid_def)

lemma index_valid_Duplicate: "index_valid (Duplicate st)"
  by (simp add: index_valid_def Duplicate_def zero_subtree_def)

lemma index_valid_perform: "index_valid st \<Longrightarrow> keeps_index op \<Longrightarrow> index_valid (perform grow sha op st)"
  by (cases op)
    (auto intro: index_valid_same [of st] index_valid_Duplicate add_subtree_node.add_preserves(4)
      add_without_lock.add_preserves(4) add_node.add_preserves(4) NodeIndex_preserves(7) simp: frames
      intro!: prod.collapse [symmetric])

fun keeps_sums :: "operation \<Rightarrow> bool" where
  "keeps_sums (Do_ReplaceRootNode h fee sz) = False"
| "keeps_sums op = True"

section \<open>Roots against the specification\<close>

abbreviation hashes :: "subtree \<Rightarrow> hash list" where
  "hashes st \<equiv> map Hash (node_list st)"

lemma root_hash_merkle:
  assumes "cache_valid sha s" and "allocatable (node_list s)"
    and "tree_nonzero (hash_pair sha) (hashes s)" and "node_list s \<noteq> []"
  shows "root_hash sha s =
    (s\<lparr>rootHash := Some (merkle_root (hash_pair sha) (hashes s))\<rparr>,
     Ok (Some (merkle_root (hash_pair sha) (hashes s))))"
proof -
  obtain h store where "root_hash sha s = (s\<lparr>rootHash := Some h\<rparr>, Ok (Some h))"
    "BuildMerkleTreeStoreFromBytes sha (node_list s) = Ok store" "h = last store"
    using root_hash_cases [OF assms(1,2)] assms(4) by metis
  with BuildMerkleTreeStoreFromBytes_root [OF assms(4,2,3)] show ?thesis by simp
qed

lemma RootHash_root_hash: "RootHash sha (Some s) = (case root_hash sha s of (s', r) \<Rightarrow> (Some s', r))"
  by (auto simp: root_hash_def RootHash_def split: prod.split outcome.split)

lemma lift_root_funpow: "lift_root sha n root = ((\<lambda>x. hash_pair sha x x) ^^ n) root"
  by (induction n arbitrary: root)
    (simp_all add: Let_def funpow_Suc_right del: funpow.simps(2) flip: hash_pair_def)

lemma bits_Len_pred:
  assumes "1 \<le> n" and "n < 2 ^ 63"
  shows "bits_Len (of_nat (n - 1)) = clog2 n"
proof (cases "n = 1")
  case False
  define m where "m = n - 1"
  have m: "0 < m" "n = Suc m" using assms False by (simp_all add: m_def)
  have u: "unat (of_nat m :: uint64) = m" using m assms(2) by (intro unat_uint64_of_nat) simp
  have "unat (of_nat m :: uint64) \<noteq> unat (0 :: uint64)" using m(1) by (simp only: u unat_0)
  then have "(of_nat m :: uint64) \<noteq> 0" by (rule contrapos_nn) (simp only:)
  from bits_Len_pos [OF this] have len: "bits_Len (of_nat m) = Suc (flog2 m)" by (simp only: u)
  have "n \<le> 2 ^ Suc (flog2 m)"
    using flog2_upper [of m] m by (simp del: power_Suc)
  then have "clog2 n \<le> Suc (flog2 m)" by (simp only: clog2_le_iff)
  moreover have "2 ^ flog2 m \<le> m" using m by (intro flog2_lower) simp
  then have "\<not> n \<le> 2 ^ flog2 m" using m by linarith
  then have "\<not> clog2 n \<le> flog2 m" by (simp only: clog2_le_iff not_False_eq_True)
  ultimately show ?thesis using len by (simp add: m_def)
qed (simp add: bits_Len_def)

lemma RootHashPadded_merkle:
  assumes "cache_valid sha s" and "allocatable (node_list s)"
    and "tree_nonzero (hash_pair sha) (hashes s)" and "node_list s \<noteq> []"
    and "int (clog2 (Length s)) \<le> targetHeight"
  shows "snd (RootHashPadded sha targetHeight (Some s)) =
    Ok (Some (padded_root (hash_pair sha) (nat targetHeight) (hashes s)))"
proof -
  let ?n = "length (node_list s)"
  have n: "1 \<le> ?n" "?n < 2 ^ 63"
    using assms(2,4) by (simp_all add: allocatable_def max_alloc_def Suc_le_eq)
  note len = bits_Len_pred [OF n]
  show ?thesis
    using assms(4,5) len n(1)
    by (simp add: RootHashPadded_def Length_def slice_len_def RootHash_root_hash
        root_hash_merkle [OF assms(1-4)] lift_root_funpow padded_root_def Let_def nat_diff_distrib)
qed

section \<open>Proofs against the specification\<close>

text \<open>The siblings the code finds in the store are those of the levels of the tree.\<close>

lemma getLeafSiblingHash_eq:
  "i < length nodes \<Longrightarrow> getLeafSiblingHash nodes (int i) = Ok (sibling (map Hash nodes) i)"
proof -
  assume i: "i < length nodes"
  have "int i mod 2 = 0 \<longleftrightarrow> even i" by presburger
  moreover have "odd i \<Longrightarrow> int i - 1 = int (i - 1)" by (auto elim: oddE)
  ultimately show ?thesis
    using i index_get_nat [of "Suc i" nodes] index_get_nat [of i nodes] index_get_nat [of "i - 1" nodes]
    by (auto simp: getLeafSiblingHash_def sibling_def add.commute)
qed

lemma calculateTreePosition_eq:
  assumes "even p" and "r < length l" and "p + 2 * ((length l + 1) div 2) \<le> length store"
    and "\<And>q. q < 2 * ((length l + 1) div 2) \<Longrightarrow> store ! (p + q) = (if q < length l then l ! q else 0)"
    and "0 \<notin> set l" and "length store \<le> tlen"
  shows "\<exists>q. calculateTreePosition store (int p) (int r) (int tlen) = Ok (int q) \<and>
    q < length store \<and> store ! q = sibling l r"
proof (cases "even r")
  case True
  then obtain r' where r': "r = 2 * r'" by (elim evenE)
  have r1: "Suc r < 2 * ((length l + 1) div 2)" using assms(2) r' by presburger
  then have s1: "store ! Suc (p + r) = (if Suc r < length l then l ! Suc r else 0)"
    using assms(4) [of "Suc r"] by simp
  have s0: "store ! (p + r) = l ! r" using assms(4) [of r] r1 assms(2) by simp
  have b: "Suc (p + r) < length store" using r1 assms(3) by linarith
  have get: "index_get store (int p + int r + 1) = Ok (store ! Suc (p + r))"
    using index_get_nat [OF b] by (simp add: add.commute)
  have par: "(int p + int r) mod 2 = 0" using assms(1) True by presburger
  have t: "int p + int r + 1 < int tlen" using b assms(6) by linarith
  show ?thesis
  proof (cases "Suc r < length l")
    case in_l: True
    then have "store ! Suc (p + r) \<noteq> 0" using s1 assms(5) by (metis nth_mem)
    then have "calculateTreePosition store (int p) (int r) (int tlen) = Ok (int (Suc (p + r)))"
      using par t get by (simp add: calculateTreePosition_def)
    moreover have "store ! Suc (p + r) = sibling l r" using True in_l s1 by (simp add: sibling_def)
    ultimately show ?thesis using b by blast
  next
    case False
    then have "store ! Suc (p + r) = 0" using s1 by simp
    then have "calculateTreePosition store (int p) (int r) (int tlen) = Ok (int (p + r))"
      using par t get by (simp add: calculateTreePosition_def)
    moreover have "store ! (p + r) = sibling l r" using True False s0 by (simp add: sibling_def)
    moreover have "p + r < length store" using b by simp
    ultimately show ?thesis by blast
  qed
next
  case False
  then obtain r' where r': "r = Suc (2 * r')" by (elim oddE) simp
  have q: "r - 1 < 2 * ((length l + 1) div 2)" using assms(2) r' by presburger
  then have s: "store ! (p + (r - 1)) = l ! (r - 1)" using assms(2) assms(4) [of "r - 1"] r' by simp
  moreover have "l ! (r - 1) \<noteq> 0"
    using assms(2,5) by (metis less_imp_diff_less nth_mem)
  ultimately have nz: "store ! (p + (r - 1)) \<noteq> 0" by simp
  have b: "p + (r - 1) < length store" using q assms(3) by linarith
  have eq: "int p + int r - 1 = int (p + (r - 1))" using r' by simp
  have par: "\<not> (int p + int r) mod 2 = 0" using assms(1) False by presburger
  have "calculateTreePosition store (int p) (int r) (int tlen) = Ok (int (p + (r - 1)))"
    using par eq index_get_nat [OF b] nz by (simp add: calculateTreePosition_def)
  then show ?thesis using b s False by (intro exI [of _ "p + (r - 1)"]) (simp add: sibling_def)
qed

lemma clog2_length_funpow:
  "j \<le> clog2 (length xs) \<Longrightarrow> clog2 (length ((level_up H ^^ j) xs)) = clog2 (length xs) - j"
proof (induction j arbitrary: xs)
  case (Suc j)
  then have 2: "2 \<le> length xs" using clog2_pos_iff [of "length xs"] by linarith
  then have "clog2 (length xs) = Suc (clog2 (length (level_up H xs)))"
    by (rule clog2_length_level_up)
  with Suc show ?case by (simp add: funpow_swap1)
qed simp

lemma tree_nonzero_funpow:
  "tree_nonzero H xs \<Longrightarrow> j \<le> clog2 (length xs) \<Longrightarrow> tree_nonzero H ((level_up H ^^ j) xs)"
proof (induction j arbitrary: xs)
  case (Suc j)
  then have 2: "2 \<le> length xs" using clog2_pos_iff [of "length xs"] by linarith
  then have "clog2 (length xs) = Suc (clog2 (length (level_up H xs)))"
    by (rule clog2_length_level_up)
  with Suc 2 show ?case by (simp add: funpow_swap1 tree_nonzero_level_up)
qed simp

lemma proof_loop_levels:
  assumes "tree_nonzero (hash_pair sha) (map Hash nodes)" and "k = clog2 (length nodes)"
    and "store = map (tree_val sha nodes (2 ^ k)) [0..<2 ^ k - 1]" and "length store \<le> tlen"
  shows "d + Suc j = k \<Longrightarrow> ti < length ((level_up (hash_pair sha) ^^ Suc j) (map Hash nodes)) \<Longrightarrow>
    proof_loop nodes store index k (int tlen) d (int (2 ^ k - 2 ^ Suc d)) (int ti) acc =
      Ok (acc @ merkle_proof (hash_pair sha) ((level_up (hash_pair sha) ^^ Suc j) (map Hash nodes)) ti)"
proof (induction d arbitrary: j ti acc)
  case 0
  let ?l = "(level_up (hash_pair sha) ^^ Suc j) (map Hash nodes)"
  have "clog2 (length ?l) = 0"
    using 0(1) assms(2) by (subst clog2_length_funpow) simp_all
  then have "length ?l \<le> 1" using clog2_pos_iff [of "length ?l"] by linarith
  then show ?case by (simp only: proof_loop.simps merkle_proof_append_single append_Nil2)
next
  case (Suc d)
  let ?H = "hash_pair sha"
  let ?l = "(level_up ?H ^^ Suc j) (map Hash nodes)"
  define l where "l = ?l"
  define x :: nat where "x = 2 ^ d"
  have k: "Suc j \<le> clog2 (length nodes)" "k = d + Suc (Suc j)" using Suc.prems(1) assms(2) by simp_all
  have cl: "clog2 (length l) = Suc d"
    unfolding l_def using k assms(2) by (subst clog2_length_funpow) simp_all
  have 2: "2 \<le> length l" using cl clog2_pos_iff [of "length l"] by simp
  have le: "length l \<le> 2 * x" using clog2_upper [of "length l"] cl by (simp add: x_def)
  have nz: "0 \<notin> set l"
    unfolding l_def using tree_nonzero_funpow [OF assms(1), of "Suc j"] k(1)
    by (intro tree_nonzero_leaves) simp
  have "4 * x \<le> 2 ^ k" by (simp add: k(2) x_def power_add)
  then obtain e where e: "2 ^ k = 4 * x + e" using le_Suc_ex by blast
  have "even (4 * x + e)" using k(2) by (simp flip: e)
  then have ev: "even e" by simp
  have p: "2 ^ k - 2 ^ Suc (Suc d) = e" using e by (simp add: x_def)
  have p': "e + 2 ^ Suc d = 2 ^ k - 2 ^ Suc d" using e by (simp add: x_def)
  have x: "0 < x" by (simp add: x_def)
  have len: "length store = 4 * x + e - 1" by (simp add: assms(3) e)
  have dk: "k - j = Suc (Suc d)" "k - Suc j = Suc d" using k(2) by simp_all
  have vals: "store ! (e + q) = (if q < length l then l ! q else 0)" if "q < 2 * x" for q
  proof -
    have "tree_val sha nodes (2 ^ k) (2 ^ k - 2 ^ (k - j) + q) =
        (let l = ?l in if q < length l then l ! q else 0)"
    proof (rule tree_val_level_padded [OF assms(1,2)])
      show "q < 2 ^ (k - Suc j)" using that by (simp add: dk(2) x_def)
    qed (use k(2) in simp)
    then have "tree_val sha nodes (2 ^ k) (e + q) = (if q < length l then l ! q else 0)"
      by (simp only: dk p l_def Let_def)
    moreover have "e + q < 2 ^ k - 1" using that e x by linarith
    ultimately show ?thesis by (simp add: assms(3))
  qed
  have half: "2 * ((length l + 1) div 2) \<le> 2 * x" using le by presburger
  have ti: "ti < length l" using Suc.prems(2) by (simp only: l_def)
  obtain q where q: "calculateTreePosition store (int e) (int ti) (int tlen) = Ok (int q)"
    "q < length store" "store ! q = sibling l ti"
    using calculateTreePosition_eq [OF ev ti, of store tlen] vals half nz assms(4) len x by fastforce
  have up: "(level_up ?H ^^ Suc (Suc j)) (map Hash nodes) = level_up ?H l"
    by (simp add: l_def)
  have "ti div 2 < length (level_up ?H l)" using ti by simp
  then have IH: "proof_loop nodes store index k (int tlen) d (int (2 ^ k - 2 ^ Suc d)) (int (ti div 2))
      (acc @ [sibling l ti]) = Ok ((acc @ [sibling l ti]) @ merkle_proof ?H (level_up ?H l) (ti div 2))"
    using Suc.IH [of "Suc j" "ti div 2" "acc @ [sibling l ti]"] k(2) unfolding up by simp
  have pos: "int e + 2 ^ Suc d = int (2 ^ k - 2 ^ Suc d)"
    unfolding p' [symmetric] by simp
  have "proof_loop nodes store index k (int tlen) (Suc d) (int e) (int ti) acc =
      Ok (acc @ merkle_proof ?H l ti)"
    using k(2) q IH index_get_nat [OF q(2)] 2
    by (simp add: pos merkle_proof_step zdiv_int del: power_Suc)
  then show ?case unfolding p l_def .
qed

lemma GetMerkleProof_eq:
  assumes "tree_nonzero (hash_pair sha) (hashes st)" and "allocatable (node_list st)"
    and "i < length (node_list st)"
  shows "GetMerkleProof sha (int i) st = Ok (merkle_proof (hash_pair sha) (hashes st) i)"
proof (cases "length (node_list st) = 1")
  case True
  then obtain n where "node_list st = [n]" by (auto simp: length_Suc_conv)
  with assms(3) show ?thesis
    by (simp add: GetMerkleProof_def ceil_log2_def pow2_int_def make_slice_def max_alloc_def
        merkle_proof_append_single)
next
  case False
  let ?nodes = "node_list st" and ?H = "hash_pair sha"
  have 2: "2 \<le> length ?nodes" using assms(3) False by linarith
  define k where "k = clog2 (length ?nodes)"
  define store where "store = map (tree_val sha ?nodes (2 ^ k)) [0..<2 ^ k - 1]"
  have build: "BuildMerkleTreeStoreFromBytes sha ?nodes = Ok store"
    using BuildMerkleTreeStoreFromBytes_eq [OF 2 assms(2)] by (simp add: store_def k_def)
  obtain d where d: "k = Suc d" using 2 clog2_pos_iff [of "length ?nodes"] by (cases k) (auto simp: k_def)
  have "length ?nodes \<le> 2 ^ 48" using assms(2) by (simp add: allocatable_def max_alloc_def)
  then have k48: "k \<le> 48" unfolding k_def by (simp only: clog2_le_iff)
  have height: "ceil_log2 (int (length ?nodes)) = int k" using 2 by (auto simp: ceil_log2_def k_def)
  have tot: "pow2_int (int k) + int (length store) = int (2 ^ k + length store)"
    using k48 by (simp add: pow2_int_def)
  have cap: "make_slice 8 (0 :: hash) 0 (int k) = Ok (Slice [] (replicate k 0))"
    using k48 by (simp add: make_slice_def max_alloc_def)
  have "i div 2 < length ((level_up ?H ^^ Suc 0) (hashes st))" using assms(3) by simp
  then have loop: "proof_loop ?nodes store (int i) k (int (2 ^ k + length store)) d
      (int (2 ^ k - 2 ^ Suc d)) (int (i div 2)) [sibling (hashes st) i] =
      Ok ([sibling (hashes st) i] @ merkle_proof ?H ((level_up ?H ^^ Suc 0) (hashes st)) (i div 2))"
    using assms(1) d by (intro proof_loop_levels) (simp_all add: k_def store_def)
  have "proof_loop ?nodes store (int i) k (int (2 ^ k + length store)) k 0 (int i) [] =
      Ok (merkle_proof ?H (hashes st) i)"
    using loop getLeafSiblingHash_eq [OF assms(3)] 2
    unfolding d by (simp add: merkle_proof_step zdiv_int del: power_Suc)
  with assms(3) show ?thesis
    by (simp add: GetMerkleProof_def build height tot cap Let_def)
qed

lemma well_split_hashes: "well_split k (map node_list ss) \<Longrightarrow> well_split k (map hashes ss)"
  by (cases "ss = []") (simp_all add: well_split_def last_map flip: map_butlast)

section \<open>The proof for the coinbase\<close>

text \<open>A subtree with a root that can be computed and proved against.\<close>

definition provable :: "sha256 \<Rightarrow> subtree \<Rightarrow> bool" where
  "provable sha s = (cache_valid sha s \<and> allocatable (node_list s) \<and>
     tree_nonzero (hash_pair sha) (hashes s) \<and> node_list s \<noteq> [])"

abbreviation root_of :: "sha256 \<Rightarrow> subtree \<Rightarrow> hash" where
  "root_of sha s \<equiv> merkle_root (hash_pair sha) (hashes s)"

definition root_node :: "sha256 \<Rightarrow> subtree \<Rightarrow> node" where
  "root_node sha s = \<lparr>Hash = root_of sha s, Fee = Fees s, NodeSizeInBytes = SizeInBytes s\<rparr>"

lemma root_node_simps [simp]:
  "Hash (root_node sha s) = root_of sha s" "Fee (root_node sha s) = Fees s"
  "NodeSizeInBytes (root_node sha s) = SizeInBytes s"
  by (simp_all add: root_node_def)

lemma root_hash_provable:
  "provable sha s \<Longrightarrow> root_hash sha s = (s\<lparr>rootHash := Some (root_of sha s)\<rparr>, Ok (Some (root_of sha s)))"
  by (simp add: provable_def root_hash_merkle)

text \<open>The loop over the subtrees adds their roots as \<open>AddNode\<close> does for nodes.\<close>

lemma add_roots_eq:
  "\<forall>s\<in>set ss. provable sha s \<Longrightarrow>
    snd (add_roots grow sha ss topTree) =
      (case add_nodes (\<lambda>n. AddNode grow (Hash n) (Fee n) (NodeSizeInBytes n)) (map (root_node sha) ss) topTree of
         (topTree', Ok _) \<Rightarrow> Ok topTree' | (_, Fail e) \<Rightarrow> Fail e | (_, Panic p) \<Rightarrow> Panic p)"
proof (induction ss arbitrary: topTree)
  case (Cons s ss)
  obtain topTree' r where "AddNode grow (root_of sha s) (Fees s) (SizeInBytes s) topTree = (topTree', r)" by fastforce
  note add = this
  show ?case
  proof (cases r)
    case (Ok u)
    then have "snd (add_roots grow sha (s # ss) topTree) = snd (add_roots grow sha ss topTree')"
      using add Cons.prems by (simp add: root_hash_provable split: prod.split)
    then show ?thesis using add Ok Cons.IH [of topTree'] Cons.prems by simp
  qed (use add Cons.prems in \<open>simp_all add: root_hash_provable\<close>)
qed simp

lemma NewTreeByLeafCount_ceil:
  assumes "1 \<le> n" and "n \<le> 2 ^ 42"
  shows "NewTreeByLeafCount (CeilPowerOfTwo (int n)) = NewTree (int (clog2 n))"
proof -
  have "int n \<le> 2 ^ 62" using assms(2) by simp
  then have "CeilPowerOfTwo (int n) = 2 ^ clog2 n" using assms(1) CeilPowerOfTwo_pos [of "int n"] by simp
  moreover have "ceil_log2 (2 ^ clog2 n) = int (clog2 n)"
    by (simp add: ceil_log2_def nat_power_eq not_le)
  ultimately show ?thesis by (auto simp: NewTreeByLeafCount_def IsPowerOfTwo_iff)
qed

lemma GetMerkleProofForCoinbase_eq:
  assumes "ss \<noteq> []" and "length ss \<le> 2 ^ 42" and "\<forall>s\<in>set ss. provable sha s"
    and "tree_nonzero (hash_pair sha) (map (root_of sha) ss)"
    and "\<forall>s\<in>set ss. root_of sha s \<noteq> CoinbasePlaceholder"
  shows "snd (GetMerkleProofForCoinbase grow sha ss) =
    Ok (merkle_proof (hash_pair sha) (hashes (hd ss)) 0 @
        merkle_proof (hash_pair sha) (map (root_of sha) ss) 0)"
proof -
  obtain s ss' where ss: "ss = s # ss'" using assms(1) by (cases ss) auto
  have n: "1 \<le> length ss" using assms(1) by (simp add: Suc_le_eq)
  let ?add = "\<lambda>n. AddNode grow (Hash n) (Fee n) (NodeSizeInBytes n)"
  have first: "GetMerkleProof sha 0 s = Ok (merkle_proof (hash_pair sha) (hashes s) 0)"
    using GetMerkleProof_eq [of sha s 0] assms(3) ss by (simp add: provable_def)
  have k: "clog2 (length ss) \<le> 42" using assms(2) by (simp only: clog2_le_iff)
  then obtain topTree where topTree: "NewTree (int (clog2 (length ss))) = Ok topTree"
    "node_list topTree = []" "treeSize topTree = 2 ^ clog2 (length ss)" "slice_cap (Nodes topTree) = 2 ^ clog2 (length ss)"
    "sums_valid topTree" "index_valid topTree"
    using NewTree_Ok [of "int (clog2 (length ss))"]
    by (auto simp: slice_cap_def sums_valid_def index_valid_def zero_subtree_def)
  have "int (length ss) \<le> 2 ^ clog2 (length ss)"
    using clog2_upper [of "length ss"] by (metis of_nat_le_iff of_nat_numeral of_nat_power)
  then obtain topTree' where topTree': "add_nodes ?add (map (root_node sha) ss) topTree = (topTree', Ok ())"
    "node_list topTree' = map (root_node sha) ss"
    using add_node.add_nodes_ok [of "map (root_node sha) ss" topTree grow] topTree assms(5)
    by (auto simp: slice_len_def)
  have add: "snd (add_roots grow sha ss topTree) = Ok topTree'"
    using add_roots_eq [OF assms(3)] topTree'(1) by simp
  have roots: "hashes topTree' = map (root_of sha) ss" by (simp add: topTree'(2))
  have "allocatable (node_list topTree')"
    using assms(2) by (simp add: topTree'(2) allocatable_def max_alloc_def)
  then have "GetMerkleProof sha (int 0) topTree' = Ok (merkle_proof (hash_pair sha) (map (root_of sha) ss) 0)"
    using GetMerkleProof_eq [of sha topTree' 0, unfolded roots] assms(1,4) by (simp add: topTree'(2))
  then show ?thesis
    using add first NewTreeByLeafCount_ceil [OF n assms(2)] topTree(1)
    by (auto simp: GetMerkleProofForCoinbase_def ss split: prod.splits)
qed

lemma proof_root_append:
  "proof_root H i x (ps @ qs) = proof_root H (i div 2 ^ length ps) (proof_root H i x ps) qs"
  by (induction H i x ps rule: proof_root.induct) (simp_all add: div_mult2_eq)

lemma proof_root_composed:
  assumes "xs \<noteq> []" and "rs \<noteq> []" and "rs ! 0 = merkle_root H xs"
  shows "proof_root H 0 (xs ! 0) (merkle_proof H xs 0 @ merkle_proof H rs 0) = merkle_root H rs"
proof -
  have "proof_root H 0 (xs ! 0) (merkle_proof H xs 0) = merkle_root H xs"
    using assms(1) by (intro proof_root_merkle_proof) simp
  then show ?thesis
    using proof_root_merkle_proof [of 0 rs H] assms(2,3) by (simp add: proof_root_append)
qed

section \<open>Properties\<close>

lemma sound_root:
  assumes "sound sha st" and "tree_nonzero (hash_pair sha) (hashes st)"
  shows "snd (RootHash sha (Some st)) =
    Ok (if node_list st = [] then None else Some (merkle_root (hash_pair sha) (hashes st)))"
proof -
  from assms(1) have v: "cache_valid sha st" "allocatable (node_list st)"
    by (simp add: sound_def, rule sound_allocatable)
  show ?thesis
  proof (cases "node_list st = []")
    case True
    with root_hash_cases [OF v] have "root_hash sha st = (st, Ok None)" by metis
    with True show ?thesis by (simp add: RootHash_root_hash)
  next
    case False
    with root_hash_merkle [OF v assms(2)] show ?thesis by (simp add: RootHash_root_hash)
  qed
qed

text \<open>C29: \<open>ReplaceRootNode\<close> returns the merkle root of the nodes with the first one replaced, which is
  also what \<open>RootHashWithReplaceRootNode\<close> returns without touching the subtree; the fees do not
  follow the replacement.\<close>

theorem ReplaceRootNode_root:
  assumes "allocatable (node_list st)" and "node_list st \<noteq> []"
    and "tree_nonzero (hash_pair sha) (h # tl (hashes st))"
    and "ReplaceRootNode grow sha h fee sz st = (st', r)"
  shows "r = Ok (Some (merkle_root (hash_pair sha) (h # tl (hashes st)))) \<and>
    hashes st' = h # tl (hashes st) \<and> Fees st' = Fees st \<and>
    RootHashWithReplaceRootNode grow sha h fee sz (Some st) =
      Ok (merkle_root (hash_pair sha) (h # tl (hashes st)))"
proof -
  let ?n = "\<lparr>Hash = h, Fee = fee, NodeSizeInBytes = sz\<rparr>"
  have prov: "provable sha (replaced grow ?n s)" if "node_list s = node_list st" for s
    using assms(1-3) that
    by (cases "node_list st") (auto simp: provable_def replaced_simps allocatable_def)
  have h: "hashes (replaced grow ?n s) = h # tl (hashes st)" if "node_list s = node_list st" for s
    using that by (simp add: replaced_simps map_tl)
  have rep: "ReplaceRootNode grow sha h fee sz s =
      ((replaced grow ?n s)\<lparr>rootHash := Some (merkle_root (hash_pair sha) (h # tl (hashes st)))\<rparr>,
       Ok (Some (merkle_root (hash_pair sha) (h # tl (hashes st)))))" if "node_list s = node_list st" for s
    unfolding ReplaceRootNode_eq root_hash_provable [OF prov [OF that]] h [OF that] ..
  define c where "c = replaced grow ?n (Duplicate st)"
  have dup: "node_list (Duplicate st) = node_list st" by (simp add: Duplicate_def)
  have c: "provable sha c" "hashes c = h # tl (hashes st)"
    unfolding c_def using prov [OF dup] h [OF dup] by simp_all
  then obtain store where store: "BuildMerkleTreeStoreFromBytes sha (node_list c) = Ok store"
    "store \<noteq> []" "last store = merkle_root (hash_pair sha) (h # tl (hashes st))"
    using BuildMerkleTreeStoreFromBytes_root [of "node_list c" sha] by (auto simp: provable_def)
  have "RootHashWithReplaceRootNode grow sha h fee sz (Some st) =
      Ok (merkle_root (hash_pair sha) (h # tl (hashes st)))"
    using store index_get_last [OF store(2)]
    by (simp add: RootHashWithReplaceRootNode_def rep [OF dup] flip: c_def)
  then show ?thesis using assms(4) rep [of st] h [of st] by (auto simp: replaced_simps)
qed

theorem ReplaceRootNode_root_witness:
  "\<exists>st'. ReplaceRootNode doubling mix_sha 7 0 0 indexed_subtree =
      (st', Ok (Some (merkle_root (hash_pair mix_sha) [7, 2, 3]))) \<and> hashes st' = [7, 2, 3]"
proof -
  obtain st' r where rep: "ReplaceRootNode doubling mix_sha 7 0 0 indexed_subtree = (st', r)" by fastforce
  have "tree_nonzero (hash_pair mix_sha) [7, 2, 3]"
    by (simp add: tree_nonzero_def merkle_levels.simps hash_pair_mix)
  then show ?thesis
    using ReplaceRootNode_root [OF _ _ _ rep] rep
    by (simp add: indexed_subtree_def allocatable_def max_alloc_def leaf_def)
qed

text \<open>C7: For every leaf, \<open>GetMerkleProof\<close> returns a path of the height of the tree, and a verifier
  that hashes the leaf with the path according to the leaf's index obtains the root hash of the
  subtree; every index at or beyond the number of nodes is refused.\<close>

theorem GetMerkleProof_complete:
  assumes "provable sha st" and "i < Length st"
  shows "\<exists>path. GetMerkleProof sha (int i) st = Ok path \<and> length path = clog2 (Length st) \<and>
    snd (RootHash sha (Some st)) =
      Ok (Some (proof_root (hash_pair sha) i (Hash (node_list st ! i)) path)) \<and>
    (\<forall>j. int (Length st) \<le> j \<longrightarrow> GetMerkleProof sha j st = Fail ErrIndexOutOfRange)"
proof -
  have i: "i < length (node_list st)" using assms(2) by (simp add: Length_def slice_len_def)
  let ?path = "merkle_proof (hash_pair sha) (hashes st) i"
  have "proof_root (hash_pair sha) i (hashes st ! i) ?path = root_of sha st"
    using i by (intro proof_root_merkle_proof) simp
  then have "snd (RootHash sha (Some st)) =
      Ok (Some (proof_root (hash_pair sha) i (Hash (node_list st ! i)) ?path))"
    using i by (simp add: RootHash_root_hash root_hash_provable [OF assms(1)])
  moreover have "GetMerkleProof sha (int i) st = Ok ?path"
    using assms(1) i by (intro GetMerkleProof_eq) (simp_all add: provable_def)
  moreover have "GetMerkleProof sha j st = Fail ErrIndexOutOfRange" if "int (Length st) \<le> j" for j
    using that by (simp add: GetMerkleProof_def Length_def slice_len_def)
  ultimately show ?thesis by (simp add: length_merkle_proof Length_def slice_len_def)
qed

lemma indexed_subtree_provable: "provable mix_sha indexed_subtree"
  using example_nodes_nonzero
  by (simp add: provable_def indexed_subtree_def zero_subtree_def example_nodes_def allocatable_def
      max_alloc_def)

theorem GetMerkleProof_complete_witness:
  "\<exists>path. GetMerkleProof mix_sha 2 indexed_subtree = Ok path \<and> length path = 2 \<and>
    snd (RootHash mix_sha (Some indexed_subtree)) = Ok (Some (proof_root (hash_pair mix_sha) 2 3 path))"
proof -
  have "Length indexed_subtree = 3" by (simp add: Length_def slice_len_def indexed_subtree_def)
  with GetMerkleProof_complete [OF indexed_subtree_provable, of 2] show ?thesis
    by (auto simp: indexed_subtree_def leaf_def)
qed

text \<open>C16: Conversely, when a path of the height of the tree leads from a hash at an index to the root
  hash of the subtree, it is the path that \<open>GetMerkleProof\<close> returns for the index and the hash is that of
  the node there, unless a collision lies on the path: walking up with the path, \<open>path_collision\<close> meets
  a pair of hashes other than the pair of the tree at that place but with the same double SHA-256.\<close>

theorem merkle_path_sound:
  assumes "provable sha st" and "i < Length st" and "length path = clog2 (Length st)"
    and "snd (RootHash sha (Some st)) = Ok (Some (proof_root (hash_pair sha) i h path))"
  shows "h = Hash (node_list st ! i) \<and> GetMerkleProof sha (int i) st = Ok path \<or>
    (\<exists>a b c d. path_collision (hash_pair sha) (hashes st) i h path = Some ((a, b), (c, d)) \<and>
      (a, b) \<noteq> (c, d) \<and> hash_pair sha a b = hash_pair sha c d)"
proof -
  have len: "Length st = length (hashes st)" by (simp add: Length_def slice_len_def)
  have i: "i < length (node_list st)" using assms(2) len by simp
  have "proof_root (hash_pair sha) i h path = root_of sha st"
    using assms(4) by (simp add: RootHash_root_hash root_hash_provable [OF assms(1)])
  from proof_root_sound [OF assms(2,3) [unfolded len] this] show ?thesis
  proof
    assume *: "h = hashes st ! i \<and> path = merkle_proof (hash_pair sha) (hashes st) i"
    have "GetMerkleProof sha (int i) st = Ok (merkle_proof (hash_pair sha) (hashes st) i)"
      using assms(1) i by (intro GetMerkleProof_eq) (simp_all add: provable_def)
    with * i show ?thesis by simp
  next
    assume "path_collision (hash_pair sha) (hashes st) i h path \<noteq> None"
    then obtain a b c d where "path_collision (hash_pair sha) (hashes st) i h path = Some ((a, b), (c, d))"
      by auto
    with path_collision_Some [OF this] show ?thesis by blast
  qed
qed

theorem merkle_path_sound_witness:
  "(3 :: hash) = Hash (node_list indexed_subtree ! 2) \<and>
    (\<exists>a b c d. path_collision (hash_pair mix_sha) [1, 2, 3] 0 4 [1, 14] = Some ((a, b), (c, d)) \<and>
      (a, b) \<noteq> (c, d) \<and> hash_pair mix_sha a b = hash_pair mix_sha c d)"
proof -
  have l: "Length indexed_subtree = 3" by (simp add: Length_def slice_len_def indexed_subtree_def)
  have h: "hashes indexed_subtree = [1, 2, 3]" by (simp add: indexed_subtree_def leaf_def)
  have c: "clog2 3 = 2" by (simp add: clog2.simps)
  have root: "snd (RootHash mix_sha (Some indexed_subtree)) = Ok (Some 53)"
    by (simp add: RootHash_root_hash root_hash_provable [OF indexed_subtree_provable] h merkle_root_step
        hash_pair_mix)
  have "3 = Hash (node_list indexed_subtree ! 2)"
    using merkle_path_sound [OF indexed_subtree_provable, of 2 "[3, 9]" 3] root
    by (simp add: l c h hash_pair_mix sibling_def children_of_def split: if_splits)
  moreover have "Hash (node_list indexed_subtree ! 0) = 1" by (simp add: indexed_subtree_def leaf_def)
  ultimately show ?thesis
    using merkle_path_sound [OF indexed_subtree_provable, of 0 "[1, 14]" 4] root
    by (simp add: l c h hash_pair_mix)
qed

text \<open>C14: Padding composes.  When the transactions of a block are cut into subtrees of \<open>2^k\<close>, the last
  one possibly shorter, the merkle tree over the roots that \<open>RootHashPadded(k)\<close> gives for them has
  the same root as the one merkle tree over all transactions; a target below the height of a subtree
  is refused.\<close>

theorem RootHashPadded_composes:
  assumes "well_split k (map node_list ss)" and "2 \<le> length ss" and "\<forall>s\<in>set ss. provable sha s"
    and "map (\<lambda>s. snd (RootHashPadded sha (int k) (Some s))) ss = map (\<lambda>r. Ok (Some r)) roots"
  shows "merkle_root (hash_pair sha) roots = merkle_root (hash_pair sha) (concat (map hashes ss)) \<and>
    (\<forall>s\<in>set ss. \<forall>t < int (clog2 (Length s)).
      RootHashPadded sha t (Some s) = (Some s, Fail ErrTargetHeightTooSmall))"
proof -
  let ?H = "hash_pair sha"
  have ne: "ss \<noteq> []" using assms(2) by auto
  have small: "length (node_list s) \<le> 2 ^ k" if "s \<in> set ss" for s
  proof (cases "node_list s \<in> set (butlast (map node_list ss))")
    case True
    then show ?thesis using assms(1) by (auto simp: well_split_def)
  next
    case False
    have "map node_list ss = butlast (map node_list ss) @ [last (map node_list ss)]"
      using ne by simp
    then have "set (map node_list ss) = insert (last (map node_list ss)) (set (butlast (map node_list ss)))"
      by (metis Un_insert_right list.simps(15) set_append sup_bot_right list.set(1))
    then have "node_list s = last (map node_list ss)" using that False by auto
    then show ?thesis using assms(1) by (simp add: well_split_def)
  qed
  have pad: "snd (RootHashPadded sha (int k) (Some s)) = Ok (Some (padded_root ?H k (hashes s)))"
    if "s \<in> set ss" for s
  proof -
    have "clog2 (Length s) \<le> k"
      using small [OF that] by (simp add: clog2_le_iff Length_def slice_len_def)
    then show ?thesis
      using RootHashPadded_merkle [of sha s "int k"] assms(3) that by (auto simp: provable_def)
  qed
  have "map (\<lambda>r. Ok (Some r)) roots = map (\<lambda>s. Ok (Some (padded_root ?H k (hashes s)))) ss"
    unfolding assms(4) [symmetric] by (rule map_cong) (simp_all add: pad)
  then have "map (\<lambda>r. Ok (Some r)) roots =
      map (\<lambda>r. Ok (Some r)) (map (padded_root ?H k) (map hashes ss))" by simp
  then have roots: "roots = map (padded_root ?H k) (map hashes ss)"
    by (rule map_injective) (simp add: inj_on_def)
  have "well_split k (map hashes ss)" using assms(1) by (rule well_split_hashes)
  then have "merkle_root ?H roots = merkle_root ?H (concat (map hashes ss))"
    unfolding roots using assms(2) by (intro merkle_root_split) simp_all
  moreover have "RootHashPadded sha t (Some s) = (Some s, Fail ErrTargetHeightTooSmall)"
    if "s \<in> set ss" "t < int (clog2 (Length s))" for s t
  proof -
    have "1 \<le> Length s" "Length s < 2 ^ 63" using assms(3) that(1)
      by (auto simp: provable_def allocatable_def max_alloc_def Length_def slice_len_def Suc_le_eq)
    from bits_Len_pred [OF this] that(2) this(1) show ?thesis
      by (simp add: RootHashPadded_def Let_def)
  qed
  ultimately show ?thesis by blast
qed

definition full_pair :: subtree where
  "full_pair = zero_subtree\<lparr>Height := 1, treeSize := 2, Nodes := Slice [leaf 1, leaf 2] []\<rparr>"

definition half_pair :: subtree where
  "half_pair = zero_subtree\<lparr>Height := 1, treeSize := 2, Nodes := Slice [leaf 3] [zero_node]\<rparr>"

lemma pairs_simps [simp]: "node_list full_pair = [leaf 1, leaf 2]" "node_list half_pair = [leaf 3]"
  by (simp_all add: full_pair_def half_pair_def)

lemma pairs_provable: "provable mix_sha full_pair" "provable mix_sha half_pair"
proof -
  have "cache_valid mix_sha full_pair" "cache_valid mix_sha half_pair"
    by (simp_all add: cache_valid_def full_pair_def half_pair_def zero_subtree_def)
  then show "provable mix_sha full_pair" "provable mix_sha half_pair"
    by (simp_all add: provable_def allocatable_def max_alloc_def tree_nonzero_def merkle_levels.simps
        hash_pair_mix leaf_def)
qed

theorem RootHashPadded_composes_witness:
  "\<exists>a b. snd (RootHashPadded mix_sha 1 (Some full_pair)) = Ok (Some a) \<and>
    snd (RootHashPadded mix_sha 1 (Some half_pair)) = Ok (Some b) \<and>
    merkle_root (hash_pair mix_sha) [a, b] = merkle_root (hash_pair mix_sha) [1, 2, 3]"
proof -
  obtain a where a: "snd (RootHashPadded mix_sha 1 (Some full_pair)) = Ok (Some a)"
    using RootHashPadded_merkle [of mix_sha full_pair 1] pairs_provable(1)
    by (auto simp: provable_def Length_def slice_len_def clog2.simps)
  obtain b where b: "snd (RootHashPadded mix_sha 1 (Some half_pair)) = Ok (Some b)"
    using RootHashPadded_merkle [of mix_sha half_pair 1] pairs_provable(2)
    by (auto simp: provable_def Length_def slice_len_def)
  have "well_split 1 (map node_list [full_pair, half_pair])" by (simp add: well_split_def)
  with RootHashPadded_composes [of 1 "[full_pair, half_pair]" mix_sha "[a, b]"] a b pairs_provable
  show ?thesis by (simp add: leaf_def)
qed

text \<open>C9: \<open>GetMerkleProofForCoinbase\<close> returns a path that leads from the first transaction of the block
  to the merkle root over all its transactions, when every subtree but the last is full, the last one
  is more than half full (or there is only one subtree), no root is the coinbase placeholder and no
  hash of the trees is zero.\<close>

theorem coinbase_proof_leads_to_block_root:
  assumes "well_split k (map node_list ss)" and "length ss \<le> 2 ^ 42"
    and "\<forall>s\<in>set ss. provable sha s \<and> root_of sha s \<noteq> CoinbasePlaceholder"
    and "tree_nonzero (hash_pair sha) (map (root_of sha) ss)"
    and "2 \<le> length ss \<Longrightarrow> clog2 (Length (last ss)) = k"
  shows "\<exists>path. snd (GetMerkleProofForCoinbase grow sha ss) = Ok path \<and>
    proof_root (hash_pair sha) 0 (Hash (hd (node_list (hd ss)))) path =
      merkle_root (hash_pair sha) (concat (map hashes ss))"
proof -
  let ?H = "hash_pair sha"
  obtain s ss' where ss: "ss = s # ss'" using assms(1) by (cases ss) (auto simp: well_split_def)
  let ?path = "merkle_proof ?H (hashes s) 0 @ merkle_proof ?H (map (root_of sha) ss) 0"
  have path: "snd (GetMerkleProofForCoinbase grow sha ss) = Ok ?path"
    using GetMerkleProofForCoinbase_eq [of ss sha grow] assms(2-4) ss by simp
  have ne: "node_list s \<noteq> []" using assms(3) ss by (simp add: provable_def)
  then have "proof_root ?H 0 (hashes s ! 0) ?path = merkle_root ?H (map (root_of sha) ss)"
    by (intro proof_root_composed) (simp_all add: ss)
  moreover have "hashes s ! 0 = Hash (hd (node_list (hd ss)))"
    using ne by (simp add: ss hd_conv_nth)
  moreover have "merkle_root ?H (map (root_of sha) ss) = merkle_root ?H (concat (map hashes ss))"
  proof (cases "2 \<le> length ss")
    case False
    then show ?thesis by (simp add: ss Suc_le_eq)
  next
    case True
    have cs: "well_split k (map hashes ss)" using assms(1) by (rule well_split_hashes)
    have "clog2 (length (node_list t)) = k" if "t \<in> set ss" for t
    proof (cases "t = last ss")
      case True
      then show ?thesis using assms(5) \<open>2 \<le> length ss\<close> by (simp add: Length_def slice_len_def)
    next
      case False
      have "ss = butlast ss @ [last ss]" by (simp add: ss)
      then have "t \<in> set (butlast ss)" using that False
        by (metis Un_iff empty_iff list.set(1) set_ConsD set_append)
      then have "length (node_list t) = 2 ^ k"
        using assms(1) by (auto simp: well_split_def map_butlast [symmetric])
      then show ?thesis by simp
    qed
    then have "map (root_of sha) ss = map (padded_root ?H k) (map hashes ss)"
      by (auto simp: padded_root_def)
    with merkle_root_split [OF cs, of ?H] True show ?thesis by (simp only: length_map)
  qed
  ultimately show ?thesis using path by auto
qed

theorem coinbase_proof_leads_to_block_root_witness:
  "\<exists>path. snd (GetMerkleProofForCoinbase doubling mix_sha [full_pair, full_pair]) = Ok path \<and>
    proof_root (hash_pair mix_sha) 0 1 path = merkle_root (hash_pair mix_sha) [1, 2, 1, 2]"
proof -
  have l: "Hash (leaf n) = of_nat n" for n by (simp add: leaf_def)
  have root: "root_of mix_sha full_pair = 9"
    by (simp add: merkle_root_step hash_pair_mix l)
  have nz: "tree_nonzero (hash_pair mix_sha) [9, 9]"
    by (simp add: tree_nonzero_def merkle_levels.simps hash_pair_mix)
  have "well_split 1 (map node_list [full_pair, full_pair])" by (simp add: well_split_def)
  with coinbase_proof_leads_to_block_root [of 1 "[full_pair, full_pair]" mix_sha doubling]
    pairs_provable nz root show ?thesis
    by (simp add: CoinbasePlaceholder_eq Length_def slice_len_def clog2.simps l)
qed

text \<open>C36: The roots that \<open>GetMerkleProofForCoinbase\<close> composes are not padded.  When the last of
  several subtrees is at most half full, the path of the code leads to the root over the roots as they
  are, and the block has the root over the roots with the last one lifted to the common height.  The
  two differ, unless that last root is lifted to itself or a collision lies on the path from it.\<close>

theorem coinbase_proof_not_padded:
  assumes "well_split k (map node_list ss)" and "2 \<le> length ss" and "length ss \<le> 2 ^ 42"
    and "\<forall>s\<in>set ss. provable sha s \<and> root_of sha s \<noteq> CoinbasePlaceholder"
    and "tree_nonzero (hash_pair sha) (map (root_of sha) ss)"
    and "lifted = lift_root sha (k - clog2 (Length (last ss))) (root_of sha (last ss))"
  shows "\<exists>path. snd (GetMerkleProofForCoinbase grow sha ss) = Ok path \<and>
    proof_root (hash_pair sha) 0 (Hash (hd (node_list (hd ss)))) path =
      merkle_root (hash_pair sha) (map (root_of sha) ss) \<and>
    merkle_root (hash_pair sha) (concat (map hashes ss)) =
      merkle_root (hash_pair sha) (map (root_of sha) (butlast ss) @ [lifted]) \<and>
    (proof_root (hash_pair sha) 0 (Hash (hd (node_list (hd ss)))) path \<noteq>
        merkle_root (hash_pair sha) (concat (map hashes ss)) \<or>
      lifted = root_of sha (last ss) \<or>
      path_collision (hash_pair sha) (map (root_of sha) (butlast ss) @ [lifted]) (length ss - 1)
        (root_of sha (last ss))
        (merkle_proof (hash_pair sha) (map (root_of sha) ss) (length ss - 1)) \<noteq> None)"
proof -
  let ?H = "hash_pair sha" and ?n = "length ss - 1"
  let ?rs = "map (root_of sha) ss" and ?ps = "map (root_of sha) (butlast ss) @ [lifted]"
  have ne: "ss \<noteq> []" using assms(2) by auto
  let ?path = "merkle_proof ?H (hashes (hd ss)) 0 @ merkle_proof ?H ?rs 0"
  have path: "snd (GetMerkleProofForCoinbase grow sha ss) = Ok ?path"
    using GetMerkleProofForCoinbase_eq [of ss sha grow] assms(3-5) ne by simp
  have first: "node_list (hd ss) \<noteq> []" using assms(4) ne by (simp add: provable_def)
  then have leads: "proof_root ?H 0 (hashes (hd ss) ! 0) ?path = merkle_root ?H ?rs"
    using ne by (intro proof_root_composed) (simp_all add: hd_conv_nth)
  have hd: "hashes (hd ss) ! 0 = Hash (hd (node_list (hd ss)))" using first by (simp add: hd_conv_nth)
  have cs: "well_split k (map hashes ss)" using assms(1) by (rule well_split_hashes)
  have ss: "ss = butlast ss @ [last ss]" using ne by simp
  have full: "padded_root ?H k (hashes t) = root_of sha t" if "t \<in> set (butlast ss)" for t
    using that assms(1) by (auto simp: well_split_def padded_root_def map_butlast [symmetric])
  have "map (padded_root ?H k) (map hashes ss) =
      map (padded_root ?H k) (map hashes (butlast ss @ [last ss]))" by (simp only: ss [symmetric])
  also have "\<dots> = ?ps"
    using full by (simp add: padded_root_def assms(6) lift_root_funpow Length_def slice_len_def)
  finally have padded: "merkle_root ?H (concat (map hashes ss)) = merkle_root ?H ?ps"
    using merkle_root_split [OF cs, of ?H] assms(2) by (simp only: length_map)
  have len: "length ?ps = length ss" "?n < length ?ps" "length ?rs = length ss" using ne by simp_all
  have last: "?ps ! ?n = lifted" "?rs ! ?n = root_of sha (last ss)"
    using ne by (simp_all add: nth_append last_conv_nth)
  have "lifted = root_of sha (last ss) \<or>
      path_collision ?H ?ps ?n (root_of sha (last ss)) (merkle_proof ?H ?rs ?n) \<noteq> None"
    if eq: "merkle_root ?H ?rs = merkle_root ?H ?ps"
  proof -
    have "proof_root ?H ?n (?rs ! ?n) (merkle_proof ?H ?rs ?n) = merkle_root ?H ?rs"
      by (rule proof_root_merkle_proof) (use ne in simp)
    then have "proof_root ?H ?n (?rs ! ?n) (merkle_proof ?H ?rs ?n) = merkle_root ?H ?ps" by (simp only: eq)
    moreover have "length (merkle_proof ?H ?rs ?n) = clog2 (length ?ps)"
      by (simp only: length_merkle_proof len)
    ultimately show ?thesis using proof_root_sound [OF len(2)] last by metis
  qed
  with path leads [unfolded hd] padded show ?thesis by (intro exI [of _ ?path]) metis
qed

theorem coinbase_proof_not_padded_witness:
  "\<exists>path s. node_list s = [leaf 5] \<and> treeSize s = 4 \<and>
    snd (GetMerkleProofForCoinbase doubling mix_sha
      [zero_subtree\<lparr>Height := 2, treeSize := 4, Nodes := Slice [leaf 1, leaf 2, leaf 3, leaf 4] []\<rparr>, s]) =
      Ok path \<and>
    proof_root (hash_pair mix_sha) 0 1 path = 79 \<and>
    merkle_root (hash_pair mix_sha) [1, 2, 3, 4, 5] = 334"
proof -
  define a where "a = zero_subtree\<lparr>Height := 2, treeSize := 4, Nodes := Slice [leaf 1, leaf 2, leaf 3, leaf 4] []\<rparr>"
  define s where "s = zero_subtree\<lparr>Height := 2, treeSize := 4, Nodes := Slice [leaf 5] [zero_node, zero_node, zero_node]\<rparr>"
  have l: "Hash (leaf n) = of_nat n" for n by (simp add: leaf_def)
  have nl: "node_list a = [leaf 1, leaf 2, leaf 3, leaf 4]" "node_list s = [leaf 5]" by (simp_all add: a_def s_def)
  have nodes: "hashes a = [1, 2, 3, 4]" "hashes s = [5]" by (simp_all add: nl l)
  have "cache_valid mix_sha a" "cache_valid mix_sha s"
    by (simp_all add: cache_valid_def a_def s_def zero_subtree_def)
  then have prov: "provable mix_sha a" "provable mix_sha s"
    by (simp_all add: provable_def nodes tree_nonzero_def merkle_levels.simps hash_pair_mix)
      (simp_all add: a_def s_def allocatable_def max_alloc_def)
  have roots: "merkle_root (hash_pair mix_sha) [1, 2, 3, 4] = 62"
    by (simp add: merkle_root_step hash_pair_mix)
  have nz: "tree_nonzero (hash_pair mix_sha) [62, 5]"
    by (simp add: tree_nonzero_def merkle_levels.simps hash_pair_mix)
  have split: "well_split 2 (map node_list [a, s])" by (simp add: well_split_def nl)
  obtain path where "snd (GetMerkleProofForCoinbase doubling mix_sha [a, s]) = Ok path"
    "proof_root (hash_pair mix_sha) 0 (Hash (hd (node_list a))) path = merkle_root (hash_pair mix_sha) [62, 5]"
    using coinbase_proof_not_padded [OF split _ _ _ _ refl, of mix_sha doubling] prov nz
    by (auto simp: roots nodes CoinbasePlaceholder_eq)
  moreover have "merkle_root (hash_pair mix_sha) [62, 5] = 79" "merkle_root (hash_pair mix_sha) [1, 2, 3, 4, 5] = 334"
    by (simp_all add: merkle_root_step hash_pair_mix)
  moreover have "treeSize s = 4" by (simp add: s_def)
  ultimately show ?thesis unfolding a_def using nl(2) by (intro exI [of _ path] exI [of _ s]) (simp add: l)
qed

text \<open>A subtree that holds only the coinbase placeholder has the placeholder as its root, which
  \<open>AddNode\<close> refuses: no proof can be made for a block with such a first subtree.\<close>

theorem coinbase_proof_lone_placeholder:
  assumes "node_list s = [\<lparr>Hash = CoinbasePlaceholder, Fee = 0, NodeSizeInBytes = 0\<rparr>]"
    and "rootHash s = None" and "length ss < 2 ^ 42"
  shows "snd (GetMerkleProofForCoinbase grow sha (s # ss)) =
    Fail (Wrap ''[AddNode] %w'' [ErrCoinbasePlaceholderMisuse])"
proof -
  have n: "1 \<le> length (s # ss)" "length (s # ss) \<le> 2 ^ 42" using assms(3) by simp_all
  then have k: "clog2 (length (s # ss)) \<le> 42" by (simp only: clog2_le_iff)
  then obtain topTree where topTree: "NewTree (int (clog2 (length (s # ss)))) = Ok topTree"
    "node_list topTree = []" "1 \<le> treeSize topTree"
    using NewTree_Ok [of "int (clog2 (length (s # ss)))"] by auto
  have "root_hash sha s = (s\<lparr>rootHash := Some CoinbasePlaceholder\<rparr>, Ok (Some CoinbasePlaceholder))"
    using assms(1,2) by (simp add: root_hash_def RootHash_def Length_def slice_len_def index_get_def)
  moreover have "GetMerkleProof sha 0 s = Ok []"
    using assms(1) by (simp add: GetMerkleProof_def ceil_log2_def pow2_int_def make_slice_def max_alloc_def)
  ultimately show ?thesis
    using NewTreeByLeafCount_ceil [OF n] topTree
    by (simp add: GetMerkleProofForCoinbase_def AddNode_def slice_len_def)
qed

theorem coinbase_proof_lone_placeholder_witness:
  "\<exists>s. AddCoinbaseNode doubling (half_pair\<lparr>Nodes := Slice [] []\<rparr>) = (s, Ok ()) \<and>
    is_fail (snd (GetMerkleProofForCoinbase doubling mix_sha [s]))"
  using coinbase_proof_lone_placeholder
    [of "fst (AddCoinbaseNode doubling (half_pair\<lparr>Nodes := Slice [] []\<rparr>))" "[]" doubling mix_sha]
  by (simp add: AddCoinbaseNode_def slice_len_def half_pair_def)

end
