(* ===== verification/Subtree_Ledger.thy ===== *)
theory Subtree_Ledger
  imports Subtree_Root
begin

text \<open>
  What a \<open>Subtree\<close> promises its users, as an abstract machine: a ledger of at most a given number of
  entries, without sums, cache, index or arrays.  The operations of \<open>subtree.go\<close> refine it, and on a
  mapped subtree they never leave the mapping.
\<close>

section \<open>The ledger\<close>

record ledger =
  capacity :: int
  entries :: "node list"
  conflicts :: "hash list"

text \<open>A reply is what a caller can tell with \<open>errors.Is\<close>.\<close>

datatype reply = Done | Refused go_error | Crash

definition append_entry :: "bool \<Rightarrow> node \<Rightarrow> ledger \<Rightarrow> ledger \<times> reply" where
  "append_entry checked n l =
     (if capacity l \<le> int (length (entries l)) then (l, Refused ErrSubtreeFull)
      else if checked \<and> Hash n = CoinbasePlaceholder then (l, Refused ErrCoinbasePlaceholderMisuse)
      else (l\<lparr>entries := entries l @ [n]\<rparr>, Done))"

fun ledger_step :: "operation \<Rightarrow> ledger \<Rightarrow> ledger \<times> reply" where
  "ledger_step (Do_AddSubtreeNode n) l = append_entry True n l"
| "ledger_step (Do_AddSubtreeNodeWithoutLock n) l = append_entry False n l"
| "ledger_step (Do_AddNode n) l = append_entry True n l"
| "ledger_step Do_AddCoinbaseNode l =
     (if entries l = []
      then (l\<lparr>entries := [\<lparr>Hash = CoinbasePlaceholder, Fee = 0, NodeSizeInBytes = 0\<rparr>]\<rparr>, Done)
      else (l, Refused ErrSubtreeNotEmpty))"
| "ledger_step (Do_AddConflictingNode h) l =
     (if h \<notin> Hash ` set (entries l) then (l, Refused ErrConflictingNodeNotInSubtree)
      else if h \<in> set (conflicts l) then (l, Done)
      else (l\<lparr>conflicts := conflicts l @ [h]\<rparr>, Done))"
| "ledger_step (Do_RemoveNodeAtIndex i) l =
     (if int (length (entries l)) \<le> i then (l, Refused ErrIndexOutOfRange)
      else if i < 0 then (l, Crash)
      else (l\<lparr>entries := take (nat i) (entries l) @ drop (Suc (nat i)) (entries l)\<rparr>, Done))"
| "ledger_step (Do_ReplaceRootNode h fee sz) l =
     (l\<lparr>entries := \<lparr>Hash = h, Fee = fee, NodeSizeInBytes = sz\<rparr> # tl (entries l)\<rparr>, Done)"
| "ledger_step Do_RootHash l = (l, Done)"
| "ledger_step (Do_NodeIndex h) l = (l, Done)"
| "ledger_step Do_Duplicate l = (l, Done)"

fun ledger_run :: "operation list \<Rightarrow> ledger \<Rightarrow> ledger \<times> reply list" where
  "ledger_run [] l = (l, [])"
| "ledger_run (op # ops) l =
     (case ledger_step op l of (l', rep) \<Rightarrow> (case ledger_run ops l' of (l'', reps) \<Rightarrow> (l'', rep # reps)))"

section \<open>The refinement\<close>

text \<open>An operation of the code with its outcome.\<close>

definition forget :: "subtree \<times> 'a outcome \<Rightarrow> subtree \<times> unit outcome" where
  "forget x = (fst x, omap (\<lambda>_. ()) (snd x))"

fun execute :: "growth \<Rightarrow> sha256 \<Rightarrow> operation \<Rightarrow> subtree \<Rightarrow> subtree \<times> unit outcome" where
  "execute grow sha (Do_AddSubtreeNode n) st = AddSubtreeNode grow n st"
| "execute grow sha (Do_AddSubtreeNodeWithoutLock n) st = AddSubtreeNodeWithoutLock grow n st"
| "execute grow sha (Do_AddNode n) st = AddNode grow (Hash n) (Fee n) (NodeSizeInBytes n) st"
| "execute grow sha Do_AddCoinbaseNode st = AddCoinbaseNode grow st"
| "execute grow sha (Do_AddConflictingNode h) st = AddConflictingNode grow h st"
| "execute grow sha (Do_RemoveNodeAtIndex i) st = RemoveNodeAtIndex i st"
| "execute grow sha (Do_ReplaceRootNode h fee sz) st = forget (ReplaceRootNode grow sha h fee sz st)"
| "execute grow sha Do_RootHash st = forget (root_hash sha st)"
| "execute grow sha (Do_NodeIndex h) st = (fst (NodeIndex h st), Ok ())"
| "execute grow sha Do_Duplicate st = (Duplicate st, Ok ())"

fun execute_all ::
  "growth \<Rightarrow> sha256 \<Rightarrow> operation list \<Rightarrow> subtree \<Rightarrow> subtree \<times> unit outcome list" where
  "execute_all grow sha [] st = (st, [])"
| "execute_all grow sha (op # ops) st =
     (case execute grow sha op st of
        (st', r) \<Rightarrow> (case execute_all grow sha ops st' of (st'', rs) \<Rightarrow> (st'', r # rs)))"

definition ledger_of :: "subtree \<Rightarrow> ledger" where
  "ledger_of st = \<lparr>capacity = treeSize st, entries = node_list st, conflicts = elems (ConflictingNodes st)\<rparr>"

fun admits :: "unit outcome \<Rightarrow> reply \<Rightarrow> bool" where
  "admits (Ok _) Done = True"
| "admits (Fail e) (Refused t) = errors_is e t"
| "admits (Panic _) Crash = True"
| "admits _ _ = False"

lemma fst_execute: "fst (execute grow sha op st) = perform grow sha op st"
  by (cases op) (simp_all add: forget_def)

lemma ledger_of_simps [simp]:
  "capacity (ledger_of st) = treeSize st" "entries (ledger_of st) = node_list st"
  "conflicts (ledger_of st) = elems (ConflictingNodes st)"
  by (simp_all add: ledger_of_def)

lemma ledger_of_push: "ledger_of (push grow n st) = (ledger_of st)\<lparr>entries := node_list st @ [n]\<rparr>"
  by (simp add: ledger_of_def)

lemma root_hash_ledger:
  assumes "sound sha st"
  shows "ledger_of (fst (root_hash sha st)) = ledger_of st" "admits (omap (\<lambda>_. ()) (snd (root_hash sha st))) Done"
  using sound_root_hash(2) [OF assms] by (auto simp: ledger_of_def frames)

lemma ledger_of_replaced:
  "ledger_of (replaced grow n st) = (ledger_of st)\<lparr>entries := n # tl (node_list st)\<rparr>"
proof -
  have "ConflictingNodes (replaced grow n st) = ConflictingNodes st" by (simp add: replaced_def Let_def)
  then show ?thesis by (simp add: ledger_of_def replaced_simps)
qed

text \<open>Every operation, on every branch, is the ledger's.\<close>

lemma execute_refines:
  assumes "sound sha st"
  shows "ledger_of (fst (execute grow sha op st)) = fst (ledger_step op (ledger_of st))"
    and "admits (snd (execute grow sha op st)) (snd (ledger_step op (ledger_of st)))"
proof -
  have "ledger_of (fst (execute grow sha op st)) = fst (ledger_step op (ledger_of st)) \<and>
    admits (snd (execute grow sha op st)) (snd (ledger_step op (ledger_of st)))"
  proof (cases op)
    case (Do_AddConflictingNode h)
    then show ?thesis
      by (auto simp: AddConflictingNode_def Let_def list_ex_iff ledger_of_def)
  next
    case (Do_RemoveNodeAtIndex i)
    then show ?thesis
      by (cases "i < 0"; cases "i < int (slice_len (Nodes st))")
        (auto simp: RemoveNodeAtIndex_def index_get_def ledger_of_def slice_len_def Let_def split: option.split)
  next
    case (Do_ReplaceRootNode h fee sz)
    then show ?thesis
      using root_hash_ledger [OF sound_replaced [OF assms]]
      by (simp add: forget_def ReplaceRootNode_eq ledger_of_replaced)
  next
    case Do_RootHash
    then show ?thesis using root_hash_ledger [OF assms] by (simp add: forget_def)
  qed (auto simp: AddSubtreeNode_eq AddSubtreeNodeWithoutLock_eq AddNode_eq append_entry_def ledger_of_push
      slice_len_def AddCoinbaseNode_def Let_def ledger_of_def frames Duplicate_def)
  then show "ledger_of (fst (execute grow sha op st)) = fst (ledger_step op (ledger_of st))"
    and "admits (snd (execute grow sha op st)) (snd (ledger_step op (ledger_of st)))" by simp_all
qed


lemma execute_all_refines:
  "sound sha st \<Longrightarrow> execute_all grow sha ops st = (st', rs) \<Longrightarrow> ledger_run ops (ledger_of st) = (l, reps) \<Longrightarrow>
    sound sha st' \<and> l = ledger_of st' \<and> list_all2 admits rs reps"
proof (induction ops arbitrary: st rs reps)
  case (Cons op ops)
  obtain st1 r where e: "execute grow sha op st = (st1, r)" by fastforce
  obtain rs1 where es: "execute_all grow sha ops st1 = (st', rs1)" "rs = r # rs1"
    using Cons.prems(2) e by (auto split: prod.splits)
  have st1: "st1 = perform grow sha op st" using fst_execute [of grow sha op st] e by simp
  obtain rep where l: "ledger_step op (ledger_of st) = (ledger_of st1, rep)" "admits r rep"
    using execute_refines [OF Cons.prems(1), of grow op] e by (metis prod.collapse fst_conv snd_conv)
  obtain reps1 where ls: "ledger_run ops (ledger_of st1) = (l, reps1)" "reps = rep # reps1"
    using Cons.prems(3) l(1) by (auto split: prod.splits)
  show ?case
    using Cons.IH [OF _ es(1) ls(1)] sound_perform [OF Cons.prems(1)] st1 es(2) ls(2) l(2) by simp
qed (auto simp: Let_def)

fun replaces :: "operation \<Rightarrow> bool" where
  "replaces (Do_ReplaceRootNode h fee sz) = True"
| "replaces op = False"

lemma execute_all_sums:
  "sums_valid st \<Longrightarrow> execute_all grow sha ops st = (st', rs) \<Longrightarrow> \<forall>op\<in>set ops. \<not> replaces op \<Longrightarrow> sums_valid st'"
proof (induction ops arbitrary: st rs)
  case (Cons op ops)
  then have "sums_valid (perform grow sha op st)" by (intro sums_valid_perform) auto
  then show ?case
    using Cons fst_execute [of grow sha op st] by (fastforce split: prod.splits)
qed simp

section \<open>Mapped subtrees\<close>

text \<open>The node slice of a mapped subtree has its place in the mapping as long as its capacity stays the
  size of the tree: \<open>append\<close> only moves to a larger array.\<close>

definition in_mapping :: "mmapNodeStore \<Rightarrow> nat \<Rightarrow> subtree \<Rightarrow> bool" where
  "in_mapping m n st =
     (closer st = Some m \<and> slice_cap (Nodes st) = n \<and> treeSize st = int n \<and> 1 \<le> n)"

lemma append_in_capacity:
  "slice_len s < slice_cap s \<Longrightarrow> slice_cap (append_elem grow z s x) = slice_cap s"
  by (rule slice_cap_append_elem)

lemma in_mapping_push:
  "in_mapping m c st \<Longrightarrow> int (slice_len (Nodes st)) < treeSize st \<Longrightarrow> in_mapping m c (push grow n st)"
  by (simp add: in_mapping_def push_def append_in_capacity)

lemma in_mapping_same:
  "in_mapping m c st \<Longrightarrow> Nodes st' = Nodes st \<Longrightarrow> treeSize st' = treeSize st \<Longrightarrow> closer st' = closer st \<Longrightarrow>
    in_mapping m c st'"
  by (simp add: in_mapping_def)

lemma in_mapping_perform:
  assumes "in_mapping m c st" and "op \<noteq> Do_Duplicate"
  shows "in_mapping m c (perform grow sha op st)"
proof (cases op)
  case (Do_AddSubtreeNode n)
  with assms(1) show ?thesis
    by (cases rule: add_subtree_node.add_cases [of grow n st]) (simp_all add: in_mapping_push)
next
  case (Do_AddSubtreeNodeWithoutLock n)
  with assms(1) show ?thesis
    by (cases rule: add_without_lock.add_cases [of grow n st]) (simp_all add: in_mapping_push)
next
  case (Do_AddNode n)
  with assms(1) show ?thesis
    by (cases rule: add_node.add_cases [of grow n st]) (simp_all add: in_mapping_push)
next
  case Do_AddCoinbaseNode
  with assms(1) show ?thesis
    by (auto simp: AddCoinbaseNode_def Let_def in_mapping_def append_in_capacity)
next
  case (Do_AddConflictingNode h)
  then show ?thesis
    using assms(1) by (auto simp: AddConflictingNode_def Let_def in_mapping_def)
next
  case (Do_RemoveNodeAtIndex i)
  then show ?thesis
    using assms(1)
    by (auto simp: RemoveNodeAtIndex_def Let_def in_mapping_def index_get_def slice_cap_remove_elem slice_len_def
        split: option.split)
next
  case (Do_ReplaceRootNode h fee sz)
  have "slice_cap (Slice ((node_list st)[0 := n]) (spare (Nodes st))) = slice_cap (Nodes st)" for n
    by (simp add: slice_cap_def)
  then have r: "in_mapping m c (replaced grow \<lparr>Hash = h, Fee = fee, NodeSizeInBytes = sz\<rparr> st)"
    using assms(1) by (simp add: replaced_def Let_def in_mapping_def append_in_capacity)
  show ?thesis
    using Do_ReplaceRootNode in_mapping_same [OF r, of "fst (ReplaceRootNode grow sha h fee sz st)"]
    by (simp add: ReplaceRootNode_eq frames)
next
  case Do_RootHash
  then show ?thesis using assms(1) by (auto simp: frames intro: in_mapping_same)
next
  case (Do_NodeIndex h)
  then show ?thesis
    using assms(1) by (auto simp: NodeIndex_def Let_def in_mapping_def)
qed (use assms in simp)

lemma in_mapping_execute_all:
  "in_mapping m c st \<Longrightarrow> execute_all grow sha ops st = (st', rs) \<Longrightarrow> Do_Duplicate \<notin> set ops \<Longrightarrow> in_mapping m c st'"
proof (induction ops arbitrary: st rs)
  case (Cons op ops)
  have "in_mapping m c (fst (execute grow sha op st))"
    using Cons.prems unfolding fst_execute by (intro in_mapping_perform) auto
  with Cons show ?case by (fastforce split: prod.splits)
qed simp


section \<open>Properties\<close>

definition example_operations :: "operation list" where
  "example_operations = [Do_AddCoinbaseNode, Do_AddNode (leaf 2), Do_AddSubtreeNode (leaf 3), Do_NodeIndex 3,
     Do_RemoveNodeAtIndex 0, Do_AddConflictingNode 3, Do_AddNode (leaf 4), Do_AddNode (leaf 5)]"

lemma example_ledger_run:
  "ledger_run example_operations \<lparr>capacity = 2, entries = [], conflicts = []\<rparr> =
    (\<lparr>capacity = 2, entries = [leaf 2, leaf 4], conflicts = []\<rparr>,
     [Done, Done, Refused ErrSubtreeFull, Done, Done, Refused ErrConflictingNodeNotInSubtree, Done,
      Refused ErrSubtreeFull])"
  by (simp add: example_operations_def append_entry_def leaf_def CoinbasePlaceholder_eq)

text \<open>C3: A subtree implements its abstract machine: after any sequence of operations on a new tree, the
  nodes, the capacity and the conflicting nodes are those of the ledger, every reply was the ledger's
  (also the refusals, by their sentinel, and the panics), \<open>RootHash\<close> is Bitcoin's merkle root of the
  entries, and without replacements \<open>Fees\<close> and \<open>SizeInBytes\<close> are the sums over them.\<close>

theorem subtree_refines_ledger:
  assumes "NewTree height = Ok st0" and "execute_all grow sha ops st0 = (st, rs)"
    and "ledger_run ops \<lparr>capacity = 2 ^ nat height, entries = [], conflicts = []\<rparr> = (l, reps)"
  shows "ledger_of st = l \<and> list_all2 admits rs reps \<and>
    (tree_nonzero (hash_pair sha) (map Hash (entries l)) \<longrightarrow>
      snd (RootHash sha (Some st)) = Ok (if entries l = [] then None
        else Some (merkle_root (hash_pair sha) (map Hash (entries l))))) \<and>
    ((\<forall>op\<in>set ops. \<not> replaces op) \<longrightarrow>
      Fees st = sum_list (map Fee (entries l)) \<and> SizeInBytes st = sum_list (map NodeSizeInBytes (entries l)))"
proof -
  have "ledger_of st0 = \<lparr>capacity = 2 ^ nat height, entries = [], conflicts = []\<rparr>"
    using assms(1) by (auto simp: NewTree_eq_Ok ledger_of_def zero_subtree_def)
  then have run: "sound sha st" "l = ledger_of st" "list_all2 admits rs reps"
    using execute_all_refines [OF sound_new [OF assms(1)] assms(2)] assms(3) by simp_all
  have "sums_valid st0" using assms(1) by (auto simp: NewTree_eq_Ok sums_valid_def zero_subtree_def)
  then have "\<forall>op\<in>set ops. \<not> replaces op \<Longrightarrow> sums_valid st" using assms(2) execute_all_sums by blast
  moreover have "snd (RootHash sha (Some st)) = Ok (if node_list st = [] then None
      else Some (merkle_root (hash_pair sha) (hashes st)))" if "tree_nonzero (hash_pair sha) (hashes st)"
    using sound_root [OF run(1) that] .
  ultimately show ?thesis using run(2,3) by (auto simp: sums_valid_def)
qed

theorem subtree_refines_ledger_witness:
  "\<exists>st rs. execute_all doubling mix_sha example_operations
      (zero_subtree\<lparr>Height := 1, treeSize := 2, Nodes := Slice [] [zero_node, zero_node]\<rparr>) = (st, rs) \<and>
    node_list st = [leaf 2, leaf 4] \<and> Fees st = 60"
proof -
  let ?st0 = "zero_subtree\<lparr>Height := 1, treeSize := 2, Nodes := Slice [] [zero_node, zero_node]\<rparr>"
  obtain st rs where e: "execute_all doubling mix_sha example_operations ?st0 = (st, rs)" by fastforce
  have new: "NewTree 1 = Ok ?st0" by (simp add: NewTree_eq_Ok zero_subtree_def numeral_2_eq_2)
  have "\<forall>op\<in>set example_operations. \<not> replaces op" by (simp add: example_operations_def)
  with subtree_refines_ledger [OF new e] example_ledger_run e show ?thesis
    by (auto simp: ledger_of_def leaf_def)
qed

lemma NewTreeMmap_Ok:
  assumes "os_documented os" and "NewTreeMmap os height dir w = (w1, Ok st0)"
  obtains m where "holds m w w1" and "0 \<le> height" and "height < 63"
    and "st0 = zero_subtree\<lparr>Nodes := Slice [] (replicate (2 ^ nat height) zero_node), Height := height,
      FeeHash := 0, treeSize := 2 ^ nat height, closer := Some m\<rparr>"
proof -
  obtain w' nodes m where h: "0 \<le> height"
    and new: "newFileBackedMmapNodes os (pow2_int height) dir w = (w', Ok (nodes, m))"
    and w': "w1 = w'"
    and st0: "st0 = zero_subtree\<lparr>Nodes := nodes, Height := height, FeeHash := 0,
      treeSize := pow2_int height, closer := Some m\<rparr>"
    using assms(2) unfolding NewTreeMmap_def Let_def
    by (fastforce split: if_splits prod.splits outcome.splits)
  note r = newFileBackedMmapNodes_Ok [OF assms(1) new]
  then have "0 < pow2_int height" by simp
  with h have "height < 63" by (simp add: pow2_int_def min_int_def split: if_splits)
  with h have "pow2_int height = 2 ^ nat height" by (simp add: pow2_int_def)
  with that [of m] r w' st0 h \<open>height < 63\<close> show thesis by (simp add: nat_power_eq)
qed



end
