(* ===== verification/Subtree_Concurrent.thy ===== *)
theory Subtree_Concurrent
  imports Subtree "HOL-Library.Multiset"
begin

text \<open>
  The mutex of a \<open>Subtree\<close>: goroutines that call \<open>AddSubtreeNode\<close>, \<open>RemoveNodeAtIndex\<close>,
  \<open>Length\<close>, \<open>Size\<close>, \<open>IsComplete\<close> and \<open>NodeIndex\<close> on one subtree, statement by statement, under any
  schedule.  The first five hold the mutex from their first statement to their last, and any run of
  them is a run of the atomic methods of \<open>Subtree\<close> in some order; \<open>NodeIndex\<close> reads the index
  outside of the mutex, and is not.
\<close>

section \<open>Statements\<close>

datatype call =
    Call_AddSubtreeNode node
  | Call_RemoveNodeAtIndex int
  | Call_Length
  | Call_Size
  | Call_IsComplete
  | Call_NodeIndex hash

datatype returned = Err_result "unit outcome" | Int_result int | Bool_result bool

text \<open>The next statement of a goroutine in a call, with its local variables.  \<open>Enter c\<close> is the
  statement of \<open>c\<close> that takes the mutex, \<open>Leave\<close> and \<open>Leave_read\<close> are the release (deferred or not)
  with the return.\<close>

datatype add_pc = Add_guard | Add_append | Add_reset | Add_fee | Add_bytes | Add_put

datatype remove_pc =
    Remove_guard | Remove_fee | Remove_bytes | Remove_hash
  | Remove_shift hash | Remove_reset hash | Remove_delete hash

datatype index_pc = Index_test | Index_make | Index_fill int "node list" | Index_unlock | Index_lookup

datatype pc =
    Enter call
  | Adding node add_pc
  | Removing int remove_pc
  | Read call
  | Indexing hash index_pc
  | Leave returned
  | Leave_read returned

text \<open>The statements of \<open>AddSubtreeNode\<close>.\<close>

fun add_statement :: "growth \<Rightarrow> node \<Rightarrow> add_pc \<Rightarrow> subtree \<Rightarrow> subtree \<times> (pc + returned)" where
  "add_statement grow n Add_guard st =
     (st, Inl (if int (slice_len (Nodes st)) + 1 > treeSize st then Leave (Err_result (Fail ErrSubtreeFull))
      else if Hash n = CoinbasePlaceholder then
        Leave (Err_result (Fail (Wrap ''[AddSubtreeNode] %w, tree length is %d'' [ErrCoinbasePlaceholderMisuse])))
      else Adding n Add_append))"
| "add_statement grow n Add_append st =
     (st\<lparr>Nodes := append_elem grow zero_node (Nodes st) n\<rparr>, Inl (Adding n Add_reset))"
| "add_statement grow n Add_reset st = (st\<lparr>rootHash := None\<rparr>, Inl (Adding n Add_fee))"
| "add_statement grow n Add_fee st = (st\<lparr>Fees := Fees st + Fee n\<rparr>, Inl (Adding n Add_bytes))"
| "add_statement grow n Add_bytes st =
     (st\<lparr>SizeInBytes := SizeInBytes st + NodeSizeInBytes n\<rparr>, Inl (Adding n Add_put))"
| "add_statement grow n Add_put st =
     ((case nodeIndex st of
         None \<Rightarrow> st
       | Some m \<Rightarrow> st\<lparr>nodeIndex := Some (m(Hash n \<mapsto> int (slice_len (Nodes st)) - 1))\<rparr>),
      Inl (Leave (Err_result (Ok ()))))"

text \<open>The statements of \<open>RemoveNodeAtIndex\<close>; a panic of \<open>st.Nodes[index]\<close> runs the deferred
  \<open>Unlock\<close>.\<close>

definition at_index :: "int \<Rightarrow> subtree \<Rightarrow> (node \<Rightarrow> subtree \<times> (pc + returned)) \<Rightarrow> subtree \<times> (pc + returned)" where
  "at_index i st f =
     (case index_get (elems (Nodes st)) i of
        Ok n \<Rightarrow> f n
      | Fail e \<Rightarrow> (st, Inl (Leave (Err_result (Fail e))))
      | Panic p \<Rightarrow> (st, Inl (Leave (Err_result (Panic p)))))"

fun remove_statement :: "int \<Rightarrow> remove_pc \<Rightarrow> subtree \<Rightarrow> subtree \<times> (pc + returned)" where
  "remove_statement i Remove_guard st =
     (st, Inl (if i \<ge> int (slice_len (Nodes st)) then Leave (Err_result (Fail ErrIndexOutOfRange))
      else Removing i Remove_fee))"
| "remove_statement i Remove_fee st =
     at_index i st (\<lambda>n. (st\<lparr>Fees := Fees st - Fee n\<rparr>, Inl (Removing i Remove_bytes)))"
| "remove_statement i Remove_bytes st =
     at_index i st (\<lambda>n. (st\<lparr>SizeInBytes := SizeInBytes st - NodeSizeInBytes n\<rparr>, Inl (Removing i Remove_hash)))"
| "remove_statement i Remove_hash st = at_index i st (\<lambda>n. (st, Inl (Removing i (Remove_shift (Hash n)))))"
| "remove_statement i (Remove_shift h) st =
     (st\<lparr>Nodes := remove_elem (Nodes st) (nat i)\<rparr>, Inl (Removing i (Remove_reset h)))"
| "remove_statement i (Remove_reset h) st = (st\<lparr>rootHash := None\<rparr>, Inl (Removing i (Remove_delete h)))"
| "remove_statement i (Remove_delete h) st =
     ((case nodeIndex st of
         None \<Rightarrow> st
       | Some m \<Rightarrow> st\<lparr>nodeIndex := Some (m(h := None))\<rparr>),
      Inl (Leave (Err_result (Ok ()))))"

text \<open>The statements of \<open>NodeIndex\<close>: the test and the lookup are outside of the mutex.  The range
  of the loop is the slice as it was when the loop began.\<close>

fun index_statement :: "hash \<Rightarrow> index_pc \<Rightarrow> subtree \<Rightarrow> subtree \<times> (pc + returned)" where
  "index_statement h Index_test st =
     (st, Inl (if nodeIndex st = None then Enter (Call_NodeIndex h) else Indexing h Index_lookup))"
| "index_statement h Index_make st =
     (st\<lparr>nodeIndex := Some Map.empty\<rparr>, Inl (Indexing h (Index_fill 0 (elems (Nodes st)))))"
| "index_statement h (Index_fill idx []) st = (st, Inl (Indexing h Index_unlock))"
| "index_statement h (Index_fill idx (n # ns)) st =
     (st\<lparr>nodeIndex := map_option (\<lambda>m. m(Hash n \<mapsto> idx)) (nodeIndex st)\<rparr>,
      Inl (Indexing h (Index_fill (idx + 1) ns)))"
| "index_statement h Index_unlock st = (st, Inl (Indexing h Index_lookup))"
| "index_statement h Index_lookup st =
     (st, Inr (Int_result
       (case Option.bind (nodeIndex st) (\<lambda>m. m h) of Some i \<Rightarrow> i | None \<Rightarrow> - 1)))"

text \<open>\<open>Size\<close>, \<open>Length\<close> and \<open>IsComplete\<close> read under the read lock.\<close>

fun read_statement :: "call \<Rightarrow> subtree \<Rightarrow> returned" where
  "read_statement Call_Size st = Int_result (int (slice_cap (Nodes st)))"
| "read_statement Call_Length st = Int_result (int (slice_len (Nodes st)))"
| "read_statement c st = Bool_result (slice_len (Nodes st) = slice_cap (Nodes st))"

fun entry :: "call \<Rightarrow> pc" where
  "entry (Call_NodeIndex h) = Indexing h Index_test"
| "entry c = Enter c"

fun entered :: "call \<Rightarrow> pc" where
  "entered (Call_AddSubtreeNode n) = Adding n Add_guard"
| "entered (Call_RemoveNodeAtIndex i) = Removing i Remove_guard"
| "entered (Call_NodeIndex h) = Indexing h Index_make"
| "entered c = Read c"

fun advance :: "growth \<Rightarrow> pc \<Rightarrow> subtree \<Rightarrow> subtree \<times> (pc + returned)" where
  "advance grow (Enter c) st = (st, Inl (entered c))"
| "advance grow (Adding n a) st = add_statement grow n a st"
| "advance grow (Removing i a) st = remove_statement i a st"
| "advance grow (Read c) st = (st, Inl (Leave_read (read_statement c st)))"
| "advance grow (Indexing h a) st = index_statement h a st"
| "advance grow (Leave v) st = (st, Inr v)"
| "advance grow (Leave_read v) st = (st, Inr v)"

section \<open>The mutex and the goroutines\<close>

datatype lock_action = Lock | RLock | Unlock | RUnlock | Compute

fun action :: "pc \<Rightarrow> lock_action" where
  "action (Enter c) = (if c \<in> {Call_Length, Call_Size, Call_IsComplete} then RLock else Lock)"
| "action (Leave v) = Unlock"
| "action (Indexing h Index_unlock) = Unlock"
| "action (Leave_read v) = RUnlock"
| "action p = Compute"

text \<open>\<open>sync.RWMutex\<close>: one writer or several readers.  None means that the goroutine has to wait.\<close>

record rwmutex =
  writer :: "nat option"
  readers :: "nat set"

fun lock_do :: "lock_action \<Rightarrow> nat \<Rightarrow> rwmutex \<Rightarrow> rwmutex option" where
  "lock_do Lock i m = (if writer m = None \<and> readers m = {} then Some (m\<lparr>writer := Some i\<rparr>) else None)"
| "lock_do RLock i m = (if writer m = None then Some (m\<lparr>readers := insert i (readers m)\<rparr>) else None)"
| "lock_do Unlock i m = Some (m\<lparr>writer := None\<rparr>)"
| "lock_do RUnlock i m = Some (m\<lparr>readers := readers m - {i}\<rparr>)"
| "lock_do Compute i m = Some m"

text \<open>A goroutine makes a list of calls, one after the other, and keeps what they return.\<close>

record goroutine =
  todo :: "call list"
  running :: "(call \<times> pc) option"
  results :: "(call \<times> returned) list"

record system =
  shared :: subtree
  mutex :: rwmutex
  threads :: "nat \<Rightarrow> goroutine"

fun after :: "call \<Rightarrow> pc + returned \<Rightarrow> goroutine \<Rightarrow> goroutine" where
  "after c (Inl p) t = t\<lparr>running := Some (c, p)\<rparr>"
| "after c (Inr v) t = t\<lparr>running := None, results := results t @ [(c, v)]\<rparr>"

inductive conc_step :: "growth \<Rightarrow> system \<Rightarrow> system \<Rightarrow> bool" for grow where
  begins: "running (threads s i) = None \<Longrightarrow> todo (threads s i) = c # cs \<Longrightarrow>
    conc_step grow s
      (s\<lparr>threads := (threads s)(i := (threads s i)\<lparr>todo := cs, running := Some (c, entry c)\<rparr>)\<rparr>)"
| moves: "running (threads s i) = Some (c, p) \<Longrightarrow> lock_do (action p) i (mutex s) = Some m \<Longrightarrow>
    advance grow p (shared s) = (st, r) \<Longrightarrow>
    conc_step grow s
      (s\<lparr>shared := st, mutex := m, threads := (threads s)(i := after c r (threads s i))\<rparr>)"

definition start_system :: "subtree \<Rightarrow> call list list \<Rightarrow> system" where
  "start_system st programs =
     \<lparr>shared = st, mutex = \<lparr>writer = None, readers = {}\<rparr>,
      threads = (\<lambda>i. \<lparr>todo = (if i < length programs then programs ! i else []), running = None,
        results = []\<rparr>)\<rparr>"

definition finished :: "system \<Rightarrow> bool" where
  "finished s = (\<forall>i. running (threads s i) = None \<and> todo (threads s i) = [])"

section \<open>The statements of a call make up the atomic_call\<close>

fun atomic_call :: "growth \<Rightarrow> call \<Rightarrow> subtree \<Rightarrow> subtree \<times> returned" where
  "atomic_call grow (Call_AddSubtreeNode n) st = (case AddSubtreeNode grow n st of (st', r) \<Rightarrow> (st', Err_result r))"
| "atomic_call grow (Call_RemoveNodeAtIndex i) st = (case RemoveNodeAtIndex i st of (st', r) \<Rightarrow> (st', Err_result r))"
| "atomic_call grow Call_Length st = (st, Int_result (int (Length st)))"
| "atomic_call grow Call_Size st = (st, Int_result (int (Size st)))"
| "atomic_call grow Call_IsComplete st = (st, Bool_result (IsComplete st))"
| "atomic_call grow (Call_NodeIndex h) st = (case NodeIndex h st of (st', i) \<Rightarrow> (st', Int_result i))"

text \<open>The number of statements left to a goroutine that runs alone.\<close>

fun left :: "pc \<Rightarrow> subtree \<Rightarrow> nat" where
  "left (Enter c) st =
     (case c of Call_AddSubtreeNode n \<Rightarrow> 8 | Call_RemoveNodeAtIndex i \<Rightarrow> 9
      | Call_NodeIndex h \<Rightarrow> length (elems (Nodes st)) + 5 | _ \<Rightarrow> 3)"
| "left (Adding n Add_guard) st = 7" | "left (Adding n Add_append) st = 6" | "left (Adding n Add_reset) st = 5"
| "left (Adding n Add_fee) st = 4" | "left (Adding n Add_bytes) st = 3" | "left (Adding n Add_put) st = 2"
| "left (Removing i Remove_guard) st = 8" | "left (Removing i Remove_fee) st = 7" | "left (Removing i Remove_bytes) st = 6"
| "left (Removing i Remove_hash) st = 5" | "left (Removing i (Remove_shift h)) st = 4" | "left (Removing i (Remove_reset h)) st = 3"
| "left (Removing i (Remove_delete h)) st = 2"
| "left (Read c) st = 2"
| "left (Indexing h Index_test) st = length (elems (Nodes st)) + 6"
| "left (Indexing h Index_make) st = length (elems (Nodes st)) + 4"
| "left (Indexing h (Index_fill idx [])) st = 3"
| "left (Indexing h (Index_fill idx (n # ns))) st = length ns + 4"
| "left (Indexing h Index_unlock) st = 2" | "left (Indexing h Index_lookup) st = 1"
| "left (Leave v) st = 1" | "left (Leave_read v) st = 1"

lemma left_fill [simp]: "left (Indexing h (Index_fill idx ns)) st = length ns + 3"
  by (cases ns) simp_all

lemma left_positive: "0 < left p st"
  by (induction p st rule: left.induct) (simp_all split: call.split)

lemma advance_left: "advance grow p st = (st', Inl q) \<Longrightarrow> left q st' < left p st"
  by (cases "(p, zero_subtree)" rule: left.cases)
    (auto simp: at_index_def split: if_splits outcome.splits call.splits)

function finish :: "growth \<Rightarrow> pc \<Rightarrow> subtree \<Rightarrow> subtree \<times> returned" where
  "finish grow p st =
     (case advance grow p st of
        (st', Inl q) \<Rightarrow> finish grow q st'
      | (st', Inr v) \<Rightarrow> (st', v))"
  by pat_completeness auto
termination
  by (relation "measure (\<lambda>(grow, p, st). left p st)") (auto dest: advance_left sym)

declare finish.simps [simp del]

lemma finish_Inl: "advance grow p st = (st', Inl q) \<Longrightarrow> finish grow p st = finish grow q st'"
  by (subst finish.simps) simp

lemma finish_Inr: "advance grow p st = (st', Inr v) \<Longrightarrow> finish grow p st = (st', v)"
  by (subst finish.simps) simp

lemma finish_fill:
  "nodeIndex st = Some m \<Longrightarrow>
    finish grow (Indexing h (Index_fill idx ns)) st =
      finish grow (Indexing h Index_lookup) (st\<lparr>nodeIndex := Some (index_nodes idx ns m)\<rparr>)"
proof (induction ns arbitrary: idx m st)
  case Nil
  have "finish grow (Indexing h (Index_fill idx [])) st = finish grow (Indexing h Index_lookup) st"
    by (simp add: finish_Inl [of grow "Indexing h (Index_fill idx [])" st] finish_Inl [of grow "Indexing h Index_unlock" st])
  moreover have "st\<lparr>nodeIndex := Some (index_nodes idx [] m)\<rparr> = st" using Nil by (cases st) simp
  ultimately show ?case by simp
next
  case (Cons n ns)
  have "finish grow (Indexing h (Index_fill idx (n # ns))) st =
      finish grow (Indexing h (Index_fill (idx + 1) ns)) (st\<lparr>nodeIndex := Some (m(Hash n \<mapsto> idx))\<rparr>)"
    by (rule finish_Inl) (simp add: Cons.prems)
  then show ?case by (simp add: Cons.IH fun_upd_def)
qed

lemmas finish_Leave = finish.simps [of _ "Leave v" for v] finish.simps [of _ "Leave_read v" for v]

lemmas finish_Add =
  finish.simps [of _ "Enter (Call_AddSubtreeNode n)" for n] finish.simps [of _ "Adding n Add_guard" for n]
  finish.simps [of _ "Adding n Add_append" for n] finish.simps [of _ "Adding n Add_reset" for n]
  finish.simps [of _ "Adding n Add_fee" for n] finish.simps [of _ "Adding n Add_bytes" for n]
  finish.simps [of _ "Adding n Add_put" for n]

lemmas finish_Remove =
  finish.simps [of _ "Enter (Call_RemoveNodeAtIndex i)" for i] finish.simps [of _ "Removing i Remove_guard" for i]
  finish.simps [of _ "Removing i Remove_fee" for i] finish.simps [of _ "Removing i Remove_bytes" for i]
  finish.simps [of _ "Removing i Remove_hash" for i] finish.simps [of _ "Removing i (Remove_shift h)" for i h]
  finish.simps [of _ "Removing i (Remove_reset h)" for i h] finish.simps [of _ "Removing i (Remove_delete h)" for i h]

lemmas finish_Read =
  finish.simps [of _ "Enter Call_Length"] finish.simps [of _ "Enter Call_Size"]
  finish.simps [of _ "Enter Call_IsComplete"] finish.simps [of _ "Read c" for c]

lemmas finish_Index =
  finish.simps [of _ "Enter (Call_NodeIndex h)" for h] finish.simps [of _ "Indexing h Index_test" for h]
  finish.simps [of _ "Indexing h Index_make" for h] finish.simps [of _ "Indexing h Index_lookup" for h] finish_fill

lemma finish_entry: "finish grow (entry c) st = atomic_call grow c st"
proof (cases c)
  case (Call_AddSubtreeNode n)
  then show ?thesis
    by (simp add: finish_Add finish_Leave AddSubtreeNode_def Let_def split: option.split)
next
  case (Call_RemoveNodeAtIndex i)
  then show ?thesis
    by (cases "i < 0"; cases "int (slice_len (Nodes st)) \<le> i")
      (simp_all add: finish_Remove finish_Leave RemoveNodeAtIndex_def Let_def at_index_def slice_len_def
        index_get_def split: option.split)
next
  case (Call_NodeIndex h)
  then show ?thesis
    by (cases "nodeIndex st") (simp_all add: finish_Index NodeIndex_def Let_def)
qed (simp_all add: finish_Read finish_Leave Length_def Size_def IsComplete_def)

section \<open>Who holds the mutex\<close>

datatype phase = Outside | Reading | Writing

fun phase_of :: "pc \<Rightarrow> phase" where
  "phase_of (Enter c) = Outside"
| "phase_of (Indexing h Index_test) = Outside"
| "phase_of (Indexing h Index_lookup) = Outside"
| "phase_of (Read c) = Reading"
| "phase_of (Leave_read v) = Reading"
| "phase_of p = Writing"

definition phase_at :: "goroutine \<Rightarrow> phase" where
  "phase_at t = (case running t of None \<Rightarrow> Outside | Some (c, p) \<Rightarrow> phase_of p)"

definition next_phase :: "pc + returned \<Rightarrow> phase" where
  "next_phase r = (case r of Inl q \<Rightarrow> phase_of q | Inr v \<Rightarrow> Outside)"

definition mutex_ok :: "system \<Rightarrow> bool" where
  "mutex_ok s =
     ((\<forall>i. writer (mutex s) = Some i \<longleftrightarrow> phase_at (threads s i) = Writing) \<and>
      readers (mutex s) = {i. phase_at (threads s i) = Reading} \<and>
      (writer (mutex s) \<noteq> None \<longrightarrow> readers (mutex s) = {}))"

lemma phase_at_simps [simp]:
  "running t = None \<Longrightarrow> phase_at t = Outside" "running t = Some (c, p) \<Longrightarrow> phase_at t = phase_of p"
  by (simp_all add: phase_at_def)

lemma phase_at_after [simp]: "phase_at (after c r t) = next_phase r"
  by (cases r) (simp_all add: next_phase_def)

text \<open>A statement changes the phase exactly as it takes or releases the mutex, and changes the subtree
  only while it holds the mutex for writing.\<close>

lemma phase_entry [simp]: "phase_of (entry c) = Outside"
  by (cases c) simp_all

lemma phase_entered [simp]:
  "phase_of (entered c) = (if c \<in> {Call_Length, Call_Size, Call_IsComplete} then Reading else Writing)"
  by (cases c) simp_all

lemma advance_phase:
  assumes "advance grow p st = (st', r)"
  shows "(case action p of
      Lock \<Rightarrow> phase_of p = Outside \<and> next_phase r = Writing \<and> st' = st
    | RLock \<Rightarrow> phase_of p = Outside \<and> next_phase r = Reading \<and> st' = st
    | Unlock \<Rightarrow> phase_of p = Writing \<and> next_phase r = Outside \<and> st' = st
    | RUnlock \<Rightarrow> phase_of p = Reading \<and> next_phase r = Outside \<and> st' = st
    | Compute \<Rightarrow> next_phase r = phase_of p \<and> (phase_of p \<noteq> Writing \<longrightarrow> st' = st))"
  using assms
  by (cases "(p, zero_subtree)" rule: left.cases)
    (auto simp: at_index_def next_phase_def split: if_splits outcome.splits call.splits)

lemma mutex_ok_start: "mutex_ok (start_system st programs)"
  by (simp add: mutex_ok_def start_system_def)

lemma mutex_ok_step: "conc_step grow s s' \<Longrightarrow> mutex_ok s \<Longrightarrow> mutex_ok s'"
proof (induction rule: conc_step.induct)
  case (begins s i c cs)
  then show ?case by (auto simp: mutex_ok_def)
next
  case (moves s i c p m st r)
  have w: "\<And>j. writer (mutex s) = Some j \<longleftrightarrow> phase_at (threads s j) = Writing"
    and r: "readers (mutex s) = {j. phase_at (threads s j) = Reading}"
    and "writer (mutex s) \<noteq> None \<longrightarrow> readers (mutex s) = {}"
    using moves.prems unfolding mutex_ok_def by blast+
  then have excl: "\<And>j k. phase_at (threads s j) = Writing \<Longrightarrow> phase_at (threads s k) \<noteq> Reading"
    by (metis (mono_tags, lifting) empty_iff mem_Collect_eq option.distinct(1))
  have uniq: "\<And>j k. phase_at (threads s j) = Writing \<Longrightarrow> phase_at (threads s k) = Writing \<Longrightarrow> j = k"
    by (metis w option.inject)
  have i: "phase_at (threads s i) = phase_of p" using moves.hyps(1) by simp
  note facts = advance_phase [OF moves.hyps(3)] moves.hyps(2) i r
  have none: "writer (mutex s) = None \<longleftrightarrow> (\<forall>j. phase_at (threads s j) \<noteq> Writing)"
    by (metis w not_None_eq)
  show ?case
  proof (cases "action p")
    case Lock
    with facts none show ?thesis by (auto simp: mutex_ok_def split: if_splits)
  next
    case RLock
    with facts none show ?thesis by (auto simp: mutex_ok_def split: if_splits)
  next
    case Unlock
    with facts excl uniq show ?thesis by (auto simp: mutex_ok_def)
  next
    case RUnlock
    with facts w excl show ?thesis by (auto simp: mutex_ok_def)
  next
    case Compute
    with facts w excl show ?thesis by (auto simp: mutex_ok_def)
  qed
qed

text \<open>\<open>runs grow s s'\<close>: a schedule leads from \<open>s\<close> to \<open>s'\<close>.\<close>

inductive runs :: "growth \<Rightarrow> system \<Rightarrow> system \<Rightarrow> bool" for grow s where
  none: "runs grow s s"
| more: "runs grow s t \<Longrightarrow> conc_step grow t u \<Longrightarrow> runs grow s u"

lemma mutex_ok_runs: "runs grow s t \<Longrightarrow> mutex_ok s \<Longrightarrow> mutex_ok t"
  by (induction rule: runs.induct) (auto intro: mutex_ok_step)

section \<open>Progress\<close>

lemma Outside_or_enabled:
  "phase_of p \<noteq> Outside \<Longrightarrow> \<exists>m'. lock_do (action p) i m = Some m'"
  by (cases "(p, zero_subtree)" rule: left.cases) auto

lemma some_step:
  assumes ok: "mutex_ok s" and "\<not> finished s"
  shows "\<exists>s'. conc_step grow s s'"
proof -
  have go: "\<exists>s'. conc_step grow s s'"
    if "running (threads s i) = Some (c, p)" "lock_do (action p) i (mutex s) = Some m" for i c p m
    using moves [OF that] by (metis prod.collapse)
  obtain i where i: "running (threads s i) \<noteq> None \<or> todo (threads s i) \<noteq> []"
    using assms(2) by (auto simp: finished_def)
  show ?thesis
  proof (cases "running (threads s i)")
    case None
    then show ?thesis using i begins [OF None] by (cases "todo (threads s i)") blast+
  next
    case (Some x)
    obtain c p where x: "running (threads s i) = Some (c, p)" using Some by (cases x) simp
    show ?thesis
    proof (cases "lock_do (action p) i (mutex s)")
      case (Some m)
      with x show ?thesis by (rule go)
    next
      case None
      then have "writer (mutex s) \<noteq> None \<or> readers (mutex s) \<noteq> {}"
        by (cases "action p") (auto split: if_splits)
      then obtain j where "phase_at (threads s j) \<noteq> Outside"
        using ok by (fastforce simp: mutex_ok_def)
      then obtain c' p' where j: "running (threads s j) = Some (c', p')" "phase_of p' \<noteq> Outside"
        by (auto simp: phase_at_def split: option.splits)
      obtain m' where "lock_do (action p') j (mutex s) = Some m'"
        using Outside_or_enabled [OF j(2)] by blast
      with j(1) show ?thesis by (rule go)
    qed
  qed
qed

section \<open>Every schedule is a sequence of atomic calls\<close>

fun locked :: "call \<Rightarrow> bool" where
  "locked (Call_NodeIndex h) = False"
| "locked c = True"

fun of_call :: "call \<Rightarrow> pc \<Rightarrow> bool" where
  "of_call c (Enter c') = (c' = c)"
| "of_call c (Indexing h a) = False"
| "of_call c p = True"

lemma entry_locked: "locked c \<Longrightarrow> entry c = Enter c"
  by (cases c) simp_all

lemma of_call_Outside: "of_call c p \<Longrightarrow> phase_of p = Outside \<Longrightarrow> p = Enter c"
  by (cases p) simp_all

lemma of_call_entered [simp]: "locked c \<Longrightarrow> of_call c (entered c)"
  by (cases c) simp_all

lemma of_call_advance:
  "locked c \<Longrightarrow> of_call c p \<Longrightarrow> advance grow p st = (st', Inl q) \<Longrightarrow> of_call c q"
  by (cases "(p, zero_subtree)" rule: left.cases)
    (auto simp: at_index_def split: if_splits outcome.splits call.splits)

lemma of_call_returns:
  "of_call c p \<Longrightarrow> advance grow p st = (st', r) \<Longrightarrow>
    (\<exists>v. r = Inr v) \<longleftrightarrow> action p = Unlock \<or> action p = RUnlock"
  by (cases "(p, zero_subtree)" rule: left.cases)
    (auto simp: at_index_def split: if_splits outcome.splits call.splits)

text \<open>The calls of a goroutine, in order, and what it has returned or is bound to return.\<close>

definition calls_of :: "goroutine \<Rightarrow> call list" where
  "calls_of t = map fst (results t) @ (case running t of None \<Rightarrow> [] | Some (c, p) \<Rightarrow> [c]) @ todo t"

definition bound_returns :: "growth \<Rightarrow> subtree \<Rightarrow> goroutine \<Rightarrow> (call \<times> returned) list" where
  "bound_returns grow st t = results t @
     (case running t of
        None \<Rightarrow> []
      | Some (c, p) \<Rightarrow> if phase_of p = Outside then [] else [(c, snd (finish grow p st))])"

text \<open>The subtree as it is when the writer, if there is one, has finished.\<close>

definition completed :: "growth \<Rightarrow> system \<Rightarrow> subtree" where
  "completed grow s =
     (case writer (mutex s) of
        None \<Rightarrow> shared s
      | Some i \<Rightarrow> fst (finish grow (snd (the (running (threads s i)))) (shared s)))"

text \<open>The calls one after the other, with who made them and what they return.\<close>

fun run_calls ::
  "growth \<Rightarrow> (nat \<times> call) list \<Rightarrow> subtree \<Rightarrow> subtree \<times> (nat \<times> call \<times> returned) list" where
  "run_calls grow [] st = (st, [])"
| "run_calls grow ((i, c) # h) st =
     (case atomic_call grow c st of
        (st', v) \<Rightarrow> (case run_calls grow h st' of (st'', log) \<Rightarrow> (st'', (i, c, v) # log)))"

definition returns_of :: "nat \<Rightarrow> (nat \<times> call \<times> returned) list \<Rightarrow> (call \<times> returned) list" where
  "returns_of i log = map snd (filter (\<lambda>e. fst e = i) log)"

definition serial :: "growth \<Rightarrow> subtree \<Rightarrow> system \<Rightarrow> bool" where
  "serial grow st0 s =
     (\<exists>h log. run_calls grow h st0 = (completed grow s, log) \<and>
        (\<forall>i. returns_of i log = bound_returns grow (shared s) (threads s i)))"

definition locked_ok :: "system \<Rightarrow> bool" where
  "locked_ok s =
     (\<forall>i. (\<forall>c\<in>set (calls_of (threads s i)). locked c) \<and>
        (\<forall>c p. running (threads s i) = Some (c, p) \<longrightarrow> of_call c p))"

lemma run_calls_snoc:
  "run_calls grow h st = (st', log) \<Longrightarrow> atomic_call grow c st' = (st'', v) \<Longrightarrow>
    run_calls grow (h @ [(i, c)]) st = (st'', log @ [(i, c, v)])"
  by (induction grow h st arbitrary: st' log rule: run_calls.induct) (auto split: prod.splits)

lemma run_calls_calls: "run_calls grow h st = (st', log) \<Longrightarrow> map (\<lambda>(i, c, v). (i, c)) log = h"
  by (induction grow h st arbitrary: st' log rule: run_calls.induct) (auto split: prod.splits)

lemma returns_of_simps [simp]:
  "returns_of i [] = []"
  "returns_of i (log @ [(j, x)]) = returns_of i log @ (if j = i then [x] else [])"
  by (simp_all add: returns_of_def)

lemma calls_of_step: "conc_step grow s s' \<Longrightarrow> calls_of (threads s' i) = calls_of (threads s i)"
proof (induction rule: conc_step.induct)
  case (moves s j c p m st r)
  then show ?case by (cases r) (simp_all add: calls_of_def)
qed (auto simp: calls_of_def)

lemma locked_okD:
  assumes "locked_ok s"
  shows "running (threads s i) = Some (c, p) \<Longrightarrow> locked c \<and> of_call c p"
    and "todo (threads s i) = c # cs \<Longrightarrow> locked c"
proof -
  assume "running (threads s i) = Some (c, p)"
  moreover from this have "c \<in> set (calls_of (threads s i))" by (simp add: calls_of_def)
  ultimately show "locked c \<and> of_call c p" using assms unfolding locked_ok_def by blast
next
  assume "todo (threads s i) = c # cs"
  then have "c \<in> set (calls_of (threads s i))" by (simp add: calls_of_def)
  then show "locked c" using assms unfolding locked_ok_def by blast
qed

lemma locked_ok_step: "conc_step grow s s' \<Longrightarrow> locked_ok s \<Longrightarrow> locked_ok s'"
proof -
  assume step: "conc_step grow s s'" and ok: "locked_ok s"
  have "\<forall>i c p. running (threads s' i) = Some (c, p) \<longrightarrow> of_call c p"
    using step ok
  proof (induction rule: conc_step.induct)
    case (begins s i c cs)
    then have "locked c" using locked_okD(2) by blast
    with begins show ?case by (auto simp: locked_ok_def entry_locked)
  next
    case (moves s i c p m st r)
    then have "locked c" "of_call c p" using locked_okD(1) by blast+
    then have "\<And>q. r = Inl q \<Longrightarrow> of_call c q" using of_call_advance moves.hyps(3) by blast
    with moves show ?case by (cases r) (auto simp: locked_ok_def)
  qed
  with ok show ?thesis by (simp add: locked_ok_def calls_of_step [OF step])
qed

lemma bound_returns_Outside:
  "phase_at t = Outside \<Longrightarrow> bound_returns grow st t = bound_returns grow st' t"
  by (auto simp: bound_returns_def split: option.split)

lemma bound_returns_begins [simp]:
  "running t = None \<Longrightarrow>
    bound_returns grow st (t\<lparr>todo := cs, running := Some (c, entry c)\<rparr>) = bound_returns grow st t"
  by (simp add: bound_returns_def)

lemma mutex_exclusion:
  assumes "mutex_ok s"
  shows "writer (mutex s) = Some i \<longleftrightarrow> phase_at (threads s i) = Writing"
    and "phase_at (threads s i) = Reading \<Longrightarrow> writer (mutex s) = None"
    and "phase_at (threads s i) = Writing \<Longrightarrow> j \<noteq> i \<Longrightarrow> phase_at (threads s j) = Outside"
proof -
  have ok: "\<And>j. writer (mutex s) = Some j \<longleftrightarrow> phase_at (threads s j) = Writing"
    "readers (mutex s) = {j. phase_at (threads s j) = Reading}"
    "writer (mutex s) \<noteq> None \<longrightarrow> readers (mutex s) = {}"
    using assms unfolding mutex_ok_def by blast+
  show "writer (mutex s) = Some i \<longleftrightarrow> phase_at (threads s i) = Writing" by (rule ok(1))
  show "phase_at (threads s i) = Reading \<Longrightarrow> writer (mutex s) = None" using ok(2,3) by blast
  show "phase_at (threads s i) = Writing \<Longrightarrow> j \<noteq> i \<Longrightarrow> phase_at (threads s j) = Outside"
    by (metis (mono_tags, lifting) ok empty_iff mem_Collect_eq option.inject option.distinct(1) phase.exhaust)
qed

lemma atomic_call_reads: "action (Enter c) = RLock \<Longrightarrow> fst (atomic_call grow c st) = st"
  by (auto split: if_splits)

lemma serial_begins:
  assumes "mutex_ok s" and "serial grow st0 s" and "running (threads s i) = None"
  shows "serial grow st0
    (s\<lparr>threads := (threads s)(i := (threads s i)\<lparr>todo := cs, running := Some (c, entry c)\<rparr>)\<rparr>)"
    (is "serial grow st0 ?s")
proof -
  have "writer (mutex s) \<noteq> Some i" using mutex_exclusion(1) [OF assms(1)] assms(3) by simp
  then have "completed grow ?s = completed grow s" by (auto simp: completed_def split: option.split)
  moreover have "bound_returns grow (shared ?s) (threads ?s j) = bound_returns grow (shared s) (threads s j)" for j
    using assms(3) by simp
  ultimately show ?thesis using assms(2) by (simp add: serial_def)
qed

text \<open>Taking the mutex puts the call at the end of the sequence, every other statement leaves the
  sequence as it is.\<close>

lemma serial_moves:
  assumes mx: "mutex_ok s" and lk: "locked_ok s" and "serial grow st0 s"
    and run: "running (threads s i) = Some (c, p)" and lock: "lock_do (action p) i (mutex s) = Some m"
    and adv: "advance grow p (shared s) = (st, r)"
  shows "serial grow st0 (s\<lparr>shared := st, mutex := m, threads := (threads s)(i := after c r (threads s i))\<rparr>)"
    (is "serial grow st0 ?s")
proof -
  have c: "locked c" "of_call c p" using locked_okD(1) [OF lk run] by simp_all
  obtain h log where h: "run_calls grow h st0 = (completed grow s, log)"
    and log: "\<And>j. returns_of j log = bound_returns grow (shared s) (threads s j)"
    using assms(3) by (auto simp: serial_def)
  have ph: "phase_at (threads s i) = phase_of p" using run by simp
  note facts = advance_phase [OF adv] lock of_call_returns [OF c(2) adv]
  have begin_call: ?thesis
    if "action p = Lock \<or> action p = RLock"
  proof -
    from that facts obtain q where q: "r = Inl q" and st: "st = shared s" and out: "phase_of p = Outside"
      and none: "writer (mutex s) = None" and inside: "phase_of q \<noteq> Outside"
      by (cases r) (auto simp: next_phase_def split: if_splits)
    have p: "p = Enter c" using of_call_Outside [OF c(2) out] .
    have fin: "finish grow q (shared s) = atomic_call grow c (shared s)"
      using finish_entry [of grow c] finish_Inl [of grow p "shared s" st q] adv entry_locked [OF c(1)] p q st
      by simp
    obtain st' v where m': "atomic_call grow c (shared s) = (st', v)" by fastforce
    have "completed grow ?s = st'"
      using that facts fin m' none q st p atomic_call_reads [of c grow "shared s"]
      by (auto simp: completed_def split: if_splits)
    moreover have "completed grow s = shared s" using none by (simp add: completed_def)
    ultimately have "run_calls grow (h @ [(i, c)]) st0 = (completed grow ?s, log @ [(i, c, v)])"
      using run_calls_snoc h m' by simp
    moreover have "returns_of j (log @ [(i, c, v)]) = bound_returns grow (shared ?s) (threads ?s j)" for j
      using log [of j] run out q inside st fin m' by (auto simp: bound_returns_def)
    ultimately show ?thesis unfolding serial_def by blast
  qed
  have keep: ?thesis
    if "completed grow ?s = completed grow s"
      and "\<And>j. bound_returns grow (shared ?s) (threads ?s j) = bound_returns grow (shared s) (threads s j)"
    using h log that unfolding serial_def by metis
  show ?thesis
  proof (cases "action p")
    case Unlock
    with facts obtain v where v: "r = Inr v" "st = shared s" "phase_of p = Writing" "m = (mutex s)\<lparr>writer := None\<rparr>"
      by auto
    with mutex_exclusion(1) [OF mx, of i] ph have "writer (mutex s) = Some i" by simp
    with v finish_Inr adv run show ?thesis
      by (intro keep) (auto simp: completed_def bound_returns_def)
  next
    case RUnlock
    with facts obtain v where v: "r = Inr v" "st = shared s" "phase_of p = Reading"
      "m = (mutex s)\<lparr>readers := readers (mutex s) - {i}\<rparr>"
      by auto
    with mutex_exclusion(2) [OF mx, of i] ph have "writer (mutex s) = None" by simp
    with v finish_Inr adv run show ?thesis
      by (intro keep) (auto simp: completed_def bound_returns_def)
  next
    case Compute
    with facts obtain q where q: "r = Inl q" "phase_of q = phase_of p" "m = mutex s"
      "phase_of p \<noteq> Writing \<longrightarrow> st = shared s" by (cases r) (auto simp: next_phase_def)
    have fin: "finish grow p (shared s) = finish grow q st" using finish_Inl adv q(1) by simp
    have inside: "phase_of p \<noteq> Outside" using of_call_Outside [OF c(2)] Compute by (auto split: if_splits)
    show ?thesis
    proof (cases "phase_of p")
      case Writing
      with mutex_exclusion(1,3) [OF mx, of i] ph have "writer (mutex s) = Some i"
        and others: "\<And>j. j \<noteq> i \<Longrightarrow> phase_at (threads s j) = Outside" by auto
      with q fin run Writing show ?thesis
        by (intro keep) (auto simp: completed_def bound_returns_def [of grow _ "threads s i"]
            bound_returns_def [of grow _ "(threads s i)\<lparr>running := Some (c, q)\<rparr>"] intro!: bound_returns_Outside)
    next
      case Reading
      with mutex_exclusion(2) [OF mx, of i] ph have "writer (mutex s) = None" by simp
      with q fin run Reading show ?thesis
        by (intro keep) (auto simp: completed_def bound_returns_def)
    qed (use inside in simp)
  qed (use begin_call in simp_all)
qed

lemma serial_step:
  "conc_step grow s s' \<Longrightarrow> mutex_ok s \<Longrightarrow> locked_ok s \<Longrightarrow> serial grow st0 s \<Longrightarrow> serial grow st0 s'"
  by (induction rule: conc_step.induct) (auto intro: serial_begins serial_moves)

lemma run_invariants:
  assumes "runs grow (start_system st0 programs) s" and "\<forall>cs\<in>set programs. \<forall>c\<in>set cs. locked c"
  shows "mutex_ok s \<and> locked_ok s \<and> serial grow st0 s"
  using assms(1)
proof (induction rule: runs.induct)
  case none
  have "locked_ok (start_system st0 programs)"
    using assms(2) by (auto simp: locked_ok_def start_system_def calls_of_def)
  moreover have "run_calls grow [] st0 = (completed grow (start_system st0 programs), [])"
    by (simp add: completed_def start_system_def)
  then have "serial grow st0 (start_system st0 programs)"
    unfolding serial_def by (intro exI conjI, assumption) (simp add: start_system_def bound_returns_def)
  ultimately show ?case using mutex_ok_start by blast
next
  case (more s t)
  then show ?case using mutex_ok_step locked_ok_step serial_step by blast
qed

lemma calls_of_runs: "runs grow s t \<Longrightarrow> calls_of (threads t i) = calls_of (threads s i)"
  by (induction rule: runs.induct) (simp_all add: calls_of_step)

lemma calls_of_start:
  "calls_of (threads (start_system st programs) i) = (if i < length programs then programs ! i else [])"
  by (simp add: calls_of_def start_system_def)

lemma finished_serial:
  assumes "serial grow st0 s" and "mutex_ok s" and "finished s"
  shows "\<exists>h log. run_calls grow h st0 = (shared s, log) \<and> (\<forall>i. returns_of i log = results (threads s i))"
proof -
  have "phase_at (threads s i) = Outside" for i using assms(3) by (simp add: finished_def)
  then have "writer (mutex s) = None"
    using mutex_exclusion(1) [OF assms(2)] by (metis not_None_eq phase.distinct(3))
  then show ?thesis
    using assms(1,3) by (simp add: serial_def completed_def finished_def bound_returns_def)
qed

lemma finished_calls: "finished s \<Longrightarrow> calls_of (threads s i) = map fst (results (threads s i))"
  by (simp add: calls_of_def finished_def)

lemma returns_of_calls:
  "map (\<lambda>(i, c, v). (i, c)) log = h \<Longrightarrow> map fst (returns_of i log) = map snd (filter (\<lambda>e. fst e = i) h)"
  by (induction log arbitrary: h) (auto simp: returns_of_def)

lemma serialized:
  assumes "runs grow (start_system st0 programs) s" and "\<forall>cs\<in>set programs. \<forall>c\<in>set cs. locked c"
    and "finished s"
  obtains h log where "run_calls grow h st0 = (shared s, log)"
    and "\<And>i. map snd (filter (\<lambda>e. fst e = i) h) = (if i < length programs then programs ! i else [])"
    and "\<And>i. results (threads s i) = returns_of i log"
proof -
  obtain h log where h: "run_calls grow h st0 = (shared s, log)"
    and log: "\<And>i. returns_of i log = results (threads s i)"
    using finished_serial run_invariants [OF assms(1,2)] assms(3) by metis
  have "map snd (filter (\<lambda>e. fst e = i) h) = (if i < length programs then programs ! i else [])" for i
    using returns_of_calls [OF run_calls_calls [OF h], of i] log [of i] finished_calls [OF assms(3), of i]
      calls_of_runs [OF assms(1), of i] by (simp add: calls_of_start)
  with h log that show thesis by metis
qed

section \<open>Concurrent additions\<close>

lemma mset_by_thread:
  "(\<And>i. map snd (filter (\<lambda>e. fst e = i) h) = (if i < length ps then ps ! i else [])) \<Longrightarrow>
    mset (map snd h) = mset (concat ps)"
proof (induction ps arbitrary: h rule: rev_induct)
  case Nil
  then have "filter (\<lambda>e. fst e = i) h = []" for i by simp
  then have "x \<notin> set h" for x by (metis (mono_tags, lifting) filter_empty_conv)
  then have "h = []" by (cases h) auto
  then show ?case by simp
next
  case (snoc p ps)
  define h' where "h' = filter (\<lambda>e. fst e \<noteq> length ps) h"
  have "map snd (filter (\<lambda>e. fst e = i) h') = (if i < length ps then ps ! i else [])" for i
  proof (cases "i = length ps")
    case False
    have "filter (\<lambda>e. fst e = i) h' = filter (\<lambda>e. fst e = i) h"
      unfolding h'_def filter_filter by (rule filter_cong) (use False in auto)
    with snoc.prems [of i] False show ?thesis by (auto simp: nth_append)
  qed (simp add: h'_def)
  then have "mset (map snd h') = mset (concat ps)" by (rule snoc.IH)
  moreover have "mset (map snd (filter (\<lambda>e. fst e = length ps) h)) = mset p"
    using snoc.prems [of "length ps"] by simp
  moreover have "mset h = mset (filter (\<lambda>e. fst e = length ps) h) + mset h'"
    unfolding h'_def mset_filter by (rule multiset_partition)
  then have "mset (map snd h) = mset (map snd (filter (\<lambda>e. fst e = length ps) h)) + mset (map snd h')"
    by (metis image_mset_union mset_map)
  ultimately show ?case by (simp only: concat_append mset_append) (simp add: add.commute)
qed

definition added :: "node \<Rightarrow> call \<times> returned" where
  "added n = (Call_AddSubtreeNode n, Err_result (Ok ()))"

lemma run_adds:
  "run_calls grow (map (\<lambda>(i, n). (i, Call_AddSubtreeNode n)) ns) st = (st', log) \<Longrightarrow>
    \<forall>(i, n)\<in>set ns. Hash n \<noteq> CoinbasePlaceholder \<Longrightarrow> sums_valid st \<Longrightarrow>
    int (slice_len (Nodes st) + length ns) \<le> treeSize st \<Longrightarrow>
    node_list st' = node_list st @ map snd ns \<and> sums_valid st' \<and> treeSize st' = treeSize st \<and>
      log = map (\<lambda>(i, n). (i, added n)) ns"
proof (induction ns arbitrary: st log)
  case (Cons x ns)
  obtain i n where x: "x = (i, n)" by fastforce
  have m: "atomic_call grow (Call_AddSubtreeNode n) st = (push grow n st, Err_result (Ok ()))"
    using Cons.prems x by (simp add: AddSubtreeNode_eq)
  obtain log1 where run: "run_calls grow (map (\<lambda>(i, n). (i, Call_AddSubtreeNode n)) ns) (push grow n st) = (st', log1)"
    and log: "log = (i, added n) # log1"
    using Cons.prems(1) x m by (auto simp: added_def split: prod.splits)
  have "int (slice_len (Nodes (push grow n st)) + length ns) \<le> treeSize (push grow n st)"
    using Cons.prems(4) by simp
  with Cons.IH [OF run] Cons.prems(2,3) log x show ?case by (auto intro: sums_valid_push)
qed simp

section \<open>Races\<close>

text \<open>The parts of the subtree that a statement reads and writes.\<close>

datatype part = The_nodes | The_sums | The_root | The_index

fun reads_of :: "pc \<Rightarrow> part set" where
  "reads_of (Adding n Add_guard) = {The_nodes}"
| "reads_of (Adding n Add_append) = {The_nodes}"
| "reads_of (Adding n Add_fee) = {The_sums}"
| "reads_of (Adding n Add_bytes) = {The_sums}"
| "reads_of (Adding n Add_put) = {The_nodes, The_index}"
| "reads_of (Removing i Remove_guard) = {The_nodes}"
| "reads_of (Removing i Remove_fee) = {The_nodes, The_sums}"
| "reads_of (Removing i Remove_bytes) = {The_nodes, The_sums}"
| "reads_of (Removing i Remove_hash) = {The_nodes}"
| "reads_of (Removing i (Remove_shift h)) = {The_nodes}"
| "reads_of (Removing i (Remove_delete h)) = {The_index}"
| "reads_of (Read c) = {The_nodes}"
| "reads_of (Indexing h Index_test) = {The_index}"
| "reads_of (Indexing h Index_make) = {The_nodes}"
| "reads_of (Indexing h (Index_fill idx ns)) = {The_nodes, The_index}"
| "reads_of (Indexing h Index_lookup) = {The_index}"
| "reads_of p = {}"

fun writes_of :: "pc \<Rightarrow> part set" where
  "writes_of (Adding n Add_append) = {The_nodes}"
| "writes_of (Adding n Add_reset) = {The_root}"
| "writes_of (Adding n Add_fee) = {The_sums}"
| "writes_of (Adding n Add_bytes) = {The_sums}"
| "writes_of (Adding n Add_put) = {The_index}"
| "writes_of (Removing i Remove_fee) = {The_sums}"
| "writes_of (Removing i Remove_bytes) = {The_sums}"
| "writes_of (Removing i (Remove_shift h)) = {The_nodes}"
| "writes_of (Removing i (Remove_reset h)) = {The_root}"
| "writes_of (Removing i (Remove_delete h)) = {The_index}"
| "writes_of (Indexing h Index_make) = {The_index}"
| "writes_of (Indexing h (Index_fill idx ns)) = {The_index}"
| "writes_of p = {}"

fun agree_on :: "part \<Rightarrow> subtree \<Rightarrow> subtree \<Rightarrow> bool" where
  "agree_on The_nodes st st' = (Nodes st = Nodes st')"
| "agree_on The_sums st st' = (Fees st = Fees st' \<and> SizeInBytes st = SizeInBytes st')"
| "agree_on The_root st st' = (rootHash st = rootHash st')"
| "agree_on The_index st st' = (nodeIndex st = nodeIndex st')"

lemma writes_of_complete:
  "advance grow p st = (st', r) \<Longrightarrow> x \<notin> writes_of p \<Longrightarrow> agree_on x st' st"
  by (cases "(p, zero_subtree)" rule: left.cases; cases x)
    (auto simp: at_index_def split: outcome.splits option.splits)

lemma read_statement_cong: "Nodes st1 = Nodes st2 \<Longrightarrow> read_statement c st1 = read_statement c st2"
  by (cases c) simp_all

lemma reads_of_complete:
  "\<forall>x\<in>reads_of p. agree_on x st1 st2 \<Longrightarrow> treeSize st1 = treeSize st2 \<Longrightarrow>
    snd (advance grow p st1) = snd (advance grow p st2)"
  by (cases "(p, zero_subtree)" rule: left.cases)
    (auto simp: at_index_def intro: read_statement_cong split: outcome.splits option.splits call.splits)

text \<open>Two goroutines race when their next statements touch the same part and one of them writes it.\<close>

definition racing :: "system \<Rightarrow> nat \<Rightarrow> nat \<Rightarrow> bool" where
  "racing s i j =
     (case (running (threads s i), running (threads s j)) of
        (Some (c, p), Some (d, q)) \<Rightarrow> i \<noteq> j \<and> writes_of p \<inter> (reads_of q \<union> writes_of q) \<noteq> {}
      | _ \<Rightarrow> False)"

lemma writes_Writing: "writes_of p \<noteq> {} \<Longrightarrow> phase_of p = Writing"
  by (cases "(p, zero_subtree)" rule: left.cases) simp_all

lemma Outside_touches:
  "phase_of q = Outside \<Longrightarrow> writes_of q = {} \<and>
    (reads_of q = {} \<or> reads_of q = {The_index} \<and> (\<exists>h. q = Indexing h Index_test \<or> q = Indexing h Index_lookup))"
  by (cases "(q, zero_subtree)" rule: left.cases) simp_all

lemma race_with_NodeIndex:
  assumes "mutex_ok s" and "racing s i j"
  shows "\<exists>c p d h a. running (threads s i) = Some (c, p) \<and> phase_of p = Writing \<and> The_index \<in> writes_of p \<and>
    running (threads s j) = Some (d, Indexing h a) \<and> (a = Index_test \<or> a = Index_lookup)"
proof -
  obtain c p d q where i: "running (threads s i) = Some (c, p)" and j: "running (threads s j) = Some (d, q)"
    and ne: "j \<noteq> i" and w: "writes_of p \<inter> (reads_of q \<union> writes_of q) \<noteq> {}"
    using assms(2) by (auto simp: racing_def split: option.splits)
  from w have p: "phase_of p = Writing" using writes_Writing by auto
  then have "phase_at (threads s i) = Writing" using i by simp
  then have "phase_of q = Outside" using mutex_exclusion(3) [OF assms(1) _ ne] j by simp
  from Outside_touches [OF this] w i j p show ?thesis by auto
qed

lemma locked_no_race:
  assumes "mutex_ok s" and "locked_ok s"
  shows "\<not> racing s i j"
proof
  assume "racing s i j"
  then obtain c p d q where i: "running (threads s i) = Some (c, p)" and j: "running (threads s j) = Some (d, q)"
    and ne: "j \<noteq> i" and w: "writes_of p \<inter> (reads_of q \<union> writes_of q) \<noteq> {}"
    by (auto simp: racing_def split: option.splits)
  from w have "phase_at (threads s i) = Writing" using i writes_Writing by auto
  then have "phase_of q = Outside" using mutex_exclusion(3) [OF assms(1) _ ne] j by simp
  then have "q = Enter d" using of_call_Outside locked_okD(1) [OF assms(2) j] by blast
  with w show False by simp
qed

section \<open>Schedules\<close>

text \<open>What the scheduler's choice of goroutine \<open>i\<close> does; None when it cannot take a step.\<close>

definition thread_step :: "growth \<Rightarrow> nat \<Rightarrow> system \<Rightarrow> system option" where
  "thread_step grow i s =
     (let t = threads s i in
      case running t of
        None \<Rightarrow>
          (case todo t of
             [] \<Rightarrow> None
           | c # cs \<Rightarrow> Some (s\<lparr>threads := (threads s)(i := t\<lparr>todo := cs, running := Some (c, entry c)\<rparr>)\<rparr>))
      | Some (c, p) \<Rightarrow>
          (case lock_do (action p) i (mutex s) of
             None \<Rightarrow> None
           | Some m \<Rightarrow>
               (case advance grow p (shared s) of
                  (st, r) \<Rightarrow> Some (s\<lparr>shared := st, mutex := m, threads := (threads s)(i := after c r t)\<rparr>))))"

fun schedule :: "growth \<Rightarrow> nat list \<Rightarrow> system \<Rightarrow> system option" where
  "schedule grow [] s = Some s"
| "schedule grow (i # js) s = Option.bind (thread_step grow i s) (schedule grow js)"

lemma conc_step_iff: "conc_step grow s s' \<longleftrightarrow> (\<exists>i. thread_step grow i s = Some s')"
proof
  show "conc_step grow s s' \<Longrightarrow> \<exists>i. thread_step grow i s = Some s'"
  proof (induction rule: conc_step.induct)
    case (begins s i c cs)
    then have "thread_step grow i s =
        Some (s\<lparr>threads := (threads s)(i := (threads s i)\<lparr>todo := cs, running := Some (c, entry c)\<rparr>)\<rparr>)"
      by (simp add: thread_step_def)
    then show ?case ..
  next
    case (moves s i c p m st r)
    then have "thread_step grow i s =
        Some (s\<lparr>shared := st, mutex := m, threads := (threads s)(i := after c r (threads s i))\<rparr>)"
      by (simp add: thread_step_def)
    then show ?case ..
  qed
next
  assume "\<exists>i. thread_step grow i s = Some s'"
  then obtain i where i: "thread_step grow i s = Some s'" by blast
  show "conc_step grow s s'"
  proof (cases "running (threads s i)")
    case None
    with i begins [OF None] show ?thesis by (auto simp: thread_step_def Let_def split: list.splits)
  next
    case (Some x)
    obtain c p where x: "running (threads s i) = Some (c, p)" using Some by (cases x) simp
    with i moves [OF x] show ?thesis
      by (auto simp: thread_step_def Let_def split: option.splits prod.splits)
  qed
qed

lemma schedule_runs: "schedule grow js t = Some s \<Longrightarrow> runs grow r t \<Longrightarrow> runs grow r s"
proof (induction js arbitrary: t)
  case (Cons i js)
  then obtain u where "thread_step grow i t = Some u" "schedule grow js u = Some s"
    by (auto simp: bind_eq_Some_conv)
  with Cons show ?case using more conc_step_iff by blast
qed simp

section \<open>The length of a schedule\<close>

fun statements :: "call \<Rightarrow> nat" where
  "statements (Call_AddSubtreeNode n) = 9"
| "statements (Call_RemoveNodeAtIndex i) = 10"
| "statements c = 4"

definition work :: "goroutine \<Rightarrow> nat" where
  "work t = sum_list (map statements (todo t)) +
     (case running t of None \<Rightarrow> 0 | Some (c, p) \<Rightarrow> left p zero_subtree)"

lemma left_locked: "of_call c p \<Longrightarrow> locked c \<Longrightarrow> left p st = left p zero_subtree"
  by (cases "(p, zero_subtree)" rule: left.cases) (auto split: call.splits)

lemma work_step:
  assumes "conc_step grow s s'" and "locked_ok s"
  obtains i where "work (threads s' i) < work (threads s i)" and "\<And>j. j \<noteq> i \<Longrightarrow> threads s' j = threads s j"
    and "calls_of (threads s i) \<noteq> []"
  using assms
proof (induction rule: conc_step.induct)
  case (begins s i c cs)
  have "locked c" using locked_okD(2) [OF begins.prems(2)] begins.hyps(2) by blast
  then have "left (entry c) zero_subtree < statements c" by (cases c) simp_all
  with begins show ?case by (intro begins.prems(1) [of i]) (auto simp: work_def calls_of_def)
next
  case (moves s i c p m st r)
  have c: "locked c" "of_call c p" using locked_okD(1) [OF moves.prems(2) moves.hyps(1)] by simp_all
  have "work (after c r (threads s i)) < work (threads s i)"
  proof (cases r)
    case (Inl q)
    have "left q st < left p (shared s)" using advance_left moves.hyps(3) Inl by blast
    moreover have "of_call c q" using of_call_advance c moves.hyps(3) Inl by blast
    ultimately have "left q zero_subtree < left p zero_subtree" using left_locked c by metis
    then show ?thesis using Inl moves.hyps(1) by (simp add: work_def)
  next
    case (Inr v)
    have "0 < left p zero_subtree" by (rule left_positive)
    then show ?thesis using Inr moves.hyps(1) by (simp add: work_def)
  qed
  with moves show ?case by (intro moves.prems(1) [of i]) (auto simp: calls_of_def)
qed

section \<open>Properties\<close>

text \<open>Two goroutines, each adding a node to a tree with four places; the second one overtakes.\<close>

definition example_tree :: subtree where
  "example_tree = zero_subtree\<lparr>Height := 2, treeSize := 4, Nodes := Slice [] (replicate 4 zero_node)\<rparr>"

definition example_programs :: "call list list" where
  "example_programs = [[Call_AddSubtreeNode (leaf 2)], [Call_AddSubtreeNode (leaf 3)]]"

definition example_schedule :: "nat list" where
  "example_schedule = [0, 1, 1, 1, 1, 1, 1, 1, 1, 1, 0, 0, 0, 0, 0, 0, 0, 0]"

lemma leaf_no_placeholder: "Hash (leaf 2) \<noteq> CoinbasePlaceholder" "Hash (leaf 3) \<noteq> CoinbasePlaceholder"
  by (simp_all add: leaf_def CoinbasePlaceholder_eq)

lemma start_system_simps [simp]:
  "shared (start_system st ps) = st" "mutex (start_system st ps) = \<lparr>writer = None, readers = {}\<rparr>"
  "threads (start_system st ps) i =
    \<lparr>todo = (if i < length ps then ps ! i else []), running = None, results = []\<rparr>"
  by (simp_all add: start_system_def)

lemma example_run:
  obtains s where "runs doubling (start_system example_tree example_programs) s" and "finished s"
    and "node_list (shared s) = [leaf 3, leaf 2]"
proof -
  have "\<exists>s. schedule doubling example_schedule (start_system example_tree example_programs) = Some s \<and>
      finished s \<and> node_list (shared s) = [leaf 3, leaf 2]"
    by (simp add: example_schedule_def example_tree_def zero_subtree_def example_programs_def finished_def
        leaf_no_placeholder thread_step_def Let_def slice_len_def)
  with schedule_runs none that show thesis by blast
qed

lemma example_programs_locked: "\<forall>cs\<in>set example_programs. \<forall>c\<in>set cs. locked c"
  by (simp add: example_programs_def)

text \<open>C5: Whatever the schedule, goroutines that call the methods that hold the mutex see atomic methods:
  when all have finished, the subtree and everything the calls returned are those of the methods of the
  sequential model, called one after the other in some order that respects the order within each
  goroutine.\<close>

theorem locked_calls_atomic:
  assumes "\<forall>cs\<in>set programs. \<forall>c\<in>set cs. locked c"
    and "runs grow (start_system st programs) s" and "finished s"
  shows "\<exists>h log. run_calls grow h st = (shared s, log) \<and>
    (\<forall>i. map snd (filter (\<lambda>e. fst e = i) h) = (if i < length programs then programs ! i else []) \<and>
      results (threads s i) = returns_of i log)"
  using serialized [OF assms(2,1,3)] by metis

theorem locked_calls_atomic_witness:
  "\<exists>(s::system) h log. node_list (shared s) = [leaf 3, leaf 2] \<and>
    run_calls doubling h example_tree = (shared s, log) \<and> results (threads s 1) = returns_of 1 log"
proof -
  obtain s where s: "runs doubling (start_system example_tree example_programs) s" "finished s"
    and "node_list (shared s) = [leaf 3, leaf 2]" by (rule example_run)
  with locked_calls_atomic [OF example_programs_locked s] show ?thesis by blast
qed

lemma additions:
  assumes calls: "mset (map snd h) = mset (map Call_AddSubtreeNode ns0)"
  obtains ns where "h = map (\<lambda>(i, n). (i, Call_AddSubtreeNode n)) ns" and "mset (map snd ns) = mset ns0"
proof
  let ?node = "\<lambda>c. case c of Call_AddSubtreeNode n \<Rightarrow> n | _ \<Rightarrow> zero_node"
  have "\<exists>n. snd e = Call_AddSubtreeNode n" if "e \<in> set h" for e
  proof -
    have "snd e \<in> set (map Call_AddSubtreeNode ns0)"
      using that mset_eq_setD [OF calls] by (metis image_eqI set_map)
    then show ?thesis by auto
  qed
  then show h: "h = map (\<lambda>(i, n). (i, Call_AddSubtreeNode n)) (map (\<lambda>(i, c). (i, ?node c)) h)"
    unfolding map_map by (intro map_idI [symmetric]) fastforce
  have "mset (map ?node (map snd h)) = mset (map ?node (map Call_AddSubtreeNode ns0))"
    using calls by (metis mset_map)
  then show "mset (map snd (map (\<lambda>(i, c). (i, ?node c)) h)) = mset ns0"
    by (simp add: o_def case_prod_beta)
qed

text \<open>C12: Concurrent additions lose nothing: when goroutines add nodes to a new tree that has room for
  them, every addition succeeds, and in the end the tree has exactly these nodes, in some order, with
  the right sums.\<close>

theorem concurrent_adds_kept:
  assumes "NewTree height = Ok st0" and "\<forall>ns\<in>set nss. \<forall>n\<in>set ns. Hash n \<noteq> CoinbasePlaceholder"
    and "length (concat nss) \<le> 2 ^ nat height"
    and "runs grow (start_system st0 (map (map Call_AddSubtreeNode) nss)) s" and "finished s"
  shows "mset (node_list (shared s)) = mset (concat nss) \<and>
    Fees (shared s) = sum_list (map Fee (concat nss)) \<and>
    SizeInBytes (shared s) = sum_list (map NodeSizeInBytes (concat nss)) \<and>
    (\<forall>i<length nss. results (threads s i) = map added (nss ! i))"
proof -
  let ?ps = "map (map Call_AddSubtreeNode) nss"
  have "\<forall>cs\<in>set ?ps. \<forall>c\<in>set cs. locked c" by auto
  from serialized [OF assms(4) this assms(5)] obtain h log where h: "run_calls grow h st0 = (shared s, log)"
    and order: "\<And>i. map snd (filter (\<lambda>e. fst e = i) h) = (if i < length ?ps then ?ps ! i else [])"
    and res: "\<And>i. results (threads s i) = returns_of i log" by blast
  have "mset (map snd h) = mset (map Call_AddSubtreeNode (concat nss))"
    using mset_by_thread [OF order] by (simp only: map_concat)
  then obtain ns where ns: "h = map (\<lambda>(i, n). (i, Call_AddSubtreeNode n)) ns"
    and nodes: "mset (map snd ns) = mset (concat nss)" by (rule additions)
  have len: "length ns = length (concat nss)" using mset_eq_length [OF nodes] by simp
  have valid: "\<forall>(i, n)\<in>set ns. Hash n \<noteq> CoinbasePlaceholder"
    using mset_eq_setD [OF nodes] assms(2) by force
  have "sums_valid st0" "node_list st0 = []" "treeSize st0 = 2 ^ nat height"
    using assms(1) by (auto simp: NewTree_eq_Ok sums_valid_def zero_subtree_def)
  moreover from this assms(3) have "int (slice_len (Nodes st0) + length ns) \<le> treeSize st0"
    by (simp add: slice_len_def len)
  ultimately have "node_list (shared s) = map snd ns" "sums_valid (shared s)"
    and log: "log = map (\<lambda>(i, n). (i, added n)) ns"
    using run_adds [OF h [unfolded ns] valid] by simp_all
  moreover have "results (threads s i) = map added (nss ! i)" if "i < length nss" for i
  proof -
    have "map Call_AddSubtreeNode (map snd (filter (\<lambda>e. fst e = i) ns)) = map Call_AddSubtreeNode (nss ! i)"
      using order [of i] that ns by (simp add: filter_map o_def case_prod_beta)
    then have mine: "map snd (filter (\<lambda>e. fst e = i) ns) = nss ! i"
      by (rule map_injective) (simp add: inj_def)
    have "returns_of i log = map added (map snd (filter (\<lambda>e. fst e = i) ns))"
      by (simp add: log returns_of_def filter_map o_def case_prod_beta)
    then show ?thesis unfolding mine res .
  qed
  moreover have "sum_list (map f (map snd ns)) = sum_list (map f (concat nss))" for f :: "node \<Rightarrow> uint64"
    using nodes by (metis mset_map sum_mset_sum_list)
  ultimately show ?thesis using nodes by (simp add: sums_valid_def)
qed

theorem concurrent_adds_kept_witness:
  "\<exists>s::system. node_list (shared s) = [leaf 3, leaf 2] \<and> Fees (shared s) = 50"
proof -
  obtain s where s: "runs doubling (start_system example_tree example_programs) s" "finished s"
    and nodes: "node_list (shared s) = [leaf 3, leaf 2]" by (rule example_run)
  have "NewTree 2 = Ok example_tree"
    by (simp add: NewTree_eq_Ok example_tree_def zero_subtree_def)
  moreover have "example_programs = map (map Call_AddSubtreeNode) [[leaf 2], [leaf 3]]"
    by (simp add: example_programs_def)
  ultimately have "Fees (shared s) = sum_list (map Fee (concat [[leaf 2], [leaf 3]]))"
    using concurrent_adds_kept [of 2 example_tree "[[leaf 2], [leaf 3]]" doubling s] s leaf_no_placeholder by simp
  with nodes show ?thesis by (auto simp: leaf_def)
qed

text \<open>C19: Whichever of the six methods above the goroutines call, when the next statements of two of them race, that is touch the
  same part of the subtree with one writing it, then the writer holds the mutex and writes the index, and
  the other is at one of the two reads of the index that \<open>NodeIndex\<close> makes outside of the mutex.  The
  nodes, the sums and the cached root are never raced for; and there is no race at all when no goroutine
  calls \<open>NodeIndex\<close>.\<close>

theorem locked_calls_race_free:
  assumes "runs grow (start_system st programs) s"
  shows "(racing s i j \<longrightarrow>
      (\<exists>c p d h a. running (threads s i) = Some (c, p) \<and> phase_of p = Writing \<and> The_index \<in> writes_of p \<and>
        running (threads s j) = Some (d, Indexing h a) \<and> (a = Index_test \<or> a = Index_lookup))) \<and>
    ((\<forall>cs\<in>set programs. \<forall>c\<in>set cs. locked c) \<longrightarrow> \<not> racing s i j)"
proof -
  have "mutex_ok s" using mutex_ok_runs [OF assms mutex_ok_start] .
  then show ?thesis using race_with_NodeIndex locked_no_race run_invariants [OF assms] by blast
qed

theorem locked_calls_race_free_witness:
  "(\<exists>s c d. runs doubling (start_system example_tree example_programs) s \<and>
      running (threads s 1) = Some (c, Adding (leaf 3) Add_append) \<and>
      running (threads s 0) = Some (d, Enter (Call_AddSubtreeNode (leaf 2))) \<and>
      \<not> racing s 1 0 \<and> \<not> racing s 0 1) \<and>
   (\<exists>s c p d h. runs doubling (start_system indexed_subtree [[Call_NodeIndex 3], [Call_AddSubtreeNode (leaf 4)]]) s \<and>
      racing s 1 0 \<and> running (threads s 1) = Some (c, p) \<and> The_index \<in> writes_of p \<and>
      (running (threads s 0) = Some (d, Indexing h Index_test) \<or>
       running (threads s 0) = Some (d, Indexing h Index_lookup)))"
proof -
  have "\<exists>s c d. schedule doubling [0, 1, 1, 1] (start_system example_tree example_programs) = Some s \<and>
      running (threads s 1) = Some (c, Adding (leaf 3) Add_append) \<and>
      running (threads s 0) = Some (d, Enter (Call_AddSubtreeNode (leaf 2)))"
    by (simp add: example_tree_def zero_subtree_def example_programs_def leaf_no_placeholder thread_step_def
        Let_def slice_len_def)
  then obtain s c d where s: "runs doubling (start_system example_tree example_programs) s"
    "running (threads s 1) = Some (c, Adding (leaf 3) Add_append)"
    "running (threads s 0) = Some (d, Enter (Call_AddSubtreeNode (leaf 2)))"
    using schedule_runs none by blast
  have "\<exists>t. schedule doubling [0, 0, 1, 1, 1, 1, 1, 1, 1]
        (start_system indexed_subtree [[Call_NodeIndex 3], [Call_AddSubtreeNode (leaf 4)]]) = Some t \<and> racing t 1 0"
    by (auto simp: thread_step_def Let_def racing_def indexed_subtree_def slice_len_def leaf_def
        CoinbasePlaceholder_eq)
  then obtain t where t: "runs doubling (start_system indexed_subtree
      [[Call_NodeIndex 3], [Call_AddSubtreeNode (leaf 4)]]) t" "racing t 1 0"
    using schedule_runs none by blast
  from locked_calls_race_free [OF t(1), of 1 0] t(2) obtain c' p d' h where
    "running (threads t 1) = Some (c', p)" "The_index \<in> writes_of p"
    "running (threads t 0) = Some (d', Indexing h Index_test) \<or> running (threads t 0) = Some (d', Indexing h Index_lookup)"
    by blast
  with t locked_calls_race_free [OF s(1), of 1 0] locked_calls_race_free [OF s(1), of 0 1] s example_programs_locked
  show ?thesis by blast
qed

lemma relpowp_runs: "(conc_step grow ^^ k) s s' \<Longrightarrow> runs grow s s'"
  by (induction k arbitrary: s') (auto intro: runs.intros)

lemma work_start:
  "sum_list (map (\<lambda>i. work (threads (start_system st ps) i)) [0..<length ps]) =
    sum_list (map statements (concat ps))"
proof -
  have "map (\<lambda>i. work (threads (start_system st ps) i)) [0..<length ps] =
      map (\<lambda>cs. sum_list (map statements cs)) ps"
    by (rule nth_equalityI) (simp_all add: work_def)
  moreover have "sum_list (map (\<lambda>cs. sum_list (map statements cs)) ps) = sum_list (map statements (concat ps))"
    by (induction ps) simp_all
  ultimately show ?thesis by (simp only:)
qed

lemma sum_list_decreases:
  assumes "f i < (g i :: nat)" and "i < n" and other: "\<And>j. j \<noteq> i \<Longrightarrow> f j = g j"
  shows "sum_list (map f [0..<n]) < sum_list (map g [0..<n])"
proof -
  have "f j \<le> g j" for j using assms(1) other [of j] by (cases "j = i") simp_all
  then show ?thesis
    unfolding interv_sum_list_conv_sum_set_nat set_upt using assms(1,2)
    by (intro sum_strict_mono_ex1 bexI [of _ i]) simp_all
qed

lemma work_runs:
  assumes "\<forall>cs\<in>set programs. \<forall>c\<in>set cs. locked c"
  shows "(conc_step grow ^^ k) (start_system st programs) s \<Longrightarrow>
    k + sum_list (map (\<lambda>i. work (threads s i)) [0..<length programs]) \<le>
      sum_list (map statements (concat programs))"
proof (induction k arbitrary: s)
  case 0
  then have "s = start_system st programs" by simp
  then show ?case using work_start [of st programs] by (simp only:)
next
  case (Suc k)
  then obtain t where t: "(conc_step grow ^^ k) (start_system st programs) t" and step: "conc_step grow t s"
    by auto
  note run = relpowp_runs [OF t]
  obtain i where i: "work (threads s i) < work (threads t i)" "\<And>j. j \<noteq> i \<Longrightarrow> threads s j = threads t j"
    "calls_of (threads t i) \<noteq> []"
    using work_step [OF step] run_invariants [OF run assms] by metis
  have "i < length programs"
    using i(3) calls_of_runs [OF run, of i] by (auto simp: calls_of_start simp del: start_system_simps split: if_splits)
  then have "sum_list (map (\<lambda>i. work (threads s i)) [0..<length programs]) <
      sum_list (map (\<lambda>i. work (threads t i)) [0..<length programs])"
    using i by (intro sum_list_decreases [of _ i]) simp_all
  with Suc.IH [OF t] show ?case by simp
qed

text \<open>C20: The mutex never blocks all goroutines, \<open>NodeIndex\<close> included: as long as one has something to do,
  one can take a step.  Goroutines whose calls hold the mutex have moreover finished after a number of
  steps that their calls bound, under every schedule.\<close>

theorem schedules_end:
  assumes "(conc_step grow ^^ k) (start_system st programs) s"
  shows "(finished s \<or> (\<exists>s'. conc_step grow s s')) \<and>
    ((\<forall>cs\<in>set programs. \<forall>c\<in>set cs. locked c) \<longrightarrow> k \<le> sum_list (map statements (concat programs)))"
proof -
  have "mutex_ok s" using mutex_ok_runs [OF relpowp_runs [OF assms]] mutex_ok_start by blast
  with some_step work_runs [OF _ assms] show ?thesis by (metis add_leD1)
qed

theorem schedules_end_witness:
  "(conc_step doubling ^^ 0) (start_system example_tree example_programs) (start_system example_tree example_programs) \<and>
    (\<exists>s'. conc_step doubling (start_system example_tree example_programs) s')"
proof -
  have "\<not> finished (start_system example_tree example_programs)"
    by (auto simp: finished_def example_programs_def intro!: exI [of _ 0])
  with schedules_end [of 0 doubling example_tree example_programs "start_system example_tree example_programs"]
  show ?thesis by simp
qed

text \<open>C34: \<open>NodeIndex\<close> is not atomic: when the index is not built yet, a goroutine that asks for a node of
  the subtree can be told \<open>-1\<close>, that it is not there, while another one is building the index.  The
  method alone finds every node.\<close>

theorem NodeIndex_misses_node:
  assumes "nodeIndex st = None" and "h \<in> Hash ` set (node_list st)"
  shows "(\<exists>s. runs grow (start_system st [[Call_NodeIndex h], [Call_NodeIndex h]]) s \<and>
      results (threads s 1) = [(Call_NodeIndex h, Int_result (- 1))] \<and> node_list (shared s) = node_list st) \<and>
    snd (atomic_call grow (Call_NodeIndex h) st) \<noteq> Int_result (- 1)"
proof -
  have "\<exists>s. schedule grow [0, 0, 0, 0, 1, 1, 1] (start_system st [[Call_NodeIndex h], [Call_NodeIndex h]]) = Some s \<and>
      results (threads s 1) = [(Call_NodeIndex h, Int_result (- 1))] \<and> node_list (shared s) = node_list st"
    using assms(1) by (simp add: thread_step_def Let_def)
  with schedule_runs none have "\<exists>s. runs grow (start_system st [[Call_NodeIndex h], [Call_NodeIndex h]]) s \<and>
      results (threads s 1) = [(Call_NodeIndex h, Int_result (- 1))] \<and> node_list (shared s) = node_list st" by blast
  moreover obtain i where "index_nodes 0 (node_list st) Map.empty h = Some i"
    using index_nodes_None [of 0 "node_list st" h] assms(2) by (cases "index_nodes 0 (node_list st) Map.empty h") auto
  moreover from index_nodes_Some [OF this] have "0 \<le> i" by auto
  ultimately show ?thesis using assms(1) by (simp add: NodeIndex_def Let_def)
qed

theorem NodeIndex_misses_node_witness:
  "\<exists>s. runs doubling (start_system (indexed_subtree\<lparr>nodeIndex := None\<rparr>) [[Call_NodeIndex 3], [Call_NodeIndex 3]]) s \<and>
    results (threads s 1) = [(Call_NodeIndex 3, Int_result (- 1))]"
proof -
  have "3 \<in> Hash ` set (node_list (indexed_subtree\<lparr>nodeIndex := None\<rparr>))"
    by (simp add: indexed_subtree_def leaf_def)
  with NodeIndex_misses_node [of "indexed_subtree\<lparr>nodeIndex := None\<rparr>" 3 doubling] show ?thesis by auto
qed

text \<open>Once the index is built, the lookup of \<open>NodeIndex\<close>, outside of the mutex, races with the update
  of the index by \<open>AddSubtreeNode\<close>, inside of it: a concurrent read and write of a Go map.\<close>

theorem NodeIndex_races:
  assumes "nodeIndex st \<noteq> None" and "int (slice_len (Nodes st)) < treeSize st"
    and "Hash n \<noteq> CoinbasePlaceholder"
  shows "\<exists>s. runs grow (start_system st [[Call_NodeIndex h], [Call_AddSubtreeNode n]]) s \<and> racing s 1 0"
proof -
  have "\<exists>s. schedule grow [0, 0, 1, 1, 1, 1, 1, 1, 1] (start_system st [[Call_NodeIndex h], [Call_AddSubtreeNode n]]) = Some s \<and>
      racing s 1 0"
    using assms by (auto simp: thread_step_def Let_def racing_def)
  with schedule_runs none show ?thesis by blast
qed

theorem NodeIndex_races_witness:
  "\<exists>s. runs doubling (start_system indexed_subtree [[Call_NodeIndex 3], [Call_AddSubtreeNode (leaf 4)]]) s \<and>
    racing s 1 0"
proof -
  have "nodeIndex indexed_subtree \<noteq> None" "int (slice_len (Nodes indexed_subtree)) < treeSize indexed_subtree"
    "Hash (leaf 4) \<noteq> CoinbasePlaceholder"
    by (simp_all add: indexed_subtree_def slice_len_def leaf_def CoinbasePlaceholder_eq)
  then show ?thesis by (rule NodeIndex_races)
qed

end
