(* ===== verification/Subtree_Codec.thy ===== *)
theory Subtree_Codec
  imports Subtree_Root
begin

text \<open>
  \<open>subtree.go\<close>, third part: the wire format of a subtree, its writers \<open>Serialize\<close> and
  \<open>SerializeNodes\<close>, and its readers: the one that fills a subtree on the heap or in storage of the
  caller, the one that fills a mapped file, and the two that only extract the transaction hashes
  or the conflicting nodes.  Each reader but \<open>Deserialize\<close>, whose source is its own, has the caller's
  \<open>io.Reader\<close> under a buffer: its argument \<open>c\<close> says what that reader is, and the reader it returns has
  lost what the buffer read ahead.  Writing to a \<open>bytes.Buffer\<close> never fails.
\<close>

section \<open>The format of a node\<close>

definition encode_node :: "node \<Rightarrow> byte list" where
  "encode_node n = hash_bytes (Hash n) @ put_uint64 (Fee n) @ put_uint64 (NodeSizeInBytes n)"

definition node_of_bytes :: "byte list \<Rightarrow> node" where
  "node_of_bytes bytes48 =
     \<lparr>Hash = hash_of_bytes (take 32 bytes48), Fee = le_word (take 8 (drop 32 bytes48)),
      NodeSizeInBytes = le_word (take 8 (drop 40 bytes48))\<rparr>"

definition read_node :: "node decoder" where
  "read_node = dmap node_of_bytes (read_full 48)"

interpretation node_codec: fixed_codec encode_node read_node "\<lambda>_. True" 48
  unfolding read_node_def
  by (rule fixed_codec_primitive) (simp_all add: encode_node_def node_of_bytes_def)

section \<open>Writing\<close>

definition Serialize :: "sha256 \<Rightarrow> subtree \<Rightarrow> subtree \<times> byte list outcome" where
  "Serialize sha st =
     (case root_hash sha st of
        (st', Ok (Some root)) \<Rightarrow>
          (st', Ok (hash_bytes root @ put_uint64 (Fees st') @ put_uint64 (SizeInBytes st') @
            put_uint64 (of_nat (slice_len (Nodes st'))) @
            concat (map encode_node (elems (Nodes st'))) @
            put_uint64 (of_nat (slice_len (ConflictingNodes st'))) @
            concat (map hash_bytes (elems (ConflictingNodes st')))))
      | (st', Ok None) \<Rightarrow> (st', Panic NilDereference)
      | (st', Fail e) \<Rightarrow> (st', Fail e)
      | (st', Panic p) \<Rightarrow> (st', Panic p))"

definition SerializeNodes :: "subtree \<Rightarrow> byte list outcome" where
  "SerializeNodes st = Ok (concat (map (\<lambda>n. hash_bytes (Hash n)) (elems (Nodes st))))"

section \<open>Reading into a subtree\<close>

definition load_root :: "subtree loader" where
  "load_root st r =
     (case read_full 32 r of
        (r', Ok bs) \<Rightarrow> (r', st\<lparr>rootHash := Some (hash_of_bytes bs)\<rparr>, Ok ())
      | (r', Fail e) \<Rightarrow>
          (r', st\<lparr>rootHash := Some (partial_hash r)\<rparr>, Fail (Wrap ''unable to read root hash: %w'' [e]))
      | (r', Panic p) \<Rightarrow> (r', st, Panic p))"

definition load_header :: "subtree loader" where
  "load_header = load_seq load_root (load_seq
     (load_bind ''unable to read fees: %w'' read_uint64 (\<lambda>x. load_set (Fees_update (\<lambda>_. x))))
     (load_bind ''unable to read sizeInBytes: %w'' read_uint64
       (\<lambda>x. load_set (SizeInBytes_update (\<lambda>_. x)))))"

text \<open>The caller's \<open>NodeAllocator\<close>, if any.\<close>

type_synonym node_allocator = "(int \<Rightarrow> node slice) option"

definition node_storage :: "node_allocator \<Rightarrow> uint64 \<Rightarrow> node slice outcome" where
  "node_storage alloc numLeaves =
     (case alloc of
        Some f \<Rightarrow>
          (let s = f (int_of_uint64 numLeaves) in
           if int (slice_cap s) \<ge> int_of_uint64 numLeaves then reslice s (uint numLeaves)
           else make_slice nodeSize zero_node (uint numLeaves) (uint numLeaves))
      | None \<Rightarrow> make_slice nodeSize zero_node (uint numLeaves) (uint numLeaves))"

definition deserializeNodesWithAllocator :: "node_allocator \<Rightarrow> subtree loader" where
  "deserializeNodesWithAllocator alloc =
     load_bind ''unable to read number of leaves: %w'' read_uint64 (\<lambda>numLeaves.
       load_seq (load_set (\<lambda>st. st\<lparr>treeSize := int_of_uint64 numLeaves,
                                   Height := ceil_log2 (uint numLeaves)\<rparr>))
      (load_seq (load_step (\<lambda>st. omap (\<lambda>ns. st\<lparr>Nodes := ns\<rparr>) (node_storage alloc numLeaves)))
      (load_array ''unable to read node: %w'' read_node (unat numLeaves) node_list
        (\<lambda>ns st. st\<lparr>Nodes := set_elems ns (Nodes st)\<rparr>))))"

definition deserializeConflictingNodes :: "subtree loader" where
  "deserializeConflictingNodes =
     load_bind ''unable to read number of conflicting nodes: %w'' read_uint64 (\<lambda>n.
       load_seq (load_step (\<lambda>st. omap (\<lambda>hs. st\<lparr>ConflictingNodes := hs\<rparr>)
                   (make_slice 32 0 (uint n) (uint n))))
      (\<lambda>st r. case fill_hashes (unat n) 0 (elems (ConflictingNodes st)) r of
         (r', hs, res) \<Rightarrow> (r', st\<lparr>ConflictingNodes := set_elems hs (ConflictingNodes st)\<rparr>,
                          wrapping ''unable to read conflicting node %d: %w'' res)))"

text \<open>What happens behind the buffer, and what the caller sees of its own reader.\<close>

definition load_subtree :: "node_allocator \<Rightarrow> subtree loader" where
  "load_subtree alloc =
     recovering ''recovered in DeserializeFromReaderWithAllocator: %w: %v''
       (load_seq load_header
         (load_seq (deserializeNodesWithAllocator alloc) deserializeConflictingNodes))"

definition DeserializeFromReaderWithAllocator :: "caller \<Rightarrow> node_allocator \<Rightarrow> subtree loader" where
  "DeserializeFromReaderWithAllocator c alloc st = buffering c (load_subtree alloc st)"

definition DeserializeFromReader :: "caller \<Rightarrow> subtree loader" where
  "DeserializeFromReader c = DeserializeFromReaderWithAllocator c None"

text \<open>\<open>bytes.NewBuffer(b)\<close> gives as many bytes as it is asked for.\<close>

definition Deserialize :: "byte list \<Rightarrow> subtree \<Rightarrow> subtree \<times> unit outcome" where
  "Deserialize b st =
     snd (recovering ''recovered in Deserialize: %w: %v'' (DeserializeFromReader (Unbuffered length)) st
       (bytes_reader b))"

text \<open>The two constructors recover from a panic by returning nil and no error; the result \<open>Ok None\<close>
  stands for that.\<close>

definition NewSubtreeFromBytes :: "byte list \<Rightarrow> subtree option outcome" where
  "NewSubtreeFromBytes b =
     (case Deserialize b zero_subtree of
        (st, Ok _) \<Rightarrow> Ok (Some st)
      | (_, Fail e) \<Rightarrow> Fail e
      | (_, Panic _) \<Rightarrow> Ok None)"

definition NewSubtreeFromReader :: "caller \<Rightarrow> reader \<Rightarrow> reader \<times> subtree option outcome" where
  "NewSubtreeFromReader c r =
     (case DeserializeFromReader c zero_subtree r of
        (r', st, Ok _) \<Rightarrow> (r', Ok (Some st))
      | (r', _, Fail e) \<Rightarrow> (r', Fail e)
      | (r', _, Panic _) \<Rightarrow> (r', Ok None))"

section \<open>Reading into a mapped file\<close>

text \<open>The state is the subtree and what the program holds of the system.  A failure after the mapping
  closes the subtree, a panic does not; nothing here recovers.\<close>

type_synonym mapped = "subtree \<times> os_state"

definition load_fst :: "subtree loader \<Rightarrow> mapped loader" where
  "load_fst l = (\<lambda>(st, w) r. case l st r of (r', st', res) \<Rightarrow> (r', (st', w), res))"

definition closing :: "os_answers \<Rightarrow> mapped loader \<Rightarrow> mapped loader" where
  "closing os l s r =
     (case l s r of
        (r', (st, w), Fail e) \<Rightarrow>
          (case Close os (Some st) w of (w', st', _) \<Rightarrow> (r', (the st', w'), Fail e))
      | res \<Rightarrow> res)"

text \<open>\<open>nodes = append(nodes, node)\<close> stays in the mapping, which has room for all the nodes;
  \<open>st.Nodes\<close> is only assigned after the loop.\<close>

definition load_mapped_nodes :: "uint64 \<Rightarrow> node slice \<Rightarrow> mapped loader" where
  "load_mapped_nodes numLeaves nodes = (\<lambda>(st, w) r.
     case read_list read_node (unat numLeaves) (elems nodes) r of
       (r', ns, Ok _) \<Rightarrow> (r', (st\<lparr>Nodes := Slice ns (drop (unat numLeaves) (spare nodes))\<rparr>, w), Ok ())
     | (r', ns, Fail e) \<Rightarrow> (r', (st, w), Fail (Wrap ''unable to read node %d: %w'' [e]))
     | (r', ns, Panic p) \<Rightarrow> (r', (st, w), Panic p))"

definition load_mapping :: "os_answers \<Rightarrow> string \<Rightarrow> uint64 \<Rightarrow> mapped loader" where
  "load_mapping os dir numLeaves = (\<lambda>(st, w) r.
     case newFileBackedMmapNodes os (int_of_uint64 numLeaves) dir w of
       (w', Fail e) \<Rightarrow> (r, (st, w'), Fail (Wrap ''mmap allocation for %d nodes failed: %w'' [e]))
     | (w', Panic p) \<Rightarrow> (r, (st, w'), Panic p)
     | (w', Ok (nodes, m)) \<Rightarrow>
         closing os
           (load_seq (load_mapped_nodes numLeaves nodes) (load_fst deserializeConflictingNodes))
           (st\<lparr>closer := Some m\<rparr>, w') r)"

definition load_mapped_subtree :: "os_answers \<Rightarrow> string \<Rightarrow> mapped loader" where
  "load_mapped_subtree os dir =
     load_seq (load_fst load_header)
       (load_bind ''unable to read number of leaves: %w'' read_uint64 (\<lambda>numLeaves.
         load_seq (load_set (\<lambda>(st, w). (st\<lparr>treeSize := int_of_uint64 numLeaves,
                                          Height := ceil_log2 (uint numLeaves)\<rparr>, w)))
           (load_mapping os dir numLeaves)))"

definition deserializeFromReaderMmap :: "caller \<Rightarrow> os_answers \<Rightarrow> string \<Rightarrow> mapped loader" where
  "deserializeFromReaderMmap c os dir s = buffering c (load_mapped_subtree os dir s)"

definition NewSubtreeFromReaderMmap ::
  "caller \<Rightarrow> os_answers \<Rightarrow> string \<Rightarrow> reader \<Rightarrow> os_state \<Rightarrow> reader \<times> os_state \<times> subtree outcome" where
  "NewSubtreeFromReaderMmap c os dir r w =
     (case deserializeFromReaderMmap c os dir (zero_subtree, w) r of
        (r', (st, w'), Ok _) \<Rightarrow> (r', w', Ok st)
      | (r', (st, w'), Fail e) \<Rightarrow> (r', w', Fail e)
      | (r', (st, w'), Panic p) \<Rightarrow> (r', w', Panic p))"

section \<open>Extracting a part\<close>

text \<open>The slice bounds \<open>i*32\<close> and \<open>(i+1)*32\<close> are unsigned 64-bit numbers.\<close>

fun copy_hashes :: "nat \<Rightarrow> nat \<Rightarrow> byte list \<Rightarrow> reader \<Rightarrow> reader \<times> byte list outcome" where
  "copy_hashes 0 i subtreeBytes r = (r, Ok subtreeBytes)"
| "copy_hashes (Suc k) i subtreeBytes r =
     (case read_full 48 r of
        (r', Ok bs) \<Rightarrow>
          (let lo = (i * 32) mod 2 ^ 64; hi = ((i + 1) * 32) mod 2 ^ 64 in
           if lo \<le> hi \<and> hi \<le> length subtreeBytes
           then copy_hashes k (i + 1) (take lo subtreeBytes @ take 32 bs @ drop hi subtreeBytes) r'
           else (r', Panic SliceBoundsOutOfRange))
      | (r', Fail e) \<Rightarrow> (r', Fail (Wrap ''unable to read subtree node information: %w'' [e]))
      | (r', Panic p) \<Rightarrow> (r', Panic p))"

definition read_node_hashes :: "reader \<Rightarrow> reader \<times> byte list outcome" where
  "read_node_hashes r =
     (case read_full 56 r of
        (r', Ok byteBuffer) \<Rightarrow>
          (let numLeaves = (le_word (take 8 (drop 48 byteBuffer)) :: uint64);
               sz = wrap64 (32 * int_of_uint64 numLeaves)
           in (case make_slice 1 0 sz sz of
                 Ok subtreeBytes \<Rightarrow> copy_hashes (unat numLeaves) 0 (elems subtreeBytes) r'
               | Fail e \<Rightarrow> (r', Fail e)
               | Panic p \<Rightarrow> (r', Panic p)))
      | (r', Fail e) \<Rightarrow> (r', Fail (Wrap ''unable to read subtree root information: %w'' [e]))
      | (r', Panic p) \<Rightarrow> (r', Panic p))"

definition DeserializeNodesFromReader :: "caller \<Rightarrow> reader \<Rightarrow> reader \<times> byte list outcome" where
  "DeserializeNodesFromReader c = buffering c read_node_hashes"

text \<open>\<open>safe.Uint64ToInt\<close> of go-safe-conversion is a parameter.\<close>

definition read_conflicting :: "(uint64 \<Rightarrow> int outcome) \<Rightarrow> hash list decoder" where
  "read_conflicting Uint64ToInt r =
     dbind (dwrap ''unable to read number of leaves: %w'' read_uint64) (\<lambda>numLeaves r1.
       case Uint64ToInt numLeaves of
         Fail e \<Rightarrow> (r1, Fail e)
       | Panic p \<Rightarrow> (r1, Panic p)
       | Ok numLeavesInt \<Rightarrow>
           dbind (dwrap ''unable to read number of conflicting nodes: %w'' read_uint64) (\<lambda>n r2.
             case make_slice 32 0 (uint n) (uint n) of
               Fail e \<Rightarrow> (r2, Fail e)
             | Panic p \<Rightarrow> (r2, Panic p)
             | Ok hs \<Rightarrow>
                 (case fill_hashes (unat n) 0 (elems hs) r2 of
                    (r3, conflictingNodes, Ok _) \<Rightarrow> (r3, Ok conflictingNodes)
                  | (r3, _, Fail e) \<Rightarrow> (r3, Fail (Wrap ''unable to read conflicting node: %w'' [e]))
                  | (r3, _, Panic p) \<Rightarrow> (r3, Panic p)))
             (discard (wrap64 (48 * numLeavesInt)) r1))
       (discard (32 + 8 + 8) r)"

definition DeserializeSubtreeConflictingFromReader ::
  "caller \<Rightarrow> (uint64 \<Rightarrow> int outcome) \<Rightarrow> hash list decoder" where
  "DeserializeSubtreeConflictingFromReader c Uint64ToInt r =
     (case buffering c (read_conflicting Uint64ToInt) r of
        (r', Panic p) \<Rightarrow>
          (r', Fail (Wrap ''recovered in DeserializeSubtreeConflictingFromReader: %w: %v'' []))
      | res \<Rightarrow> res)"

section \<open>What the readers accept\<close>

text \<open>The bytes of a subtree with a given root.\<close>

definition wire :: "hash \<Rightarrow> subtree \<Rightarrow> byte list" where
  "wire root st = hash_bytes root @ put_uint64 (Fees st) @ put_uint64 (SizeInBytes st) @
     put_uint64 (of_nat (slice_len (Nodes st))) @ concat (map encode_node (elems (Nodes st))) @
     put_uint64 (of_nat (slice_len (ConflictingNodes st))) @
     concat (map hash_bytes (elems (ConflictingNodes st)))"

text \<open>Slices of the size of an array that can be made.\<close>

definition fits :: "subtree \<Rightarrow> bool" where
  "fits st = (allocatable (node_list st) \<and> 32 * int (slice_len (ConflictingNodes st)) \<le> max_alloc)"

definition same_content :: "hash \<Rightarrow> subtree \<Rightarrow> subtree \<Rightarrow> bool" where
  "same_content root st st' =
     (rootHash st' = Some root \<and> Fees st' = Fees st \<and> SizeInBytes st' = SizeInBytes st \<and>
      node_list st' = node_list st \<and> elems (ConflictingNodes st') = elems (ConflictingNodes st) \<and>
      treeSize st' = int (Length st) \<and> Height st' = ceil_log2 (int (Length st)))"

lemma fits_bounds:
  assumes "fits st"
  shows "slice_len (Nodes st) < 2 ^ 63" "slice_len (ConflictingNodes st) < 2 ^ 63"
    "nodeSize * int (slice_len (Nodes st)) \<le> max_alloc"
    "32 * int (slice_len (ConflictingNodes st)) \<le> max_alloc"
  using assms
  by (auto simp: fits_def allocatable_def max_alloc_def slice_len_def nodeSize_def)

lemma uint_of_nat_small: "n < 2 ^ 63 \<Longrightarrow> uint (of_nat n :: uint64) = int n"
  using unat_uint64_of_nat [of n] by (simp only: uint_nat) simp

lemma loads_root: "loads load_root (hash_bytes root) st (st\<lparr>rootHash := Some root\<rparr>)"
proof (rule loadsI)
  show "load_root st r = (r\<lparr>rdata := rest\<rparr>, st\<lparr>rootHash := Some root\<rparr>, Ok ())"
    if "rdata r = hash_bytes root @ rest" for r rest
    using read_full_Ok [OF that] by (simp add: load_root_def)
  show "is_fail (snd (snd (load_root st r)))" if "strict_prefix (rdata r) (hash_bytes root)" for r
    using read_full_short [of r 32] prefix_length_less [OF that] by (auto simp: load_root_def)
qed

lemma loads_header:
  "loads load_header (hash_bytes root @ put_uint64 fees @ put_uint64 sz) st
    (st\<lparr>rootHash := Some root, Fees := fees, SizeInBytes := sz\<rparr>)"
proof -
  have bind: "loads (load_bind fmt read_uint64 (\<lambda>x. load_set (f x))) (put_uint64 x) s (f x s)"
    for fmt f x and s :: subtree
    using loads_bind [OF uint64_codec.codec_axioms, where f = "\<lambda>x. load_set (f x)" and x = x and bs = "[]"
        and st = s and st' = "f x s" and fmt = fmt] by auto
  show ?thesis
    unfolding load_header_def
    by (rule loads_seq [OF loads_root loads_seq [OF bind]])
      (rule bind [where f = "\<lambda>x. SizeInBytes_update (\<lambda>_. x)"])
qed

lemma node_storage_Ok:
  assumes "nodeSize * int n \<le> max_alloc"
  shows "\<exists>s. node_storage alloc (of_nat n) = Ok s \<and> slice_len s = n"
proof -
  have n: "n < 2 ^ 63" using assms by (simp add: nodeSize_def max_alloc_def)
  note u = uint_of_nat_small [OF n] int_of_uint64_of_nat [OF n]
  have make: "\<exists>s. make_slice nodeSize zero_node (int n) (int n) = Ok s \<and> slice_len s = n"
    using assms by (simp add: make_slice_def slice_len_def)
  show ?thesis
  proof (cases alloc)
    case None
    with make show ?thesis by (simp add: node_storage_def u)
  next
    case (Some f)
    have "\<exists>s'. reslice s (int n) = Ok s' \<and> slice_len s' = n" if "n \<le> slice_cap s" for s :: "node slice"
      using that by (cases s) (auto simp: reslice_def slice_len_def slice_cap_def)
    with make Some show ?thesis by (auto simp: node_storage_def u Let_def)
  qed
qed

lemma loads_nodes:
  assumes "nodeSize * int (length ns) \<le> max_alloc"
  shows "\<exists>s. elems s = ns \<and> loads (deserializeNodesWithAllocator alloc)
    (put_uint64 (of_nat (length ns)) @ concat (map encode_node ns)) st
    (st\<lparr>treeSize := int (length ns), Height := ceil_log2 (int (length ns)), Nodes := s\<rparr>)"
proof -
  let ?n = "of_nat (length ns) :: uint64"
  have n: "length ns < 2 ^ 63" using assms by (simp add: nodeSize_def max_alloc_def)
  have u: "uint ?n = int (length ns)" "int_of_uint64 ?n = int (length ns)" "unat ?n = length ns"
    using n uint_of_nat_small int_of_uint64_of_nat unat_uint64_of_nat by simp_all
  obtain s where s: "node_storage alloc ?n = Ok s" "slice_len s = length ns"
    using node_storage_Ok [OF assms] by blast
  let ?st1 = "st\<lparr>treeSize := int (length ns), Height := ceil_log2 (int (length ns))\<rparr>"
  let ?st2 = "?st1\<lparr>Nodes := s\<rparr>" and ?s = "set_elems ns s"
  have arr: "loads (load_array ''unable to read node: %w'' read_node (length ns) node_list
      (\<lambda>ns st. st\<lparr>Nodes := set_elems ns (Nodes st)\<rparr>)) (concat (map encode_node ns)) ?st2
      (?st2\<lparr>Nodes := ?s\<rparr>)"
    using loads_array [OF node_codec.codec_axioms, where xs = ns and get = node_list and st = ?st2
        and upd = "\<lambda>ns st. st\<lparr>Nodes := set_elems ns (Nodes st)\<rparr>"] s(2)
    by (simp add: slice_len_def)
  have "loads (deserializeNodesWithAllocator alloc) (put_uint64 ?n @ concat (map encode_node ns)) st
      (?st2\<lparr>Nodes := ?s\<rparr>)"
    unfolding deserializeNodesWithAllocator_def
  proof (rule loads_bind [OF uint64_codec.codec_axioms])
    have "loads (load_seq (load_set (\<lambda>st. st\<lparr>treeSize := int_of_uint64 ?n, Height := ceil_log2 (uint ?n)\<rparr>))
        (load_seq (load_step (\<lambda>st. omap (\<lambda>ns. st\<lparr>Nodes := ns\<rparr>) (node_storage alloc ?n)))
        (load_array ''unable to read node: %w'' read_node (unat ?n) node_list
          (\<lambda>ns st. st\<lparr>Nodes := set_elems ns (Nodes st)\<rparr>))))
        ([] @ [] @ concat (map encode_node ns)) st (?st2\<lparr>Nodes := ?s\<rparr>)"
      by (rule loads_seq [of _ _ _ ?st1], rule loads_set, simp add: u,
          rule loads_seq [of _ _ _ ?st2], rule loads_step, simp add: s,
          use arr in \<open>simp add: u\<close>)
    then show "loads (load_seq (load_set (\<lambda>st. st\<lparr>treeSize := int_of_uint64 ?n, Height := ceil_log2 (uint ?n)\<rparr>))
        (load_seq (load_step (\<lambda>st. omap (\<lambda>ns. st\<lparr>Nodes := ns\<rparr>) (node_storage alloc ?n)))
        (load_array ''unable to read node: %w'' read_node (unat ?n) node_list
          (\<lambda>ns st. st\<lparr>Nodes := set_elems ns (Nodes st)\<rparr>))))
        (concat (map encode_node ns)) st (?st2\<lparr>Nodes := ?s\<rparr>)" by simp
  qed simp
  moreover have "elems ?s = ns" using s(2) by (intro elems_set_elems) (simp add: slice_len_def)
  ultimately show ?thesis by (intro exI [of _ ?s]) simp
qed

lemma loads_conflicting:
  assumes "32 * int (length hs) \<le> max_alloc"
  shows "loads deserializeConflictingNodes (put_uint64 (of_nat (length hs)) @ concat (map hash_bytes hs))
    st (st\<lparr>ConflictingNodes := Slice hs []\<rparr>)"
  unfolding deserializeConflictingNodes_def
proof (rule loads_bind [OF uint64_codec.codec_axioms])
  let ?n = "of_nat (length hs) :: uint64"
  let ?st1 = "st\<lparr>ConflictingNodes := Slice (replicate (length hs) 0) []\<rparr>"
  let ?l = "\<lambda>st r. case fill_hashes (length hs) 0 (elems (ConflictingNodes st)) r of
      (r', hs, res) \<Rightarrow> (r', st\<lparr>ConflictingNodes := set_elems hs (ConflictingNodes st)\<rparr>,
        wrapping ''unable to read conflicting node %d: %w'' res)"
  have n: "length hs < 2 ^ 63" using assms by (simp add: max_alloc_def)
  have u: "uint ?n = int (length hs)" "unat ?n = length hs"
    using n uint_of_nat_small unat_uint64_of_nat by simp_all
  have make: "make_slice 32 (0 :: hash) (int (length hs)) (int (length hs)) =
      Ok (Slice (replicate (length hs) 0) [])"
    using assms by (simp add: make_slice_def)
  have fill: "loads ?l (concat (map hash_bytes hs)) ?st1 (st\<lparr>ConflictingNodes := Slice hs []\<rparr>)"
    using loads_hashes [where hs = hs and get = "\<lambda>st. elems (ConflictingNodes st)" and st = ?st1
        and upd = "\<lambda>hs st. st\<lparr>ConflictingNodes := set_elems hs (ConflictingNodes st)\<rparr>"]
    by simp
  have "loads (load_seq (load_step (\<lambda>st. omap (\<lambda>hs. st\<lparr>ConflictingNodes := hs\<rparr>)
      (make_slice 32 0 (uint ?n) (uint ?n)))) ?l) ([] @ concat (map hash_bytes hs)) st
      (st\<lparr>ConflictingNodes := Slice hs []\<rparr>)"
    by (rule loads_seq [OF loads_step fill]) (simp add: u make)
  then show "loads (load_seq (load_step (\<lambda>st. omap (\<lambda>hs. st\<lparr>ConflictingNodes := hs\<rparr>)
      (make_slice 32 0 (uint ?n) (uint ?n))))
      (\<lambda>st r. case fill_hashes (unat ?n) 0 (elems (ConflictingNodes st)) r of
         (r', hs, res) \<Rightarrow> (r', st\<lparr>ConflictingNodes := set_elems hs (ConflictingNodes st)\<rparr>,
                          wrapping ''unable to read conflicting node %d: %w'' res)))
      (concat (map hash_bytes hs)) st (st\<lparr>ConflictingNodes := Slice hs []\<rparr>)"
    by (simp add: u)
qed simp

text \<open>The whole format, whatever storage the caller supplies and whatever was in the subtree.\<close>

lemma loads_subtree:
  assumes "fits st"
  shows "\<exists>st'. same_content root st st' \<and> nodeIndex st' = nodeIndex st0 \<and> closer st' = closer st0 \<and>
    FeeHash st' = FeeHash st0 \<and>
    loads (load_subtree alloc) (wire root st) st0 st'"
proof -
  let ?st1 = "st0\<lparr>rootHash := Some root, Fees := Fees st, SizeInBytes := SizeInBytes st\<rparr>"
  obtain s where s: "elems s = node_list st"
    and nodes: "loads (deserializeNodesWithAllocator alloc)
      (put_uint64 (of_nat (length (node_list st))) @ concat (map encode_node (node_list st))) ?st1
      (?st1\<lparr>treeSize := int (length (node_list st)),
            Height := ceil_log2 (int (length (node_list st))), Nodes := s\<rparr>)"
    using loads_nodes [of "node_list st" alloc ?st1] fits_bounds(3) [OF assms]
    by (auto simp: slice_len_def)
  note conf = loads_conflicting [OF fits_bounds(4) [OF assms, unfolded slice_len_def]]
  note all = loads_recovering [OF loads_seq [OF loads_header loads_seq [OF nodes conf]]]
  show ?thesis
    using s all unfolding load_subtree_def
    by (intro exI [of _ "?st1\<lparr>treeSize := int (length (node_list st)),
        Height := ceil_log2 (int (length (node_list st))), Nodes := s,
        ConflictingNodes := Slice (elems (ConflictingNodes st)) []\<rparr>"])
      (simp add: same_content_def wire_def slice_len_def Length_def)
qed

lemma Serialize_wire:
  assumes "cache_valid sha st" and "allocatable (node_list st)" and "node_list st \<noteq> []"
  obtains root where "Serialize sha st = (st\<lparr>rootHash := Some root\<rparr>, Ok (wire root st))"
    "snd (RootHash sha (Some st)) = Ok (Some root)"
proof -
  from assms(3) obtain h where "root_hash sha st = (st\<lparr>rootHash := Some h\<rparr>, Ok (Some h))"
    using root_hash_cases [OF assms(1,2)] by metis
  then show thesis
    by (intro that [of h]) (simp_all add: Serialize_def wire_def RootHash_root_hash)
qed

section \<open>The other readers\<close>

lemma hash_prefix_of_node: "take 32 (encode_node n) = hash_bytes (Hash n)"
  by (simp add: encode_node_def)

lemma copy_hashes_eq:
  "rdata r = concat (map encode_node ns) @ rest \<Longrightarrow> 32 * (i + length ns) \<le> length buf \<Longrightarrow>
    length buf < 2 ^ 64 \<Longrightarrow>
    copy_hashes (length ns) i buf r =
      (r\<lparr>rdata := rest\<rparr>, Ok (take (32 * i) buf @ concat (map (\<lambda>n. hash_bytes (Hash n)) ns) @
        drop (32 * (i + length ns)) buf))"
proof (induction ns arbitrary: i buf r)
  case (Cons n ns)
  let ?r = "r\<lparr>rdata := concat (map encode_node ns) @ rest\<rparr>"
  let ?buf = "take (32 * i) buf @ hash_bytes (Hash n) @ drop (32 * (i + 1)) buf"
  have len: "32 * i + 32 \<le> length buf" using Cons.prems(2) by simp
  then have lo: "(i * 32) mod 2 ^ 64 = 32 * i" and hi: "((i + 1) * 32) mod 2 ^ 64 = 32 * (i + 1)"
    using Cons.prems(3) by (simp_all add: mod_less)
  have "length (encode_node n) = 48" by (simp add: encode_node_def)
  then have "read_full 48 r = (?r, Ok (encode_node n))"
    using Cons.prems(1) by (intro read_full_Ok) simp_all
  then have step: "copy_hashes (length (n # ns)) i buf r = copy_hashes (length ns) (i + 1) ?buf ?r"
    using len by (simp only: length_Cons copy_hashes.simps prod.case outcome.case Let_def lo hi
        hash_prefix_of_node) simp
  have buf: "length ?buf = length buf" using len by simp
  have "copy_hashes (length ns) (i + 1) ?buf ?r = (r\<lparr>rdata := rest\<rparr>,
      Ok (take (32 * (i + 1)) ?buf @ concat (map (\<lambda>n. hash_bytes (Hash n)) ns) @
        drop (32 * (i + 1 + length ns)) ?buf))"
    using Cons.IH [of ?r "i + 1" ?buf] Cons.prems(2,3) buf by simp
  moreover have "take (32 * (i + 1)) ?buf = take (32 * i) buf @ hash_bytes (Hash n)"
    using len by simp
  moreover have "drop (32 * (i + 1 + length ns)) ?buf = drop (32 * (i + length (n # ns))) buf"
    using len by (simp add: algebra_simps)
  ultimately show ?case by (simp only: step) simp
qed simp

text \<open>The fixed part in front of the nodes.\<close>

definition wire_head :: "hash \<Rightarrow> uint64 \<Rightarrow> uint64 \<Rightarrow> uint64 \<Rightarrow> byte list" where
  "wire_head root fees sz n = hash_bytes root @ put_uint64 fees @ put_uint64 sz @ put_uint64 n"

lemma read_head:
  assumes "rdata r = wire_head root fees sz n @ rest"
  shows "read_full 56 r = (r\<lparr>rdata := rest\<rparr>, Ok (wire_head root fees sz n))"
    and "le_word (take 8 (drop 48 (wire_head root fees sz n))) = n"
  using assms by (simp_all add: read_full_def wire_head_def)

lemma copy_hashes_short:
  "strict_prefix (rdata r) (concat (map encode_node ns)) \<Longrightarrow> 32 * (i + length ns) \<le> length buf \<Longrightarrow>
    length buf < 2 ^ 64 \<Longrightarrow> is_fail (snd (copy_hashes (length ns) i buf r))"
proof (induction ns arbitrary: i buf r)
  case (Cons n ns)
  have n: "length (encode_node n) = 48" by (simp add: encode_node_def)
  from Cons.prems(1) have "strict_prefix (rdata r) (encode_node n @ concat (map encode_node ns))" by simp
  then show ?case
  proof (cases rule: strict_prefix_append_cases)
    case 1
    then have "length (rdata r) < 48" using prefix_length_less [OF 1] n by simp
    from read_full_short [OF this] show ?thesis by auto
  next
    case (2 q)
    let ?buf = "take (32 * i) buf @ hash_bytes (Hash n) @ drop (32 * (i + 1)) buf"
    have len: "32 * i + 32 \<le> length buf" using Cons.prems(2) by simp
    then have lo: "(i * 32) mod 2 ^ 64 = 32 * i" and hi: "((i + 1) * 32) mod 2 ^ 64 = 32 * (i + 1)"
      using Cons.prems(3) by (simp_all add: mod_less)
    have "read_full 48 r = (r\<lparr>rdata := q\<rparr>, Ok (encode_node n))"
      using 2(1) n by (intro read_full_Ok) simp_all
    then have "copy_hashes (length (n # ns)) i buf r = copy_hashes (length ns) (i + 1) ?buf (r\<lparr>rdata := q\<rparr>)"
      using len by (simp only: length_Cons copy_hashes.simps prod.case outcome.case Let_def lo hi
          hash_prefix_of_node) simp
    moreover have "length ?buf = length buf" using len by simp
    ultimately show ?thesis
      using Cons.IH [of "r\<lparr>rdata := q\<rparr>" "i + 1" ?buf] Cons.prems(2,3) 2(2) by simp
  qed
qed simp

text \<open>The reader of the node hashes copies the hashes behind the head, and looks no further.\<close>

lemma read_node_hashes_head:
  assumes "rdata r = wire_head root fees sz (of_nat (Length st)) @ body" and "fits st"
  shows "read_node_hashes r =
    copy_hashes (Length st) 0 (replicate (32 * Length st) 0) (r\<lparr>rdata := body\<rparr>)"
proof -
  let ?n = "of_nat (Length st) :: uint64"
  have n: "Length st < 2 ^ 63" "48 * int (Length st) \<le> max_alloc"
    using fits_bounds [OF assms(2)] by (simp_all add: Length_def nodeSize_def)
  have u: "int_of_uint64 ?n = int (Length st)" "unat ?n = Length st"
    using n(1) int_of_uint64_of_nat unat_uint64_of_nat by simp_all
  have sz: "wrap64 (32 * int_of_uint64 ?n) = int (32 * Length st)"
    using n by (simp add: u wrap64_id max_alloc_def)
  have make: "make_slice 1 (0 :: byte) (int (32 * Length st)) (int (32 * Length st)) =
      Ok (Slice (replicate (32 * Length st) 0) [])"
    using n(2) by (simp add: make_slice_def nat_mult_distrib)
  show ?thesis
    using make by (simp add: read_node_hashes_def read_head [OF assms(1)] sz u(2) Let_def)
qed

lemma read_node_hashes_nodes:
  assumes "rdata r = wire_head root fees sz (of_nat (Length st)) @ concat (map encode_node (node_list st)) @ rest"
    and "fits st"
  shows "read_node_hashes r = (r\<lparr>rdata := rest\<rparr>, SerializeNodes st)"
proof -
  let ?r = "r\<lparr>rdata := concat (map encode_node (node_list st)) @ rest\<rparr>"
  have "48 * int (Length st) \<le> max_alloc" using fits_bounds [OF assms(2)] by (simp add: Length_def nodeSize_def)
  then show ?thesis
    using copy_hashes_eq [of ?r "node_list st" rest 0 "replicate (32 * Length st) 0"]
      read_node_hashes_head [OF assms]
    by (simp add: max_alloc_def SerializeNodes_def Length_def slice_len_def)
qed

lemma wire_split:
  "wire root st = wire_head root (Fees st) (SizeInBytes st) (of_nat (Length st)) @
    concat (map encode_node (node_list st)) @
    put_uint64 (of_nat (slice_len (ConflictingNodes st))) @ concat (map hash_bytes (elems (ConflictingNodes st)))"
  by (simp add: wire_def wire_head_def Length_def)

lemma length_wire_head [simp]: "length (wire_head root fees sz n) = 56"
  by (simp add: wire_head_def)

lemma length_encoded_nodes: "length (concat (map encode_node (node_list st))) = 48 * Length st"
  using node_codec.length_enc_list [of "node_list st"] by (simp add: Length_def slice_len_def)

lemma read_node_hashes_wire:
  assumes "rdata r = wire root st @ rest" and "fits st"
  shows "read_node_hashes r =
    (r\<lparr>rdata := put_uint64 (of_nat (slice_len (ConflictingNodes st))) @
       concat (map hash_bytes (elems (ConflictingNodes st))) @ rest\<rparr>, SerializeNodes st)"
  using assms(1) by (intro read_node_hashes_nodes [OF _ assms(2)]) (simp add: wire_split)

lemma truncated_node_hashes:
  assumes "fits st" and "strict_prefix (rdata r) (wire root st)"
  shows "if length (rdata r) < 56 + 48 * Length st then is_fail (snd (read_node_hashes r))
    else snd (read_node_hashes r) = SerializeNodes st"
proof -
  let ?H = "wire_head root (Fees st) (SizeInBytes st) (of_nat (Length st))"
  let ?N = "concat (map encode_node (node_list st))"
  have "strict_prefix (rdata r) (?H @ ?N @ put_uint64 (of_nat (slice_len (ConflictingNodes st))) @
      concat (map hash_bytes (elems (ConflictingNodes st))))"
    using assms(2) by (simp only: wire_split)
  then show ?thesis
  proof (cases rule: strict_prefix_append_cases)
    case 1
    then have l: "length (rdata r) < 56" using prefix_length_less [OF 1] by simp
    from read_full_short [OF this] l show ?thesis by (auto simp: read_node_hashes_def)
  next
    case (2 q)
    from 2(2) show ?thesis
    proof (cases rule: strict_prefix_append_cases)
      case 1
      have b: "48 * int (Length st) \<le> max_alloc" using fits_bounds [OF assms(1)] by (simp add: Length_def nodeSize_def)
      have "is_fail (snd (copy_hashes (length (node_list st)) 0 (replicate (32 * Length st) 0) (r\<lparr>rdata := q\<rparr>)))"
        using b 1 by (intro copy_hashes_short) (simp_all add: max_alloc_def Length_def slice_len_def)
      then have "is_fail (snd (read_node_hashes r))"
        using read_node_hashes_head [OF 2(1) assms(1)] by (simp add: Length_def slice_len_def)
      moreover have "length (rdata r) < 56 + 48 * Length st"
        using 2(1) prefix_length_less [OF 1] length_encoded_nodes [of st] by simp
      ultimately show ?thesis by simp
    next
      case (2 t)
      have r: "rdata r = ?H @ ?N @ t" using \<open>rdata r = ?H @ q\<close> 2(1) by simp
      then have "\<not> length (rdata r) < 56 + 48 * Length st"
        using length_encoded_nodes [of st] by simp
      with read_node_hashes_nodes [OF r assms(1)] show ?thesis by simp
    qed
  qed
qed

lemma discard_prefix: "rdata r = as @ rest \<Longrightarrow> length as = n \<Longrightarrow> discard (int n) r = r\<lparr>rdata := rest\<rparr>"
  by (simp add: discard_def)

lemma read_conflicting_wire:
  assumes "rdata r = wire root st @ rest" and "fits st"
    and "Uint64ToInt (of_nat (Length st)) = Ok (int (Length st))"
  shows "read_conflicting Uint64ToInt r = (r\<lparr>rdata := rest\<rparr>, Ok (elems (ConflictingNodes st)))"
proof -
  let ?ns = "node_list st" and ?hs = "elems (ConflictingNodes st)"
  let ?m = "of_nat (length ?hs) :: uint64"
  have n: "48 * int (length ?ns) \<le> max_alloc" "32 * int (length ?hs) \<le> max_alloc" "length ?hs < 2 ^ 63"
    using fits_bounds [OF assms(2)] by (simp_all add: slice_len_def nodeSize_def)
  have u: "uint ?m = int (length ?hs)" "unat ?m = length ?hs"
    using n(3) uint_of_nat_small unat_uint64_of_nat by simp_all
  have sz: "wrap64 (48 * int (Length st)) = int (48 * length ?ns)"
    using n(1) by (simp add: wrap64_id max_alloc_def Length_def slice_len_def)
  have make: "make_slice 32 (0 :: hash) (int (length ?hs)) (int (length ?hs)) =
      Ok (Slice (replicate (length ?hs) 0) [])"
    using n(2) by (simp add: make_slice_def)
  let ?r1 = "r\<lparr>rdata := put_uint64 (of_nat (Length st)) @ concat (map encode_node ?ns) @
      put_uint64 ?m @ concat (map hash_bytes ?hs) @ rest\<rparr>"
  let ?r2 = "r\<lparr>rdata := concat (map encode_node ?ns) @ put_uint64 ?m @ concat (map hash_bytes ?hs) @ rest\<rparr>"
  let ?r3 = "r\<lparr>rdata := put_uint64 ?m @ concat (map hash_bytes ?hs) @ rest\<rparr>"
  let ?r4 = "r\<lparr>rdata := concat (map hash_bytes ?hs) @ rest\<rparr>"
  have d1: "discard 48 r = ?r1"
    using discard_prefix [of r "hash_bytes root @ put_uint64 (Fees st) @ put_uint64 (SizeInBytes st)" _ 48]
      assms(1) by (simp add: wire_def slice_len_def Length_def)
  have d2: "read_uint64 ?r1 = (?r2, Ok (of_nat (Length st)))"
    using uint64_codec.dec_enc [where x = "of_nat (Length st)" and r = ?r1] by simp
  have d3: "discard (int (48 * length ?ns)) ?r2 = ?r3"
    using node_codec.discard_enc_list [of ?ns ?r2] by simp
  have d4: "read_uint64 ?r3 = (?r4, Ok ?m)"
    using uint64_codec.dec_enc [where x = ?m and r = ?r3] by simp
  have "fill_array read_hash (length ?hs) 0 (replicate (length ?hs) 0) ?r4 = (r\<lparr>rdata := rest\<rparr>, ?hs, Ok ())"
    using hash_codec.fill_array_enc [of ?hs ?r4 rest 0 "replicate (length ?hs) 0"] by simp
  from fill_hashes_fill_array [OF this]
  have d5: "fill_hashes (length ?hs) 0 (replicate (length ?hs) 0) ?r4 = (r\<lparr>rdata := rest\<rparr>, ?hs, Ok ())"
    by simp
  show ?thesis
    using d1 d2 d3 d4 d5 make
    by (simp add: read_conflicting_def dbind_Ok dwrap_Ok assms(3) sz u)
qed

section \<open>The mapped reader\<close>

lemma load_mapped_nodes_wire:
  assumes "nodes = Slice [] (replicate (length ns) zero_node)" and "length ns < 2 ^ 63"
  shows "loads (load_mapped_nodes (of_nat (length ns)) nodes) (concat (map encode_node ns)) (st, w)
    (st\<lparr>Nodes := Slice ns []\<rparr>, w)"
proof (rule loadsI)
  have u: "unat (of_nat (length ns) :: uint64) = length ns" using assms(2) unat_uint64_of_nat by simp
  show "load_mapped_nodes (of_nat (length ns)) nodes (st, w) r =
      (r\<lparr>rdata := rest\<rparr>, (st\<lparr>Nodes := Slice ns []\<rparr>, w), Ok ())"
    if "rdata r = concat (map encode_node ns) @ rest" for r rest
    using node_codec.read_list_enc [OF _ that, of "[]"] assms(1) by (simp add: load_mapped_nodes_def u)
  show "is_fail (snd (snd (load_mapped_nodes (of_nat (length ns)) nodes (st, w) r)))"
    if "strict_prefix (rdata r) (concat (map encode_node ns))" for r
    using node_codec.read_list_short [OF _ that, of "[]"] assms(1) by (auto simp: load_mapped_nodes_def u)
qed

lemma loads_fst: "loads l bs st st' \<Longrightarrow> loads (load_fst l) bs (st, w) (st', w)"
  by (auto simp: loads_def load_fst_def is_fail_iff split: prod.split)

lemma loads_closing: "loads l bs s s' \<Longrightarrow> loads (closing os l) bs s s'"
  by (auto simp: loads_def closing_def is_fail_iff split: prod.split outcome.split)

lemma loads_mapping:
  assumes "newFileBackedMmapNodes os (int (length ns)) dir w =
      (w', Ok (Slice [] (replicate (length ns) zero_node), m))"
    and "length ns < 2 ^ 63" and "32 * int (length hs) \<le> max_alloc"
  shows "loads (load_mapping os dir (of_nat (length ns)))
    (concat (map encode_node ns) @ put_uint64 (of_nat (length hs)) @ concat (map hash_bytes hs)) (st, w)
    (st\<lparr>closer := Some m, Nodes := Slice ns [], ConflictingNodes := Slice hs []\<rparr>, w')"
proof -
  let ?nodes = "Slice [] (replicate (length ns) zero_node)"
  let ?l = "closing os (load_seq (load_mapped_nodes (of_nat (length ns)) ?nodes)
    (load_fst deserializeConflictingNodes))"
  have "loads ?l (concat (map encode_node ns) @ put_uint64 (of_nat (length hs)) @ concat (map hash_bytes hs))
      (st\<lparr>closer := Some m\<rparr>, w')
      (st\<lparr>closer := Some m, Nodes := Slice ns [], ConflictingNodes := Slice hs []\<rparr>, w')"
    by (rule loads_closing loads_seq load_mapped_nodes_wire [OF refl assms(2)] loads_fst
        loads_conflicting [OF assms(3)])+
  moreover have "load_mapping os dir (of_nat (length ns)) (st, w) r = ?l (st\<lparr>closer := Some m\<rparr>, w') r" for r
    using assms(1,2) int_of_uint64_of_nat [of "length ns"] by (simp add: load_mapping_def)
  ultimately show ?thesis by (simp add: loads_def)
qed

lemma loads_mapped_subtree:
  assumes "fits st" and "newFileBackedMmapNodes os (int (Length st)) dir w =
      (w', Ok (Slice [] (replicate (Length st) zero_node), m))"
  shows "\<exists>st'. same_content root st st' \<and> closer st' = Some m \<and> nodeIndex st' = nodeIndex st0 \<and>
    loads (load_mapped_subtree os dir) (wire root st) (st0, w) (st', w')"
proof -
  let ?ns = "node_list st" and ?hs = "elems (ConflictingNodes st)"
  let ?n = "of_nat (length ?ns) :: uint64"
  let ?st1 = "st0\<lparr>rootHash := Some root, Fees := Fees st, SizeInBytes := SizeInBytes st\<rparr>"
  let ?st2 = "?st1\<lparr>treeSize := int (length ?ns), Height := ceil_log2 (int (length ?ns))\<rparr>"
  let ?st3 = "?st2\<lparr>closer := Some m, Nodes := Slice ?ns [], ConflictingNodes := Slice ?hs []\<rparr>"
  note b = fits_bounds [OF assms(1), unfolded slice_len_def]
  have u: "uint ?n = int (length ?ns)" "int_of_uint64 ?n = int (length ?ns)"
    using b(1) uint_of_nat_small int_of_uint64_of_nat by simp_all
  note map = loads_mapping [OF assms(2) [unfolded Length_def slice_len_def] b(1,4), of "?st2"]
  have set: "loads (load_set (\<lambda>(st, w). (st\<lparr>treeSize := int_of_uint64 ?n, Height := ceil_log2 (uint ?n)\<rparr>, w)))
      [] (?st1, w) (?st2, w)"
    by (rule loads_set) (simp add: u)
  have "loads (load_mapped_subtree os dir)
      ((hash_bytes root @ put_uint64 (Fees st) @ put_uint64 (SizeInBytes st)) @ put_uint64 ?n @ [] @
       concat (map encode_node ?ns) @ put_uint64 (of_nat (length ?hs)) @ concat (map hash_bytes ?hs))
      (st0, w) (?st3, w')"
    unfolding load_mapped_subtree_def
    by (rule loads_seq [OF loads_fst [OF loads_header]], rule loads_bind [OF uint64_codec.codec_axioms])
      (use loads_seq [OF set map] in simp_all)
  then show ?thesis
    by (intro exI [of _ ?st3]) (simp add: same_content_def wire_def slice_len_def Length_def)
qed

text \<open>Failures release the mapping.\<close>

lemma deserializeConflictingNodes_closer:
  "deserializeConflictingNodes st r = (r', st', x) \<Longrightarrow> closer st' = closer st"
  by (auto simp: deserializeConflictingNodes_def load_bind_def load_seq_def load_step_def make_slice_def
      split: prod.splits outcome.splits if_splits)

lemma load_header_closer: "load_header st r = (r', st', x) \<Longrightarrow> closer st' = closer st"
  by (auto simp: load_header_def load_root_def load_bind_def load_seq_def load_set_def
      split: prod.splits outcome.splits)

lemma holds_grows: "holds m w w' \<Longrightarrow> temp_files w \<subset> temp_files w' \<and> mappings w \<subset> mappings w'"
  by (auto simp: holds_def)

lemma load_mapping_leaves:
  assumes os: "os_documented os" and "load_mapping os dir n (st, w) r = (r', (st', w'), x)"
  shows "(is_fail x \<longrightarrow> given_back os w w') \<and>
    (is_panic x \<longrightarrow> temp_files w \<subset> temp_files w' \<and> mappings w \<subset> mappings w')"
proof (cases "newFileBackedMmapNodes os (int_of_uint64 n) dir w")
  case (Pair w1 y)
  show ?thesis
  proof (cases y)
    case (Ok nm)
    obtain nodes m where nm: "nm = (nodes, m)" by fastforce
    have h: "holds m w w1" using newFileBackedMmapNodes_Ok [OF os] Pair Ok nm by blast
    let ?l = "load_seq (load_mapped_nodes n nodes) (load_fst deserializeConflictingNodes)"
    obtain r2 s2 z where l': "?l (st\<lparr>closer := Some m\<rparr>, w1) r = (r2, s2, z)"
      by (rule prod_cases3)
    obtain st2 w2 where "s2 = (st2, w2)" by (rule prod.exhaust)
    with l' have l: "?l (st\<lparr>closer := Some m\<rparr>, w1) r = (r2, (st2, w2), z)" by simp
    have fr: "closer st2 = Some m" "w2 = w1"
      using l by (auto simp: load_seq_def load_mapped_nodes_def load_fst_def
          dest!: deserializeConflictingNodes_closer split: prod.splits outcome.splits)
    have eq: "closing os ?l (st\<lparr>closer := Some m\<rparr>, w1) r = (r', (st', w'), x)"
      using assms(2) Pair Ok nm by (simp add: load_mapping_def)
    show ?thesis
    proof (cases z)
      case (Fail e)
      have "Close os (Some st2) w1 = (leftover os m w, Some (st2\<lparr>closer := Some (m\<lparr>data := None, once := True\<rparr>)\<rparr>),
          case answer_munmap os (the (data m)) of None \<Rightarrow> Ok () | Some e \<Rightarrow> Fail (Wrap ''munmap failed: %w'' [e]))"
        using fr(1) store_Close_holds [OF h, of os] by (simp add: Close_def)
      then show ?thesis using eq l fr(2) Fail given_back_leftover by (auto simp: closing_def)
    next
      case (Panic p)
      then show ?thesis using eq l fr(2) holds_grows [OF h] by (auto simp: closing_def)
    qed (use eq l in \<open>auto simp: closing_def\<close>)
  next
    case (Fail e')
    then show ?thesis
      using assms(2) Pair newFileBackedMmapNodes_Fail [OF os] given_back_only_file
      by (fastforce simp: load_mapping_def)
  next
    case (Panic p)
    then show ?thesis
      using assms(2) Pair newFileBackedMmapNodes_Panic [OF os] by (fastforce simp: load_mapping_def)
  qed
qed

lemma load_header_no_panic: "\<not> is_panic (snd (snd (load_header st r)))"
  by (auto simp: load_header_def load_root_def load_bind_def load_seq_def load_set_def read_uint64_def dmap_def
      read_full_def)

lemma load_mapped_subtree_leaves:
  assumes "os_documented os" and "load_mapped_subtree os dir (st, w) r = (r', (st', w'), x)"
  shows "(is_fail x \<longrightarrow> given_back os w w') \<and>
    (is_panic x \<longrightarrow> temp_files w \<subset> temp_files w' \<and> mappings w \<subset> mappings w')"
proof -
  obtain r1 st1 y where h: "load_header st r = (r1, st1, y)" by (rule prod_cases3)
  then have y: "\<not> is_panic y" using load_header_no_panic [of st r] by simp
  obtain r2 z where n: "read_uint64 r1 = (r2, z)" by (rule prod.exhaust)
  then have z: "\<not> is_panic z" using primitive_no_panic(2) [of r1] by simp
  have w: "given_back os w w" by (simp add: given_back_def)
  show ?thesis
  proof (cases y)
    case ok: (Ok u)
    show ?thesis
    proof (cases z)
      case (Ok k)
      let ?s = "st1\<lparr>treeSize := int_of_uint64 k, Height := ceil_log2 (uint k)\<rparr>"
      have "load_mapping os dir k (?s, w) r2 = (r', (st', w'), x)"
        using assms(2) h n ok Ok
        by (simp add: load_mapped_subtree_def load_seq_def load_fst_def load_bind_def load_set_def)
      with load_mapping_leaves [OF assms(1)] show ?thesis by blast
    qed (use assms(2) h n ok z w in
        \<open>auto simp: load_mapped_subtree_def load_seq_def load_fst_def load_bind_def\<close>)
  qed (use assms(2) h y w in \<open>auto simp: load_mapped_subtree_def load_seq_def load_fst_def\<close>)
qed

text \<open>A cut anywhere is an error, whether the system makes the mapping or not.\<close>

lemma truncated_mapping:
  assumes "os_documented os" and "fits st" and "strict_prefix (rdata r)
    (concat (map encode_node (node_list st)) @ put_uint64 (of_nat (length (elems (ConflictingNodes st)))) @
      concat (map hash_bytes (elems (ConflictingNodes st))))"
  shows "is_fail (snd (snd (load_mapping os dir (of_nat (length (node_list st))) (s, w) r)))"
proof -
  let ?n = "length (node_list st)"
  note b = fits_bounds [OF assms(2), unfolded slice_len_def]
  have u: "int_of_uint64 (of_nat ?n) = int ?n" using b(1) by (rule int_of_uint64_of_nat)
  obtain w1 x where new: "newFileBackedMmapNodes os (int ?n) dir w = (w1, x)" by (rule prod.exhaust)
  show ?thesis
  proof (cases x)
    case (Ok nm)
    obtain nodes m where nm: "nm = (nodes, m)" by fastforce
    have new': "newFileBackedMmapNodes os (int ?n) dir w = (w1, Ok (nodes, m))" using new Ok nm by simp
    from newFileBackedMmapNodes_Ok [OF assms(1) new'] have "nodes = Slice [] (replicate ?n zero_node)"
      by simp
    with new' have "newFileBackedMmapNodes os (int ?n) dir w =
        (w1, Ok (Slice [] (replicate ?n zero_node), m))" by simp
    from loadsD(2) [OF loads_mapping [OF this b(1,4)] assms(3)] show ?thesis .
  next
    case (Fail e)
    with new u show ?thesis by (simp add: load_mapping_def)
  next
    case (Panic p)
    with newFileBackedMmapNodes_Panic [OF assms(1)] new have "2 ^ 64 \<le> int ?n * nodeSize" by blast
    with b(3) show ?thesis by (simp add: max_alloc_def nodeSize_def)
  qed
qed

lemma truncated_mapped_subtree:
  assumes "os_documented os" and "fits st" and "strict_prefix (rdata r) (wire root st)"
  shows "is_fail (snd (snd (load_mapped_subtree os dir (s, w) r)))"
proof -
  let ?A = "hash_bytes root @ put_uint64 (Fees st) @ put_uint64 (SizeInBytes st)"
  let ?n = "of_nat (length (node_list st)) :: uint64"
  let ?C = "concat (map encode_node (node_list st)) @ put_uint64 (of_nat (length (elems (ConflictingNodes st)))) @
      concat (map hash_bytes (elems (ConflictingNodes st)))"
  have "strict_prefix (rdata r) (?A @ put_uint64 ?n @ ?C)" using assms(3) by (simp add: wire_def slice_len_def)
  then show ?thesis
  proof (cases rule: strict_prefix_append_cases)
    case 1
    obtain r1 s1 x where h: "load_header s r = (r1, s1, x)" by (rule prod_cases3)
    with loadsD(2) [OF loads_header 1, of s] have "is_fail x" by simp
    with h show ?thesis
      by (auto simp: load_mapped_subtree_def load_seq_def load_fst_def is_fail_iff)
  next
    case (2 q)
    let ?st1 = "s\<lparr>rootHash := Some root, Fees := Fees st, SizeInBytes := SizeInBytes st\<rparr>"
    note h = loadsD(1) [OF loads_header, of r root "Fees st" "SizeInBytes st" q s]
    then have run: "load_mapped_subtree os dir (s, w) r =
        load_bind ''unable to read number of leaves: %w'' read_uint64 (\<lambda>numLeaves.
          load_seq (load_set (\<lambda>(st, w). (st\<lparr>treeSize := int_of_uint64 numLeaves,
            Height := ceil_log2 (uint numLeaves)\<rparr>, w))) (load_mapping os dir numLeaves)) (?st1, w) (r\<lparr>rdata := q\<rparr>)"
      using 2(1) by (simp add: load_mapped_subtree_def load_seq_def load_fst_def)
    from 2(2) show ?thesis
    proof (cases rule: strict_prefix_append_cases)
      case 1
      then show ?thesis
        using uint64_codec.dec_short [where x = ?n and r = "r\<lparr>rdata := q\<rparr>"] by (auto simp: run load_bind_def)
    next
      case (2 t)
      have "read_uint64 (r\<lparr>rdata := q\<rparr>) = (r\<lparr>rdata := t\<rparr>, Ok ?n)"
        using uint64_codec.dec_enc [where x = ?n and r = "r\<lparr>rdata := q\<rparr>" and rest = t] 2(1) by simp
      moreover have "is_fail (snd (snd (load_mapping os dir ?n s' (r\<lparr>rdata := t\<rparr>))))" for s'
        using truncated_mapping [OF assms(1,2), of "r\<lparr>rdata := t\<rparr>" dir "fst s'" "snd s'"] 2(2) by simp
      ultimately show ?thesis by (simp add: run load_bind_def load_seq_def load_set_def)
    qed
  qed
qed

text \<open>The readers of a part: the one of the conflicting nodes reads to the end, the one of the nodes does
  not look at what comes behind them.\<close>

lemma truncated_conflicting:
  assumes "fits st" and "Uint64ToInt (of_nat (Length st)) = Ok (int (Length st))"
    and "strict_prefix (rdata r) (wire root st)"
  shows "is_fail (snd (read_conflicting Uint64ToInt r))"
proof -
  let ?A = "hash_bytes root @ put_uint64 (Fees st) @ put_uint64 (SizeInBytes st)"
  let ?n = "of_nat (Length st) :: uint64" and ?N = "concat (map encode_node (node_list st))"
  let ?hs = "elems (ConflictingNodes st)"
  let ?m = "of_nat (length ?hs) :: uint64"
  note b = fits_bounds [OF assms(1), unfolded slice_len_def]
  have u: "uint ?m = int (length ?hs)" "unat ?m = length ?hs"
    using b(2) uint_of_nat_small unat_uint64_of_nat by simp_all
  have sz: "wrap64 (48 * int (Length st)) = int (48 * length (node_list st))"
    using b(3) by (simp add: wrap64_id max_alloc_def nodeSize_def Length_def slice_len_def)
  have make: "make_slice 32 (0 :: hash) (int (length ?hs)) (int (length ?hs)) =
      Ok (Slice (replicate (length ?hs) 0) [])"
    using b(4) by (simp add: make_slice_def)
  have short: "is_fail (snd (read_uint64 r'))" if "length (rdata r') < 8" for r'
    using read_full_short [OF that] by (auto simp: read_uint64_def dmap_def)
  have "strict_prefix (rdata r) (?A @ put_uint64 ?n @ ?N @ put_uint64 ?m @ concat (map hash_bytes ?hs))"
    using assms(3) by (simp add: wire_def slice_len_def Length_def)
  then show ?thesis
  proof (cases rule: strict_prefix_append_cases)
    case 1
    then have "length (rdata r) \<le> 48" using prefix_length_less [OF 1] by simp
    then have "length (rdata (discard 48 r)) < 8" by (simp add: discard_def)
    from short [OF this] show ?thesis
      by (auto simp: read_conflicting_def dbind_def dwrap_def is_fail_iff split: prod.split)
  next
    case (2 q)
    have d1: "discard 48 r = r\<lparr>rdata := q\<rparr>" using discard_prefix [OF 2(1), of 48] by simp
    from 2(2) show ?thesis
    proof (cases rule: strict_prefix_append_cases)
      case 1
      then have "length (rdata (discard 48 r)) < 8" using d1 prefix_length_less [OF 1] by simp
      from short [OF this] show ?thesis
        by (auto simp: read_conflicting_def dbind_def dwrap_def is_fail_iff split: prod.split)
    next
      case (2 t)
      have d2: "read_uint64 (r\<lparr>rdata := q\<rparr>) = (r\<lparr>rdata := t\<rparr>, Ok ?n)"
        using uint64_codec.dec_enc [where x = ?n and r = "r\<lparr>rdata := q\<rparr>" and rest = t] 2(1) by simp
      let ?r3 = "discard (int (48 * length (node_list st))) (r\<lparr>rdata := t\<rparr>)"
      have run: "read_conflicting Uint64ToInt r =
          dbind (dwrap ''unable to read number of conflicting nodes: %w'' read_uint64) (\<lambda>n r2.
             case make_slice 32 0 (uint n) (uint n) of
               Fail e \<Rightarrow> (r2, Fail e)
             | Panic p \<Rightarrow> (r2, Panic p)
             | Ok hs \<Rightarrow>
                 (case fill_hashes (unat n) 0 (elems hs) r2 of
                    (r3, conflictingNodes, Ok _) \<Rightarrow> (r3, Ok conflictingNodes)
                  | (r3, _, Fail e) \<Rightarrow> (r3, Fail (Wrap ''unable to read conflicting node: %w'' [e]))
                  | (r3, _, Panic p) \<Rightarrow> (r3, Panic p))) ?r3"
        using d1 d2 sz by (simp add: read_conflicting_def dbind_Ok dwrap_Ok assms(2))
      from 2(2) show ?thesis
      proof (cases rule: strict_prefix_append_cases)
        case 1
        have "length ?N = 48 * length (node_list st)" using node_codec.length_enc_list by simp
        then have "length (rdata ?r3) < 8" using prefix_length_less [OF 1] by (simp add: discard_def nat_mult_distrib)
        from short [OF this] show ?thesis
          unfolding run by (auto simp: dbind_def dwrap_def is_fail_iff split: prod.split)
      next
        case (2 v)
        have d3: "?r3 = r\<lparr>rdata := v\<rparr>"
          using node_codec.discard_enc_list [of "node_list st" "r\<lparr>rdata := t\<rparr>" v] 2(1) by simp
        from 2(2) show ?thesis
        proof (cases rule: strict_prefix_append_cases)
          case 1
          then have "length (rdata ?r3) < 8" using prefix_length_less [OF 1] d3 by simp
          from short [OF this] show ?thesis
            unfolding run by (auto simp: dbind_def dwrap_def is_fail_iff split: prod.split)
        next
          case (2 y)
          have d4: "read_uint64 (r\<lparr>rdata := v\<rparr>) = (r\<lparr>rdata := y\<rparr>, Ok ?m)"
            using uint64_codec.dec_enc [where x = ?m and r = "r\<lparr>rdata := v\<rparr>" and rest = y] 2(1) by simp
          obtain r' arr e where "fill_array read_hash (length ?hs) 0 (replicate (length ?hs) 0) (r\<lparr>rdata := y\<rparr>) =
              (r', arr, Fail e)"
            using hash_codec.fill_array_short [of ?hs "r\<lparr>rdata := y\<rparr>" 0 "replicate (length ?hs) 0"] 2(2) by auto
          from fill_hashes_fill_array [OF this] obtain arr2 where
            "fill_hashes (length ?hs) 0 (replicate (length ?hs) 0) (r\<lparr>rdata := y\<rparr>) = (r', arr2, Fail e)" by auto
          then show ?thesis
            unfolding run d3 using d4 make by (simp add: dbind_Ok dwrap_Ok u)
        qed
      qed
    qed
  qed
qed

section \<open>The format as a codec\<close>

type_synonym subtree_content = "hash \<times> uint64 \<times> uint64 \<times> node list \<times> hash list"

definition content :: "subtree \<Rightarrow> subtree_content" where
  "content st = (the (rootHash st), Fees st, SizeInBytes st, node_list st, elems (ConflictingNodes st))"

definition of_content :: "subtree_content \<Rightarrow> subtree" where
  "of_content = (\<lambda>(root, fees, sz, ns, hs). zero_subtree\<lparr>rootHash := Some root, Fees := fees,
     SizeInBytes := sz, Nodes := Slice ns [], ConflictingNodes := Slice hs []\<rparr>)"

definition encode_content :: "subtree_content \<Rightarrow> byte list" where
  "encode_content c = wire (fst c) (of_content c)"

definition read_content :: "subtree_content decoder" where
  "read_content r = (case load_subtree None zero_subtree r of (r', st, x) \<Rightarrow> (r', omap (\<lambda>_. content st) x))"

lemma same_content_content:
  "same_content root st st' \<Longrightarrow> content st' = (root, Fees st, SizeInBytes st, node_list st,
    elems (ConflictingNodes st))"
  by (simp add: same_content_def content_def)

interpretation subtree_codec: codec encode_content read_content "\<lambda>c. fits (of_content c)"
proof
  fix c and r :: reader
  assume f: "fits (of_content c)"
  obtain st' where c: "same_content (fst c) (of_content c) st'"
    and l: "loads (load_subtree None) (wire (fst c) (of_content c)) zero_subtree st'"
    using loads_subtree [OF f, of "fst c" zero_subtree None] by blast
  have "content st' = c"
    using same_content_content [OF c] by (simp add: of_content_def split: prod.split)
  then show "rdata r = encode_content c @ rest \<Longrightarrow> read_content r = (r\<lparr>rdata := rest\<rparr>, Ok c)" for rest
    using loadsD(1) [OF l] by (simp add: encode_content_def read_content_def)
  show "strict_prefix (rdata r) (encode_content c) \<Longrightarrow> \<exists>r' e. read_content r = (r', Fail e)"
    using loadsD(2) [OF l, of r]
    by (auto simp: encode_content_def read_content_def is_fail_iff
        split: prod.split)
qed

lemma Serialize_Ok_wire:
  assumes "Serialize sha st = (st', Ok b)"
  shows "\<exists>root. b = wire root st"
proof -
  obtain s x where r: "root_hash sha st = (s, x)" by fastforce
  with assms show ?thesis
    using root_hash_frame [OF r] by (auto simp: Serialize_def wire_def split: outcome.splits option.splits)
qed

lemma Serialize_provable:
  "provable sha st \<Longrightarrow>
    Serialize sha st = (st\<lparr>rootHash := Some (root_of sha st)\<rparr>, Ok (wire (root_of sha st) st))"
  by (simp add: Serialize_def root_hash_provable wire_def)

lemma wire_content:
  "wire root st = encode_content (root, Fees st, SizeInBytes st, node_list st, elems (ConflictingNodes st))"
  by (simp add: encode_content_def of_content_def wire_def slice_len_def)

lemma fits_content:
  "fits (of_content (root, Fees st, SizeInBytes st, node_list st, elems (ConflictingNodes st))) = fits st"
  by (simp add: of_content_def fits_def slice_len_def)

lemma Deserialize_wire:
  assumes "fits st"
  obtains st' where "Deserialize (wire root st) st0 = (st', Ok ())" and "same_content root st st'"
    and "nodeIndex st' = nodeIndex st0"
proof -
  obtain st' where c: "same_content root st st'" "nodeIndex st' = nodeIndex st0"
    and l: "loads (load_subtree None) (wire root st) st0 st'"
    using loads_subtree [OF assms, of root st0 None] by blast
  from loadsD(1) [OF l, of "bytes_reader (wire root st)" "[]"] c that show thesis
    by (simp add: Deserialize_def recovering_def DeserializeFromReader_def DeserializeFromReaderWithAllocator_def
        buffering_def)
qed

lemma NewSubtreeFromBytes_wire:
  assumes "fits st"
  obtains st' where "NewSubtreeFromBytes (wire root st) = Ok (Some st')" and "same_content root st st'"
    and "nodeIndex st' = None"
  using Deserialize_wire [OF assms, of root zero_subtree]
  by (metis (no_types, lifting) NewSubtreeFromBytes_def case_prod_conv outcome.simps(10) subtree.select_convs(9)
      zero_subtree_def)

lemma wire_not_Nil: "wire root st \<noteq> []"
proof
  assume "wire root st = []"
  then have "length (hash_bytes root) = 0" by (simp add: wire_def)
  then show False by simp
qed

text \<open>Read through the buffer, the bytes of a subtree are gone from the caller's reader, and less than
  the buffer holds of what follows.\<close>

lemma buffered_wire:
  assumes "\<And>r rest. rdata r = wire root st @ rest \<Longrightarrow> f r = (r\<lparr>rdata := rest\<rparr>, x)"
  obtains n where "n < 32768" and "c = Buffered \<longrightarrow> n = 0"
    and "buffering c f (bytes_reader (wire root st @ rest)) = (bytes_reader (drop n rest), x)"
proof -
  let ?r = "bytes_reader (wire root st @ rest)"
  have r: "rdata ?r = wire root st @ rest" by simp
  obtain n where "n < 32768" "c = Buffered \<longrightarrow> n = 0"
    "behind c ?r (?r\<lparr>rdata := rest\<rparr>) = ?r\<lparr>rdata := drop n rest\<rparr>"
    using behind_rest [OF r wire_not_Nil] by metis
  moreover have "buffering c f ?r = (behind c ?r (?r\<lparr>rdata := rest\<rparr>), x)"
    by (rule buffering_eq) (rule assms [OF r])
  ultimately show thesis using that by (simp add: bytes_reader_def)
qed

section \<open>Properties\<close>

lemma indexed_subtree_fits: "fits indexed_subtree" "node_list indexed_subtree \<noteq> []" "Length indexed_subtree = 3"
  by (simp_all add: fits_def indexed_subtree_def zero_subtree_def allocatable_def max_alloc_def slice_len_def
      Length_def)

lemma indexed_subtree_cache: "cache_valid mix_sha indexed_subtree"
  by (simp add: cache_valid_def indexed_subtree_def zero_subtree_def)

text \<open>C6: What \<open>Serialize\<close> writes, \<open>DeserializeFromReaderWithAllocator\<close> reads back into any subtree and
  any storage of the caller, whatever the storage held: the same root hash, fees, size, nodes and
  conflicting nodes; so does \<open>NewSubtreeFromBytes\<close>.  The caller's reader has then given the bytes of
  the subtree and, unless it is itself a large enough \<open>bufio.Reader\<close>, up to the 32 KB of the buffer of
  the bytes that follow.\<close>

theorem serialize_roundtrip:
  assumes "cache_valid sha st" and "fits st" and "node_list st \<noteq> []"
  shows "\<exists>root b. Serialize sha st = (st\<lparr>rootHash := Some root\<rparr>, Ok b) \<and>
    snd (RootHash sha (Some st)) = Ok (Some root) \<and>
    (\<forall>c alloc st0 rest. \<exists>st' n. same_content root st st' \<and> n < 32768 \<and> (c = Buffered \<longrightarrow> n = 0) \<and>
      DeserializeFromReaderWithAllocator c alloc st0 (bytes_reader (b @ rest)) =
        (bytes_reader (drop n rest), st', Ok ())) \<and>
    (\<exists>st'. NewSubtreeFromBytes b = Ok (Some st') \<and> same_content root st st')"
proof -
  have "allocatable (node_list st)" using assms(2) by (simp add: fits_def)
  then obtain root where root: "Serialize sha st = (st\<lparr>rootHash := Some root\<rparr>, Ok (wire root st))"
    "snd (RootHash sha (Some st)) = Ok (Some root)"
    using assms(1,3) Serialize_wire by blast
  have "\<exists>st' n. same_content root st st' \<and> n < 32768 \<and> (c = Buffered \<longrightarrow> n = 0) \<and>
      DeserializeFromReaderWithAllocator c alloc st0 (bytes_reader (wire root st @ rest)) =
        (bytes_reader (drop n rest), st', Ok ())" for c alloc st0 rest
  proof -
    obtain st' where "same_content root st st'" and l: "loads (load_subtree alloc) (wire root st) st0 st'"
      using loads_subtree [OF assms(2)] by blast
    with buffered_wire [OF loadsD(1) [OF l]] show ?thesis
      unfolding DeserializeFromReaderWithAllocator_def by metis
  qed
  moreover obtain st' where "NewSubtreeFromBytes (wire root st) = Ok (Some st')" "same_content root st st'"
    using NewSubtreeFromBytes_wire [OF assms(2)] by metis
  ultimately show ?thesis using root by blast
qed

theorem serialize_roundtrip_witness:
  "\<exists>root b st'. snd (Serialize mix_sha indexed_subtree) = Ok b \<and>
    NewSubtreeFromBytes b = Ok (Some st') \<and> same_content root indexed_subtree st'"
proof -
  from serialize_roundtrip [OF indexed_subtree_cache indexed_subtree_fits(1,2)]
  obtain root b st' where "Serialize mix_sha indexed_subtree = (indexed_subtree\<lparr>rootHash := Some root\<rparr>, Ok b)"
    "NewSubtreeFromBytes b = Ok (Some st')" "same_content root indexed_subtree st'" by blast
  then show ?thesis by auto
qed

text \<open>C21: A serialized subtree that is cut short anywhere is refused with an error by every reader of a
  whole subtree, on the heap or into mapped memory, and by the reader of the conflicting nodes.
  \<open>DeserializeNodesFromReader\<close>, which reads no further than the nodes, refuses it when the cut is in
  front of their end and otherwise returns their hashes.\<close>

theorem truncated_subtree_refused:
  assumes "Serialize sha st = (st1, Ok b)" and "fits st" and "strict_prefix p b"
  shows "is_fail (NewSubtreeFromBytes p) \<and>
    is_fail (snd (snd (DeserializeFromReaderWithAllocator c alloc st0 (bytes_reader p)))) \<and>
    is_fail (snd (NewSubtreeFromReader c (bytes_reader p))) \<and>
    (os_documented os \<longrightarrow> is_fail (snd (snd (NewSubtreeFromReaderMmap c os dir (bytes_reader p) w)))) \<and>
    (Uint64ToInt (of_nat (Length st)) = Ok (int (Length st)) \<longrightarrow>
      is_fail (snd (DeserializeSubtreeConflictingFromReader c Uint64ToInt (bytes_reader p)))) \<and>
    (if length p < 56 + 48 * Length st then is_fail (snd (DeserializeNodesFromReader c (bytes_reader p)))
     else snd (DeserializeNodesFromReader c (bytes_reader p)) = SerializeNodes st)"
proof -
  obtain root where "b = wire root st" using Serialize_Ok_wire [OF assms(1)] by blast
  with assms(3) have p: "strict_prefix (rdata (bytes_reader p)) (wire root st)" by simp
  have D: "is_fail (snd (snd (load_subtree a s (bytes_reader p))))" for a s
  proof -
    obtain s' where "loads (load_subtree a) (wire root st) s s'" using loads_subtree [OF assms(2)] by blast
    from loadsD(2) [OF this p] show ?thesis .
  qed
  from D [of None zero_subtree] have new: "is_fail (NewSubtreeFromBytes p)"
    "is_fail (snd (NewSubtreeFromReader c (bytes_reader p)))"
    by (auto simp: NewSubtreeFromBytes_def NewSubtreeFromReader_def Deserialize_def recovering_def
        DeserializeFromReader_def DeserializeFromReaderWithAllocator_def buffering_def is_fail_iff
        split: prod.split)
  have mapped: "is_fail (snd (snd (NewSubtreeFromReaderMmap c os dir (bytes_reader p) w)))"
    if "os_documented os"
    using truncated_mapped_subtree [OF that assms(2) p, of dir zero_subtree w]
    by (auto simp: NewSubtreeFromReaderMmap_def deserializeFromReaderMmap_def buffering_def is_fail_iff
        split: prod.split)
  have conf: "is_fail (snd (DeserializeSubtreeConflictingFromReader c Uint64ToInt (bytes_reader p)))"
    if "Uint64ToInt (of_nat (Length st)) = Ok (int (Length st))"
    using truncated_conflicting [where Uint64ToInt = Uint64ToInt, OF assms(2) that p]
    by (auto simp: DeserializeSubtreeConflictingFromReader_def buffering_def is_fail_iff split: prod.split)
  from truncated_node_hashes [OF assms(2) p] new mapped conf D [of alloc st0] show ?thesis
    by (simp add: DeserializeNodesFromReader_def DeserializeFromReaderWithAllocator_def)
qed

theorem truncated_subtree_refused_witness:
  "\<exists>b. snd (Serialize mix_sha indexed_subtree) = Ok b \<and> is_fail (NewSubtreeFromBytes (take 100 b)) \<and>
    is_fail (snd (snd (NewSubtreeFromReaderMmap Buffered kind_os ''d'' (bytes_reader (take 100 b)) empty_os_state))) \<and>
    is_fail (snd (DeserializeSubtreeConflictingFromReader Buffered (\<lambda>w. Ok (uint w)) (bytes_reader (take 100 b)))) \<and>
    is_fail (snd (DeserializeNodesFromReader Buffered (bytes_reader (take 100 b))))"
proof -
  obtain root where s: "Serialize mix_sha indexed_subtree =
      (indexed_subtree\<lparr>rootHash := Some root\<rparr>, Ok (wire root indexed_subtree))"
    using Serialize_wire [OF indexed_subtree_cache] indexed_subtree_fits by (auto simp: fits_def)
  let ?b = "wire root indexed_subtree"
  have "length ?b \<ge> 200"
    by (simp add: wire_def indexed_subtree_def encode_node_def)
  then have "length (take 100 ?b) < length ?b" by simp
  then have "strict_prefix (take 100 ?b) ?b"
    by (metis order_less_irrefl strict_prefix_def take_is_prefix)
  from truncated_subtree_refused [OF s indexed_subtree_fits(1) this, of Buffered None zero_subtree kind_os "''d''"
      empty_os_state "\<lambda>w. Ok (uint w)"] s os_documented_examples(1)
  show ?thesis by (simp add: indexed_subtree_fits(3))
qed

text \<open>C22: No input whatsoever makes the readers of a subtree panic: \<open>Deserialize\<close>, the readers with
  and without an allocator, the constructors and the reader of the conflicting nodes turn every
  failure into an error, and the constructors never return nil without an error.\<close>

theorem readers_never_panic:
  "\<not> is_panic (snd (snd (DeserializeFromReaderWithAllocator c alloc st r))) \<and>
   \<not> is_panic (snd (Deserialize b st)) \<and>
   \<not> is_panic (NewSubtreeFromBytes b) \<and> NewSubtreeFromBytes b \<noteq> Ok None \<and>
   \<not> is_panic (snd (NewSubtreeFromReader c r)) \<and> snd (NewSubtreeFromReader c r) \<noteq> Ok None \<and>
   \<not> is_panic (snd (DeserializeSubtreeConflictingFromReader c Uint64ToInt r))"
proof -
  have 1: "\<not> is_panic (snd (snd (DeserializeFromReaderWithAllocator c a s r')))" for c a s r'
    using recovering_no_panic by (simp add: DeserializeFromReaderWithAllocator_def load_subtree_def)
  have 2: "\<not> is_panic (snd (Deserialize b s))" for s
    unfolding Deserialize_def by (rule recovering_no_panic)
  have "\<not> is_panic (NewSubtreeFromBytes b) \<and> NewSubtreeFromBytes b \<noteq> Ok None"
    using 2 [of zero_subtree] by (auto simp: NewSubtreeFromBytes_def split: prod.split outcome.split)
  moreover have "\<not> is_panic (snd (NewSubtreeFromReader c r)) \<and> snd (NewSubtreeFromReader c r) \<noteq> Ok None"
    using 1 [of c None zero_subtree r]
    by (auto simp: NewSubtreeFromReader_def DeserializeFromReader_def split: prod.split outcome.split)
  moreover have "\<not> is_panic (snd (DeserializeSubtreeConflictingFromReader c Uint64ToInt r))"
    by (auto simp: DeserializeSubtreeConflictingFromReader_def split: prod.split outcome.split)
  ultimately show ?thesis using 1 2 by blast
qed

text \<open>C24: The readers that extract a part agree with the writer: \<open>DeserializeNodesFromReader\<close> returns
  what \<open>SerializeNodes\<close> writes, and \<open>DeserializeSubtreeConflictingFromReader\<close> the conflicting nodes.\<close>

theorem partial_readers_agree:
  assumes "Serialize sha st = (st1, Ok b)" and "fits st"
    and "Uint64ToInt (of_nat (Length st)) = Ok (int (Length st))"
  shows "snd (DeserializeNodesFromReader c (bytes_reader (b @ rest))) = SerializeNodes st \<and>
    snd (DeserializeSubtreeConflictingFromReader c Uint64ToInt (bytes_reader (b @ rest))) =
      Ok (elems (ConflictingNodes st))"
proof -
  obtain root where b: "rdata (bytes_reader (b @ rest)) = wire root st @ rest"
    using Serialize_Ok_wire [OF assms(1)] by auto
  show ?thesis
    using read_node_hashes_wire [OF b assms(2)] read_conflicting_wire [OF b assms(2), of Uint64ToInt] assms(3)
    by (simp add: DeserializeNodesFromReader_def DeserializeSubtreeConflictingFromReader_def buffering_def)
qed

theorem partial_readers_agree_witness:
  "\<exists>b. snd (Serialize mix_sha indexed_subtree) = Ok b \<and>
    snd (DeserializeNodesFromReader Buffered (bytes_reader (b @ [1, 2]))) = SerializeNodes indexed_subtree"
proof -
  obtain root where s: "Serialize mix_sha indexed_subtree =
      (indexed_subtree\<lparr>rootHash := Some root\<rparr>, Ok (wire root indexed_subtree))"
    using Serialize_wire [OF indexed_subtree_cache] indexed_subtree_fits by (auto simp: fits_def)
  from partial_readers_agree [OF s indexed_subtree_fits(1), of "\<lambda>w. Ok (uint w)" Buffered "[1, 2]"] s show ?thesis
    by (simp add: indexed_subtree_fits(3))
qed

text \<open>Two subtrees whose serializations agree, even when followed by other bytes, have the same
  root hash, fees, size, nodes and conflicting nodes.\<close>

theorem Serialize_determines_content:
  assumes "Serialize sha st = (st1, Ok b)" and "Serialize sha' s = (s1, Ok c)" and "fits st" and "fits s"
    and "b @ x = c @ y"
  shows "b = c \<and> Fees st = Fees s \<and> SizeInBytes st = SizeInBytes s \<and> node_list st = node_list s \<and>
    elems (ConflictingNodes st) = elems (ConflictingNodes s)"
proof -
  obtain root root' where "b = wire root st" "c = wire root' s"
    using Serialize_Ok_wire [OF assms(1)] Serialize_Ok_wire [OF assms(2)] by blast
  with subtree_codec.enc_inj [of "(root, Fees st, SizeInBytes st, node_list st, elems (ConflictingNodes st))"
      "(root', Fees s, SizeInBytes s, node_list s, elems (ConflictingNodes s))" x y] assms(3-5)
  show ?thesis by (simp add: wire_content fits_content)
qed

theorem Serialize_determines_content_witness:
  "\<exists>b. snd (Serialize mix_sha indexed_subtree) = Ok b \<and>
    snd (Serialize mix_sha (Duplicate indexed_subtree)) = Ok b \<and>
    node_list indexed_subtree = node_list (Duplicate indexed_subtree)"
proof -
  let ?d = "Duplicate indexed_subtree"
  have d: "provable mix_sha ?d" "hashes ?d = hashes indexed_subtree" "fits ?d"
    "wire r ?d = wire r indexed_subtree" for r
    using indexed_subtree_provable indexed_subtree_fits(1)
    by (simp_all add: provable_def Duplicate_def cache_valid_def fits_def slice_len_def wire_def)
  note s = Serialize_provable [OF indexed_subtree_provable]
  note t = Serialize_provable [OF d(1), unfolded d(2)]
  from Serialize_determines_content [OF s t indexed_subtree_fits(1) d(3), of "[]" "[]"] s t
  show ?thesis by (simp add: d(4))
qed

text \<open>The root hash in the bytes is taken over unchecked: whatever 32 bytes stand in front of a
  well-formed subtree, it is read without an error and \<open>RootHash\<close> then returns those bytes.\<close>

theorem root_hash_not_verified:
  assumes "fits st"
  shows "\<exists>st'. NewSubtreeFromBytes (wire root st) = Ok (Some st') \<and> node_list st' = node_list st \<and>
    snd (RootHash sha (Some st')) = Ok (Some root)"
proof -
  obtain st' where "NewSubtreeFromBytes (wire root st) = Ok (Some st')" "same_content root st st'"
    using NewSubtreeFromBytes_wire [OF assms] by metis
  then show ?thesis by (intro exI [of _ st']) (simp add: same_content_def RootHash_def)
qed

theorem root_hash_not_verified_witness:
  "\<exists>st'. NewSubtreeFromBytes (wire 99 indexed_subtree) = Ok (Some st') \<and>
    snd (RootHash mix_sha (Some st')) = Ok (Some 99)"
  using root_hash_not_verified [OF indexed_subtree_fits(1), of 99 mix_sha] by blast

text \<open>C23: The reader into mapped memory reads the same content, with the same read-ahead; its subtree
  holds the file and the mapping it made, and \<open>Close\<close> gives them back but for what the system refuses
  to take.  When the reader returns an error instead, on whatever input, everything it made is given
  back in the same sense; when it panics, its file and its mapping stay.\<close>

theorem mapped_reader_agrees:
  assumes "os_documented os" and "fits st"
    and "newFileBackedMmapNodes os (int (Length st)) dir w = (w1, Ok (nodes, m))"
  shows "(\<exists>st' n. same_content root st st' \<and> IsMmapBacked (Some st') \<and> n < 32768 \<and> (c = Buffered \<longrightarrow> n = 0) \<and>
      NewSubtreeFromReaderMmap c os dir (bytes_reader (wire root st @ rest)) w =
        (bytes_reader (drop n rest), w1, Ok st') \<and>
      Close os (Some st') w1 =
        (leftover os m w, Some (st'\<lparr>closer := Some (m\<lparr>data := None, once := True\<rparr>)\<rparr>),
         case answer_munmap os (the (data m)) of
           None \<Rightarrow> Ok () | Some e \<Rightarrow> Fail (Wrap ''munmap failed: %w'' [e]))) \<and>
    (\<forall>r w r' w' e. NewSubtreeFromReaderMmap c os dir r w = (r', w', Fail e) \<longrightarrow> given_back os w w') \<and>
    (\<forall>r w r' w' k. NewSubtreeFromReaderMmap c os dir r w = (r', w', Panic k) \<longrightarrow>
      temp_files w \<subset> temp_files w' \<and> mappings w \<subset> mappings w')"
proof -
  from newFileBackedMmapNodes_Ok [OF assms(1,3)] have h: "holds m w w1"
    and nodes: "nodes = Slice [] (replicate (Length st) zero_node)" by simp_all
  obtain st' where st': "same_content root st st'" "closer st' = Some m"
    and l: "loads (load_mapped_subtree os dir) (wire root st) (zero_subtree, w) (st', w1)"
    using loads_mapped_subtree [OF assms(2) assms(3) [unfolded nodes]] by blast
  obtain n where n: "n < 32768" "c = Buffered \<longrightarrow> n = 0"
    "buffering c (load_mapped_subtree os dir (zero_subtree, w)) (bytes_reader (wire root st @ rest)) =
      (bytes_reader (drop n rest), (st', w1), Ok ())"
    using buffered_wire [OF loadsD(1) [OF l]] by metis
  have "NewSubtreeFromReaderMmap c os dir (bytes_reader (wire root st @ rest)) w =
      (bytes_reader (drop n rest), w1, Ok st')"
    by (simp add: NewSubtreeFromReaderMmap_def deserializeFromReaderMmap_def n(3))
  moreover have "Close os (Some st') w1 =
      (leftover os m w, Some (st'\<lparr>closer := Some (m\<lparr>data := None, once := True\<rparr>)\<rparr>),
       case answer_munmap os (the (data m)) of None \<Rightarrow> Ok () | Some e \<Rightarrow> Fail (Wrap ''munmap failed: %w'' [e]))"
    using st'(2) store_Close_holds [OF h, of os] by (simp add: Close_def)
  moreover have "(is_fail x \<longrightarrow> given_back os w w') \<and>
      (is_panic x \<longrightarrow> temp_files w \<subset> temp_files w' \<and> mappings w \<subset> mappings w')"
    if "NewSubtreeFromReaderMmap c os dir r w = (r', w', x)" for r w r' w' x
  proof -
    obtain r2 s2 w2 y where run: "load_mapped_subtree os dir (zero_subtree, w) r = (r2, (s2, w2), y)"
      by (metis prod.collapse)
    then have "w' = w2" "is_fail x = is_fail y" "is_panic x = is_panic y"
      using that by (auto simp: NewSubtreeFromReaderMmap_def deserializeFromReaderMmap_def buffering_def run
          split: outcome.splits)
    with load_mapped_subtree_leaves [OF assms(1) run] show ?thesis by simp
  qed
  moreover have "IsMmapBacked (Some st')" using st'(2) by (simp add: IsMmapBacked_def)
  ultimately show ?thesis using st'(1) n(1,2) by (intro conjI exI [of _ st'] exI [of _ n]) (auto 4 0)
qed

theorem mapped_reader_agrees_witness:
  "\<exists>st' w1 n. NewSubtreeFromReaderMmap (Unbuffered length) kind_os ''d''
      (bytes_reader (wire 5 indexed_subtree @ [7])) empty_os_state = (bytes_reader (drop n [7]), w1, Ok st') \<and>
    same_content 5 indexed_subtree st' \<and> mappings w1 = {7} \<and>
    (\<exists>m'. Close kind_os (Some st') w1 = (empty_os_state, m', Ok ()))"
proof -
  obtain w1 nodes m where new: "newFileBackedMmapNodes kind_os 3 ''d'' empty_os_state = (w1, Ok (nodes, m))"
    and w1: "mappings w1 = {7}"
    by (simp add: mmap_defs kind_os_def empty_os_state_def wrap64_def nodeSize_def)
  then have new': "newFileBackedMmapNodes kind_os (int (Length indexed_subtree)) ''d'' empty_os_state =
      (w1, Ok (nodes, m))" by (simp add: indexed_subtree_fits(3))
  have "leftover kind_os m empty_os_state = empty_os_state" "answer_munmap kind_os (the (data m)) = None"
    by (rule leftover_nothing) (simp_all add: kind_os_def)
  with mapped_reader_agrees [OF os_documented_examples(1) indexed_subtree_fits(1) new', of 5 "Unbuffered length"
      "[7]"] w1
  show ?thesis by auto
qed

text \<open>Such a panic happens: it takes a well-formed subtree with one number changed, that of the
  conflicting nodes.\<close>

theorem mapped_reader_leaks:
  assumes "os_documented os" and "fits st" and "2 ^ 43 < k" and "k < 2 ^ 64"
    and "newFileBackedMmapNodes os (int (Length st)) dir w = (w1, Ok (nodes, m))"
  shows "snd (NewSubtreeFromReaderMmap c os dir (bytes_reader (wire_head root fees sz (of_nat (Length st)) @
      concat (map encode_node (node_list st)) @ put_uint64 (of_nat k) @ rest)) w) =
    (w1, Panic MakeSliceLenOutOfRange) \<and> holds m w w1"
proof -
  let ?n = "of_nat (Length st) :: uint64" and ?k = "of_nat k :: uint64"
  let ?N = "concat (map encode_node (node_list st))"
  let ?r = "bytes_reader (wire_head root fees sz ?n @ ?N @ put_uint64 ?k @ rest)"
  let ?s = "zero_subtree\<lparr>rootHash := Some root, Fees := fees, SizeInBytes := sz\<rparr>"
  let ?s1 = "?s\<lparr>treeSize := int (Length st), Height := ceil_log2 (int (Length st)), closer := Some m\<rparr>"
  let ?s2 = "?s1\<lparr>Nodes := Slice (node_list st) []\<rparr>"
  from newFileBackedMmapNodes_Ok [OF assms(1,5)] have h: "holds m w w1"
    and nodes: "nodes = Slice [] (replicate (length (node_list st)) zero_node)"
    by (simp_all add: Length_def slice_len_def)
  have n: "Length st < 2 ^ 63" using fits_bounds(1) [OF assms(2)] by (simp add: Length_def)
  then have u: "int_of_uint64 ?n = int (Length st)" "uint ?n = int (Length st)"
    using int_of_uint64_of_nat uint_of_nat_small by simp_all
  have k: "uint ?k = int k" using assms(4) by (simp add: unsigned_of_nat take_bit_nat_eq_self)
  have 1: "load_header zero_subtree ?r = (bytes_reader (put_uint64 ?n @ ?N @ put_uint64 ?k @ rest), ?s, Ok ())"
    using loadsD(1) [OF loads_header, where r = ?r] by (simp add: wire_head_def bytes_reader_def)
  have 2: "read_uint64 (bytes_reader (put_uint64 ?n @ ?N @ put_uint64 ?k @ rest)) =
      (bytes_reader (?N @ put_uint64 ?k @ rest), Ok ?n)"
    using uint64_codec.dec_enc [where x = ?n] by (simp add: bytes_reader_def)
  have 3: "load_mapped_nodes ?n nodes (?s1, w1) (bytes_reader (?N @ put_uint64 ?k @ rest)) =
      (bytes_reader (put_uint64 ?k @ rest), (?s2, w1), Ok ())"
    using loadsD(1) [OF load_mapped_nodes_wire [OF nodes], where r = "bytes_reader (?N @ put_uint64 ?k @ rest)"] n
    by (simp add: bytes_reader_def Length_def slice_len_def)
  have 4: "read_uint64 (bytes_reader (put_uint64 ?k @ rest)) = (bytes_reader rest, Ok ?k)"
    using uint64_codec.dec_enc [where x = ?k] by (simp add: bytes_reader_def)
  have "make_slice 32 (0 :: hash) (int k) (int k) = Panic MakeSliceLenOutOfRange"
    using assms(3) by (simp add: make_slice_def max_alloc_def)
  then have 5: "deserializeConflictingNodes ?s2 (bytes_reader (put_uint64 ?k @ rest)) =
      (bytes_reader rest, ?s2, Panic MakeSliceLenOutOfRange)"
    using 4 k by (simp add: deserializeConflictingNodes_def load_bind_def load_seq_def load_step_def)
  have "load_mapped_subtree os dir (zero_subtree, w) ?r = (bytes_reader rest, (?s2, w1), Panic MakeSliceLenOutOfRange)"
    using 1 2 3 5 assms(5) u
    by (simp add: load_mapped_subtree_def load_seq_def load_fst_def load_bind_def load_set_def load_mapping_def
        closing_def)
  with h show ?thesis
    by (simp add: NewSubtreeFromReaderMmap_def deserializeFromReaderMmap_def buffering_def)
qed

theorem mapped_reader_leaks_witness:
  "\<exists>w1. snd (NewSubtreeFromReaderMmap Buffered kind_os ''d'' (bytes_reader (wire_head 1 2 3 3 @
      concat (map encode_node (node_list indexed_subtree)) @ put_uint64 (2 ^ 63))) empty_os_state) =
    (w1, Panic MakeSliceLenOutOfRange) \<and> mappings w1 = {7} \<and> temp_files w1 = {''f''}"
proof -
  obtain w1 nodes m where new: "newFileBackedMmapNodes kind_os 3 ''d'' empty_os_state = (w1, Ok (nodes, m))"
    and w1: "mappings w1 = {7}" "temp_files w1 = {''f''}"
    by (simp add: mmap_defs kind_os_def empty_os_state_def wrap64_def nodeSize_def)
  then have new': "newFileBackedMmapNodes kind_os (int (Length indexed_subtree)) ''d'' empty_os_state =
      (w1, Ok (nodes, m))" by (simp add: indexed_subtree_fits(3))
  from mapped_reader_leaks [OF os_documented_examples(1) indexed_subtree_fits(1) _ _ new', of "2 ^ 63" Buffered 1 2 3
      "[]"] w1
  show ?thesis by (simp add: indexed_subtree_fits(3))
qed

text \<open>\<open>DeserializeNodesFromReader\<close> has no recovery: a header alone that announces more hashes than
  can be allocated makes it panic, while the readers of a subtree return an error on every input.\<close>

theorem DeserializeNodesFromReader_panics:
  assumes "2 ^ 43 < n" and "n < 2 ^ 58"
  shows "snd (DeserializeNodesFromReader c (bytes_reader (wire_head root fees sz (of_nat n) @ rest))) =
      Panic MakeSliceLenOutOfRange \<and>
    is_fail (NewSubtreeFromBytes (wire_head root fees sz (of_nat n) @ rest))"
proof -
  let ?r = "bytes_reader (wire_head root fees sz (of_nat n) @ rest)"
  let ?n = "of_nat n :: uint64"
  have n63: "n < 2 ^ 63" using assms(2) by simp
  then have u: "int_of_uint64 ?n = int n" "unat ?n = n" "uint ?n = int n"
    using int_of_uint64_of_nat unat_uint64_of_nat uint_of_nat_small by simp_all
  have head: "rdata ?r = wire_head root fees sz ?n @ rest" by simp
  have "32 * int n < 2 ^ 63" using assms(2) by simp
  then have sz: "wrap64 (32 * int n) = 32 * int n" by (simp add: wrap64_id)
  have "make_slice 1 (0 :: byte) (32 * int n) (32 * int n) = Panic MakeSliceLenOutOfRange"
    using assms(1) by (simp add: make_slice_def max_alloc_def)
  then have nodes: "snd (DeserializeNodesFromReader c ?r) = Panic MakeSliceLenOutOfRange"
    by (simp add: DeserializeNodesFromReader_def read_node_hashes_def read_head [OF head] u sz Let_def
        del: length_wire_head)
  let ?st1 = "zero_subtree\<lparr>rootHash := Some root, Fees := fees, SizeInBytes := sz\<rparr>"
  let ?r1 = "?r\<lparr>rdata := put_uint64 ?n @ rest\<rparr>"
  have h: "load_header zero_subtree ?r = (?r1, ?st1, Ok ())"
    using loadsD(1) [OF loads_header, where r = ?r] by (simp add: wire_head_def)
  have read: "read_uint64 ?r1 = (?r1\<lparr>rdata := rest\<rparr>, Ok ?n)"
    using uint64_codec.dec_enc [where x = ?n and r = ?r1] by simp
  have "make_slice nodeSize zero_node (int n) (int n) = Panic MakeSliceLenOutOfRange"
    using assms(1) by (simp add: make_slice_def max_alloc_def nodeSize_def)
  then have "is_panic (snd (snd (deserializeNodesWithAllocator None ?st1 ?r1)))"
    using read by (simp add: deserializeNodesWithAllocator_def load_bind_def load_seq_def load_set_def
        load_step_def node_storage_def u)
  then obtain r2 st2 p where "deserializeNodesWithAllocator None ?st1 ?r1 = (r2, st2, Panic p)"
    by (metis is_panic_def outcome.exhaust outcome.simps(10,11) prod.collapse)
  then have "is_fail (NewSubtreeFromBytes (wire_head root fees sz ?n @ rest))"
    using h by (simp add: NewSubtreeFromBytes_def Deserialize_def DeserializeFromReader_def
        DeserializeFromReaderWithAllocator_def buffering_def load_subtree_def recovering_def load_seq_def)
  with nodes show ?thesis by simp
qed

theorem DeserializeNodesFromReader_panics_witness:
  "is_panic (snd (DeserializeNodesFromReader Buffered (bytes_reader (wire_head 1 2 3 (2 ^ 50)))))"
  using DeserializeNodesFromReader_panics [of "2 ^ 50" Buffered 1 2 3 "[]"] by simp

end
