(* ===== verification/Subtree_Api.thy ===== *)
theory Subtree_Api
  imports Subtree_Codec Subtree_Ledger
begin

text \<open>
  The subtrees that a program can have, across the parts of \<open>subtree.go\<close>: those it makes, on the heap
  or mapped, those it reads from what another one wrote, and what the calls on them leave behind,
  the readers into a subtree in use and \<open>ReleaseNodes\<close> included.  The bytes read are honest, that is
  written by \<open>Serialize\<close> of such a subtree that has nodes; what other bytes do is said at the end, and in
  \<open>root_hash_not_verified\<close>.  After \<open>Close\<close> a mapped subtree has no nodes that may be touched.
\<close>

section \<open>Reachable subtrees\<close>

text \<open>The calls that a property may have to exclude.\<close>

datatype call = Operates operation | Reads_Into | Releases

definition writes :: "sha256 \<Rightarrow> subtree \<Rightarrow> byte list \<Rightarrow> bool" where
  "writes sha s b = (snd (Serialize sha s) = Ok b \<and> fits s \<and> node_list s \<noteq> [])"

inductive reachable :: "growth \<Rightarrow> sha256 \<Rightarrow> (call \<Rightarrow> bool) \<Rightarrow> subtree \<Rightarrow> bool"
  for grow sha may where
  new: "NewTree height = Ok st \<Longrightarrow> reachable grow sha may st"
| new_mapped: "os_documented os \<Longrightarrow> height \<le> 42 \<Longrightarrow> NewTreeMmap os height dir w = (w', Ok st) \<Longrightarrow>
    reachable grow sha may st"
| new_bytes: "reachable grow sha may s \<Longrightarrow> writes sha s b \<Longrightarrow> NewSubtreeFromBytes b = Ok (Some st) \<Longrightarrow>
    reachable grow sha may st"
| new_reader: "reachable grow sha may s \<Longrightarrow> writes sha s b \<Longrightarrow>
    NewSubtreeFromReader c (bytes_reader (b @ rest)) = (r, Ok (Some st)) \<Longrightarrow> reachable grow sha may st"
| new_reader_mapped: "reachable grow sha may s \<Longrightarrow> writes sha s b \<Longrightarrow> os_documented os \<Longrightarrow>
    NewSubtreeFromReaderMmap c os dir (bytes_reader (b @ rest)) w = (r, w', Ok st) \<Longrightarrow>
    reachable grow sha may st"
| bytes: "reachable grow sha may st \<Longrightarrow> reachable grow sha may s \<Longrightarrow> writes sha s b \<Longrightarrow> may Reads_Into \<Longrightarrow>
    reachable grow sha may (fst (Deserialize b st))"
| reader: "reachable grow sha may st \<Longrightarrow> reachable grow sha may s \<Longrightarrow> writes sha s b \<Longrightarrow> may Reads_Into \<Longrightarrow>
    reachable grow sha may
      (fst (snd (DeserializeFromReaderWithAllocator c alloc st (bytes_reader (b @ rest)))))"
| release: "reachable grow sha may st \<Longrightarrow> may Releases \<Longrightarrow> reachable grow sha may (fst (ReleaseNodes st))"
| step: "reachable grow sha may st \<Longrightarrow> may (Operates op) \<Longrightarrow> reachable grow sha may (perform grow sha op st)"

lemma reachable_mono: "reachable grow sha may st \<Longrightarrow> (\<And>c. may c \<Longrightarrow> may' c) \<Longrightarrow> reachable grow sha may' st"
  by (induction rule: reachable.induct) (blast intro: reachable.intros)+

section \<open>What stays true\<close>

text \<open>A cached root is the root of the nodes as long as there are nodes: \<open>ReleaseNodes\<close> takes the nodes
  and leaves the root.\<close>

definition usable :: "sha256 \<Rightarrow> subtree \<Rightarrow> bool" where
  "usable sha st = (within st \<and> 1 \<le> treeSize st \<and> treeSize st \<le> 2 ^ 42 \<and>
     (node_list st \<noteq> [] \<longrightarrow> cache_valid sha st))"

lemma sound_usable: "sound sha st \<Longrightarrow> usable sha st"
  by (simp add: usable_def sound_def)

lemma usable_sound: "usable sha st \<Longrightarrow> node_list st \<noteq> [] \<Longrightarrow> sound sha st"
  by (simp add: usable_def sound_def)

lemma usable_empty:
  "usable sha st \<Longrightarrow> treeSize st' = treeSize st \<Longrightarrow> node_list st' = [] \<Longrightarrow> usable sha st'"
  by (simp add: usable_def within_def slice_len_def)

lemma RemoveNodeAtIndex_empty: "node_list st = [] \<Longrightarrow> fst (RemoveNodeAtIndex i st) = st"
  by (simp add: RemoveNodeAtIndex_def slice_len_def index_get_def)

text \<open>An operation on a subtree without nodes either leaves it without nodes or does not depend on the
  cached root.\<close>

lemma perform_empty:
  assumes "node_list st = []"
  shows "perform grow sha op st = perform grow sha op (st\<lparr>rootHash := None\<rparr>) \<or>
    node_list (perform grow sha op st) = [] \<and> treeSize (perform grow sha op st) = treeSize st"
proof (cases op)
  case (Do_ReplaceRootNode h fee sz)
  have "replaced grow n st = replaced grow n (st\<lparr>rootHash := None\<rparr>)" for n
    using assms by (simp add: replaced_def Let_def slice_len_def)
  then show ?thesis by (simp add: Do_ReplaceRootNode ReplaceRootNode_eq)
next
  case Do_AddCoinbaseNode
  then show ?thesis using assms by (simp add: AddCoinbaseNode_def Let_def slice_len_def)
next
  case (Do_NodeIndex h)
  then show ?thesis using assms by (simp add: frames)
next
  case (Do_AddConflictingNode h)
  then show ?thesis using assms by (simp add: frames)
next
  case Do_RootHash
  then show ?thesis using assms by (simp add: frames)
qed (use assms in \<open>simp_all add: AddSubtreeNode_eq AddSubtreeNodeWithoutLock_eq AddNode_eq push_def
    RemoveNodeAtIndex_empty Duplicate_def\<close>)

lemma usable_perform:
  assumes "usable sha st"
  shows "usable sha (perform grow sha op st)"
proof (cases "node_list st = []")
  case False
  with assms show ?thesis using sound_usable [OF sound_perform [OF usable_sound]] by blast
next
  case True
  then have "sound sha (st\<lparr>rootHash := None\<rparr>)" using assms by (simp add: usable_def sound_def within_def)
  from sound_usable [OF sound_perform [OF this]]
  have "usable sha (perform grow sha op (st\<lparr>rootHash := None\<rparr>))" .
  with perform_empty [OF True, of grow sha op] usable_empty [OF assms] show ?thesis by metis
qed

lemma ReleaseNodes_empties:
  "node_list (fst (ReleaseNodes st)) = [] \<and> treeSize (fst (ReleaseNodes st)) = treeSize st \<and>
    rootHash (fst (ReleaseNodes st)) = rootHash st"
  by (cases "Nodes st") (auto simp: ReleaseNodes_def reslice_def slice_cap_def)

text \<open>The constructor of a mapped tree.\<close>

lemma sound_new_mapped:
  assumes "os_documented os" and "height \<le> 42" and "NewTreeMmap os height dir w = (w', Ok st)"
  shows "sound sha st" and "node_list st = []" and "rootHash st = None" and "sums_valid st"
    and "index_valid st"
proof -
  obtain m where h: "0 \<le> height" and st: "st = zero_subtree\<lparr>Nodes := Slice [] (replicate (2 ^ nat height) zero_node),
      Height := height, FeeHash := 0, treeSize := 2 ^ nat height, closer := Some m\<rparr>"
    using NewTreeMmap_Ok [OF assms(1,3)] by blast
  have "(2::int) ^ nat height \<le> 2 ^ 42" using assms(2) h by (intro power_increasing) auto
  then show "sound sha st" "node_list st = []" "rootHash st = None" "sums_valid st" "index_valid st"
    by (simp_all add: st sound_def within_def slice_len_def zero_subtree_def sums_valid_def index_valid_def)
qed

text \<open>Honest bytes, and what reading them gives.\<close>

definition root_in :: "sha256 \<Rightarrow> subtree \<Rightarrow> hash \<Rightarrow> bool" where
  "root_in sha s root =
     (\<exists>store. BuildMerkleTreeStoreFromBytes sha (node_list s) = Ok store \<and> store \<noteq> [] \<and> root = last store)"

lemma writes_wire:
  assumes "usable sha s" and "writes sha s b"
  obtains root where "b = wire root s" and "root_in sha s root" and "fits s" and "node_list s \<noteq> []"
proof -
  have s: "fits s" "node_list s \<noteq> []" "snd (Serialize sha s) = Ok b" using assms(2) by (simp_all add: writes_def)
  have c: "cache_valid sha s" "allocatable (node_list s)"
    using assms(1) s by (simp_all add: usable_def fits_def)
  from root_hash_cases [OF c] s(2) obtain h store where
    h: "root_hash sha s = (s\<lparr>rootHash := Some h\<rparr>, Ok (Some h))"
    and store: "BuildMerkleTreeStoreFromBytes sha (node_list s) = Ok store" "h = last store" by metis
  have "store \<noteq> []" using merkle_store_nonempty [OF store(1) s(2) c(2)] .
  moreover have "b = wire h s" using s(3) h by (simp add: Serialize_def wire_def)
  ultimately show thesis using that [of h] store s(1,2) by (auto simp: root_in_def)
qed

lemma usable_read:
  assumes "usable sha s" and "node_list s \<noteq> []" and "root_in sha s root" and "same_content root s st"
  shows "usable sha st"
proof -
  have "1 \<le> int (Length s)" using assms(2) by (simp add: Length_def slice_len_def Suc_le_eq)
  then show ?thesis
    using assms
    by (auto simp: usable_def within_def same_content_def root_in_def cache_valid_def Length_def slice_len_def)
qed

lemma NewSubtreeFromReader_wire:
  assumes "fits s"
  obtains st r where "NewSubtreeFromReader c (bytes_reader (wire root s @ rest)) = (r, Ok (Some st))"
    and "same_content root s st" and "nodeIndex st = None"
proof -
  obtain st where st: "same_content root s st" "nodeIndex st = nodeIndex zero_subtree"
    and l: "loads (load_subtree None) (wire root s) zero_subtree st"
    using loads_subtree [OF assms] by blast
  obtain n where "buffering c (load_subtree None zero_subtree) (bytes_reader (wire root s @ rest)) =
      (bytes_reader (drop n rest), st, Ok ())"
    using buffered_wire [OF loadsD(1) [OF l]] by metis
  with that st show thesis
    by (simp add: NewSubtreeFromReader_def DeserializeFromReader_def DeserializeFromReaderWithAllocator_def
        zero_subtree_def)
qed

lemma DeserializeFromReaderWithAllocator_wire:
  assumes "fits s"
  obtains st where "snd (DeserializeFromReaderWithAllocator c alloc st0 (bytes_reader (wire root s @ rest))) = (st, Ok ())"
    and "same_content root s st" and "nodeIndex st = nodeIndex st0"
proof -
  obtain st where st: "same_content root s st" "nodeIndex st = nodeIndex st0"
    and l: "loads (load_subtree alloc) (wire root s) st0 st"
    using loads_subtree [OF assms] by blast
  obtain n where "buffering c (load_subtree alloc st0) (bytes_reader (wire root s @ rest)) =
      (bytes_reader (drop n rest), st, Ok ())"
    using buffered_wire [OF loadsD(1) [OF l]] by metis
  with that st show thesis by (simp add: DeserializeFromReaderWithAllocator_def)
qed

lemma mapped_head:
  assumes "rdata r = wire root s @ rest" and "fits s"
  obtains r1 s1 where "load_mapped_subtree os dir (st0, w) r = load_mapping os dir (of_nat (Length s)) (s1, w) r1"
proof -
  let ?n = "of_nat (Length s) :: uint64"
  let ?st = "st0\<lparr>rootHash := Some root, Fees := Fees s, SizeInBytes := SizeInBytes s\<rparr>"
  obtain q where q: "rdata r = (hash_bytes root @ put_uint64 (Fees s) @ put_uint64 (SizeInBytes s)) @ put_uint64 ?n @ q"
    using assms(1) by (auto simp: wire_def Length_def)
  have 1: "load_header st0 r = (r\<lparr>rdata := put_uint64 ?n @ q\<rparr>, ?st, Ok ())"
    using loadsD(1) [OF loads_header q] .
  have 2: "read_uint64 (r\<lparr>rdata := put_uint64 ?n @ q\<rparr>) = (r\<lparr>rdata := q\<rparr>, Ok ?n)"
    using uint64_codec.dec_enc [where x = ?n and r = "r\<lparr>rdata := put_uint64 ?n @ q\<rparr>" and rest = q] by simp
  show thesis
    using 1 2 by (intro that) (simp add: load_mapped_subtree_def load_seq_def load_fst_def load_bind_def load_set_def)
qed

lemma NewSubtreeFromReaderMmap_wire:
  assumes "os_documented os" and "fits s"
    and "NewSubtreeFromReaderMmap c os dir (bytes_reader (wire root s @ rest)) w = (r, w', Ok st)"
  shows "same_content root s st \<and> nodeIndex st = None"
proof -
  let ?r = "bytes_reader (wire root s @ rest)"
  have r: "rdata ?r = wire root s @ rest" by simp
  have run: "\<exists>r1 w1. load_mapped_subtree os dir (zero_subtree, w) ?r = (r1, (st, w1), Ok ())"
    using assms(3)
    by (auto simp: NewSubtreeFromReaderMmap_def deserializeFromReaderMmap_def buffering_def
        split: prod.splits outcome.splits)
  obtain w1 x where new: "newFileBackedMmapNodes os (int (Length s)) dir w = (w1, x)" by (rule prod.exhaust)
  have u: "int_of_uint64 (of_nat (Length s)) = int (Length s)"
    using fits_bounds(1) [OF assms(2)] by (simp add: Length_def int_of_uint64_of_nat)
  obtain r2 s2 where head: "load_mapped_subtree os dir (zero_subtree, w) ?r =
      load_mapping os dir (of_nat (Length s)) (s2, w) r2"
    using mapped_head [OF r assms(2)] by metis
  show ?thesis
  proof (cases x)
    case (Ok nm)
    obtain nodes m where new': "newFileBackedMmapNodes os (int (Length s)) dir w = (w1, Ok (nodes, m))"
      using new Ok by (cases nm) simp
    with newFileBackedMmapNodes_Ok [OF assms(1) this] have
      "newFileBackedMmapNodes os (int (Length s)) dir w = (w1, Ok (Slice [] (replicate (Length s) zero_node), m))"
      by simp
    from loads_mapped_subtree [OF assms(2) this] obtain st' where st': "same_content root s st'"
      "nodeIndex st' = nodeIndex zero_subtree"
      and l: "loads (load_mapped_subtree os dir) (wire root s) (zero_subtree, w) (st', w1)" by blast
    from loadsD(1) [OF l r] run have "st' = st" by auto
    with st' show ?thesis by (simp add: zero_subtree_def)
  next
    case (Fail e)
    with run new u show ?thesis by (auto simp: head load_mapping_def)
  next
    case (Panic p)
    with run new u show ?thesis by (auto simp: head load_mapping_def)
  qed
qed

lemma sound_read:
  "usable sha s \<Longrightarrow> node_list s \<noteq> [] \<Longrightarrow> root_in sha s root \<Longrightarrow> same_content root s st \<Longrightarrow> sound sha st"
  by (rule usable_sound) (auto simp: usable_read same_content_def)

text \<open>A subtree that was read, by whichever reader.\<close>

lemma new_read:
  assumes "usable sha s" and "writes sha s b"
    and "NewSubtreeFromBytes b = Ok (Some st) \<or>
      NewSubtreeFromReader c (bytes_reader (b @ rest)) = (r, Ok (Some st)) \<or>
      os_documented os \<and> NewSubtreeFromReaderMmap c os dir (bytes_reader (b @ rest)) w = (r, w', Ok st)"
  obtains root where "same_content root s st" and "root_in sha s root" and "nodeIndex st = None"
    and "node_list s \<noteq> []"
proof -
  obtain root where b: "b = wire root s" and root: "root_in sha s root" "fits s" "node_list s \<noteq> []"
    using writes_wire [OF assms(1,2)] .
  have "same_content root s st \<and> nodeIndex st = None"
    using assms(3)
  proof (elim disjE conjE)
    assume "NewSubtreeFromBytes b = Ok (Some st)"
    with NewSubtreeFromBytes_wire [OF root(2), of root] b show ?thesis
      by (metis option.inject outcome.inject(1))
  next
    assume "NewSubtreeFromReader c (bytes_reader (b @ rest)) = (r, Ok (Some st))"
    with NewSubtreeFromReader_wire [OF root(2), of c root rest] b show ?thesis
      by (metis option.inject outcome.inject(1) prod.inject)
  next
    assume "os_documented os" "NewSubtreeFromReaderMmap c os dir (bytes_reader (b @ rest)) w = (r, w', Ok st)"
    with NewSubtreeFromReaderMmap_wire [OF _ root(2)] b show ?thesis by metis
  qed
  with that root show thesis by blast
qed

lemma read_into:
  assumes "usable sha s" and "writes sha s b"
    and "st = fst (Deserialize b st0) \<or>
      st = fst (snd (DeserializeFromReaderWithAllocator c alloc st0 (bytes_reader (b @ rest))))"
  obtains root where "same_content root s st" and "root_in sha s root" and "node_list s \<noteq> []"
proof -
  obtain root where b: "b = wire root s" and root: "root_in sha s root" "fits s" "node_list s \<noteq> []"
    using writes_wire [OF assms(1,2)] .
  have "same_content root s st"
    using assms(3)
  proof
    assume "st = fst (Deserialize b st0)"
    with Deserialize_wire [OF root(2), of root st0] b show ?thesis by (metis fst_conv)
  next
    assume "st = fst (snd (DeserializeFromReaderWithAllocator c alloc st0 (bytes_reader (b @ rest))))"
    with DeserializeFromReaderWithAllocator_wire [OF root(2), of c alloc st0 root rest] b show ?thesis
      by (metis fst_conv)
  qed
  with that root show thesis by blast
qed

lemma reachable_usable: "reachable grow sha may st \<Longrightarrow> usable sha st"
proof (induction rule: reachable.induct)
  case (new height st)
  then show ?case by (intro sound_usable sound_new)
next
  case (new_mapped os height dir w w' st)
  then show ?case by (intro sound_usable sound_new_mapped)
next
  case (new_bytes s b st)
  then show ?case using new_read [of sha s b st] usable_read by metis
next
  case (new_reader s b c rest r st)
  then show ?case using new_read [of sha s b st c rest r] usable_read by metis
next
  case (new_reader_mapped s b os c dir rest w r w' st)
  then show ?case using new_read [of sha s b st c rest r os dir w w'] usable_read by metis
next
  case (bytes st s b)
  then show ?case using read_into [of sha s b "fst (Deserialize b st)" st] usable_read by metis
next
  case (reader st s b c alloc rest)
  then show ?case
    using read_into [of sha s b _ st c alloc rest] usable_read by metis
next
  case (release st)
  then show ?case using ReleaseNodes_empties usable_empty by metis
next
  case (step st op)
  then show ?case by (intro usable_perform)
qed

text \<open>Without \<open>ReleaseNodes\<close> the root is cached only for nodes.\<close>

lemma reachable_sound:
  "reachable grow sha may st \<Longrightarrow> \<not> may Releases \<Longrightarrow> sound sha st"
proof (induction rule: reachable.induct)
  case (new height st)
  then show ?case by (intro sound_new)
next
  case (new_mapped os height dir w w' st)
  then show ?case by (intro sound_new_mapped)
next
  case (step st op)
  then show ?case by (intro sound_perform)
next
  case (new_bytes s b st)
  then show ?case
    using new_read [of sha s b st] sound_read sound_usable
    by (metis)
next
  case (new_reader s b c rest r st)
  then show ?case
    using new_read [of sha s b st c rest r] sound_read sound_usable by (metis)
next
  case (new_reader_mapped s b os c dir rest w r w' st)
  then show ?case
    using new_read [of sha s b st c rest r os dir w w'] sound_read sound_usable
    by (metis)
next
  case (bytes st s b)
  then show ?case
    using read_into [of sha s b "fst (Deserialize b st)" st] sound_read sound_usable
    by (metis)
next
  case (reader st s b c alloc rest)
  then show ?case
    using read_into [of sha s b _ st c alloc rest] sound_read sound_usable
    by (metis)
qed simp

text \<open>Fees and size stay the sums of what is read.\<close>

fun keeps_sums :: "call \<Rightarrow> bool" where
  "keeps_sums (Operates (Do_ReplaceRootNode h fee sz)) = False"
| "keeps_sums Releases = False"
| "keeps_sums c = True"

lemma sums_valid_read: "sums_valid s \<Longrightarrow> same_content root s st \<Longrightarrow> sums_valid st"
  by (simp add: sums_valid_def same_content_def)

lemma reachable_sums: "reachable grow sha keeps_sums st \<Longrightarrow> sums_valid st"
proof (induction rule: reachable.induct)
  case (new height st)
  then show ?case by (auto simp: NewTree_eq_Ok sums_valid_def zero_subtree_def)
next
  case (new_mapped os height dir w w' st)
  then show ?case by (intro sound_new_mapped)
next
  case (step st op)
  then show ?case by (intro sums_valid_perform) auto
next
  case (new_bytes s b st)
  then show ?case using new_read [of sha s b st] reachable_usable sums_valid_read by metis
next
  case (new_reader s b c rest r st)
  then show ?case using new_read [of sha s b st c rest r] reachable_usable sums_valid_read by metis
next
  case (new_reader_mapped s b os c dir rest w r w' st)
  then show ?case
    using new_read [of sha s b st c rest r os dir w w'] reachable_usable sums_valid_read by metis
next
  case (bytes st s b)
  then show ?case
    using read_into [of sha s b "fst (Deserialize b st)" st] reachable_usable sums_valid_read by metis
next
  case (reader st s b c alloc rest)
  then show ?case using read_into [of sha s b _ st c alloc rest] reachable_usable sums_valid_read by metis
qed simp

fun keeps_built_index :: "call \<Rightarrow> bool" where
  "keeps_built_index (Operates op) = keeps_index op"
| "keeps_built_index c = False"

lemma reachable_index: "reachable grow sha keeps_built_index st \<Longrightarrow> index_valid st"
proof (induction rule: reachable.induct)
  case (new height st)
  then show ?case by (auto simp: NewTree_eq_Ok index_valid_def zero_subtree_def)
next
  case (new_mapped os height dir w w' st)
  then show ?case by (intro sound_new_mapped)
next
  case (step st op)
  then show ?case by (intro index_valid_perform) auto
next
  case (new_bytes s b st)
  then show ?case using new_read [of sha s b st] reachable_usable by (metis index_valid_def option.simps(4))
next
  case (new_reader s b c rest r st)
  then show ?case
    using new_read [of sha s b st c rest r] reachable_usable by (metis index_valid_def option.simps(4))
next
  case (new_reader_mapped s b os c dir rest w r w' st)
  then show ?case
    using new_read [of sha s b st c rest r os dir w w'] reachable_usable
    by (metis index_valid_def option.simps(4))
qed simp_all

section \<open>Properties\<close>

text \<open>C1: In every state that calls of the API lead to, \<open>RootHash\<close> returns Bitcoin's merkle root of the
  nodes as they are now: the cache is never stale.  The subtree is a new one, on the heap or mapped, or
  read from what a subtree in such a state wrote; it may have gone through any operations, whatever
  their order and outcome, through \<open>ReleaseNodes\<close>, and through readers that filled it again from such
  bytes.  No hash of the tree may be zero, which the code takes for the mark of a missing one.  For no
  nodes the result is nil, or after \<open>ReleaseNodes\<close> the root that was cached before.\<close>

theorem RootHash_of_reachable:
  assumes "reachable grow sha may st" and "tree_nonzero (hash_pair sha) (hashes st)"
  shows "snd (RootHash sha (Some st)) =
      Ok (if node_list st = [] then rootHash st else Some (merkle_root (hash_pair sha) (hashes st))) \<and>
    (\<not> may Releases \<longrightarrow> node_list st = [] \<longrightarrow> rootHash st = None)"
proof (cases "node_list st = []")
  case True
  have "snd (RootHash sha (Some st)) = Ok (rootHash st)"
    using True by (simp add: RootHash_def Length_def slice_len_def)
  moreover have "rootHash st = None" if "\<not> may Releases"
    using sound_root [OF reachable_sound [OF assms(1) that] assms(2)] True calculation by simp
  ultimately show ?thesis using True by simp
next
  case False
  with sound_root [OF usable_sound [OF reachable_usable [OF assms(1)] False] assms(2)] show ?thesis by simp
qed

lemma example_reachable:
  "\<exists>st. reachable doubling mix_sha (\<lambda>_. True) st \<and> node_list st = [leaf 1, leaf 3] \<and>
    rootHash st = None \<and> fits st"
proof -
  obtain st0 where st0: "NewTree 2 = Ok st0" "treeSize st0 = 4" "node_list st0 = []" "ConflictingNodes st0 = NilSlice"
    by (simp add: NewTree_eq_Ok zero_subtree_def)
  define st1 where "st1 = perform doubling mix_sha (Do_AddSubtreeNode (leaf 1)) st0"
  define st2 where "st2 = perform doubling mix_sha (Do_AddSubtreeNode (leaf 2)) st1"
  define st3 where "st3 = perform doubling mix_sha Do_RootHash st2"
  define st4 where "st4 = perform doubling mix_sha (Do_AddSubtreeNode (leaf 3)) st3"
  define st5 where "st5 = perform doubling mix_sha (Do_RemoveNodeAtIndex 1) st4"
  have r: "reachable doubling mix_sha (\<lambda>_. True) st5"
    unfolding st5_def st4_def st3_def st2_def st1_def
    by (rule reachable.step, rule reachable.step, rule reachable.step, rule reachable.step,
        rule reachable.step, rule reachable.new [OF st0(1)]) simp_all
  have leaf: "Hash (leaf n) \<noteq> CoinbasePlaceholder" if "n \<in> {1, 2, 3}" for n
    using that by (auto simp: leaf_def CoinbasePlaceholder_eq)
  have 1: "node_list st1 = [leaf 1]" "treeSize st1 = 4" "ConflictingNodes st1 = NilSlice"
    using st0 leaf [of 1] by (simp_all add: st1_def AddSubtreeNode_eq slice_len_def)
  have 2: "node_list st2 = [leaf 1, leaf 2]" "treeSize st2 = 4" "ConflictingNodes st2 = NilSlice"
    using 1 leaf [of 2] by (simp_all add: st2_def AddSubtreeNode_eq slice_len_def)
  have 3: "node_list st3 = [leaf 1, leaf 2]" "treeSize st3 = 4" "ConflictingNodes st3 = NilSlice"
    using 2 by (simp_all add: st3_def frames)
  have 4: "node_list st4 = [leaf 1, leaf 2, leaf 3]" "treeSize st4 = 4" "ConflictingNodes st4 = NilSlice"
    using 3 leaf [of 3] by (simp_all add: st4_def AddSubtreeNode_eq slice_len_def)
  have "node_list st5 = [leaf 1, leaf 3]" "rootHash st5 = None" "ConflictingNodes st5 = NilSlice"
    using 4 by (simp_all add: st5_def RemoveNodeAtIndex_Ok slice_len_def)
  with r show ?thesis by (auto simp: fits_def allocatable_def slice_len_def max_alloc_def)
qed

text \<open>That subtree, written and read into itself, and the result released.\<close>

lemma example_read:
  obtains st where "reachable doubling mix_sha (\<lambda>_. True) st" and "node_list st = [leaf 1, leaf 3]"
    and "rootHash st \<noteq> None" and "reachable doubling mix_sha (\<lambda>_. True) (fst (ReleaseNodes st))"
proof -
  obtain s where r: "reachable doubling mix_sha (\<lambda>_. True) s" and s: "node_list s = [leaf 1, leaf 3]"
    "rootHash s = None" "fits s" using example_reachable by blast
  have "cache_valid mix_sha s" "allocatable (node_list s)" "node_list s \<noteq> []"
    using s by (simp_all add: fits_def)
  then obtain root where "Serialize mix_sha s = (s\<lparr>rootHash := Some root\<rparr>, Ok (wire root s))"
    using Serialize_wire by metis
  then have w: "writes mix_sha s (wire root s)" using s by (simp add: writes_def)
  obtain st where st: "fst (Deserialize (wire root s) s) = st" "same_content root s st"
    using Deserialize_wire [OF s(3), of root s] by (metis fst_conv)
  have "reachable doubling mix_sha (\<lambda>_. True) st" using reachable.bytes [OF r r w] st(1) by simp
  moreover from this have "reachable doubling mix_sha (\<lambda>_. True) (fst (ReleaseNodes st))"
    by (rule reachable.release) simp
  ultimately show thesis using that st s by (simp add: same_content_def)
qed

lemma example_pair_nonzero: "tree_nonzero (hash_pair mix_sha) (map Hash [leaf 1, leaf 3])"
  by (simp add: tree_nonzero_def merkle_levels.simps hash_pair_mix leaf_def)

theorem RootHash_of_reachable_witness:
  "\<exists>st. node_list st = [leaf 1, leaf 3] \<and> snd (RootHash mix_sha (Some st)) = Ok (Some 12) \<and>
    snd (RootHash mix_sha (Some (fst (ReleaseNodes st)))) = Ok (rootHash st) \<and> rootHash st \<noteq> None"
proof -
  obtain st where r: "reachable doubling mix_sha (\<lambda>_. True) st" and st: "node_list st = [leaf 1, leaf 3]"
    "rootHash st \<noteq> None" and rel: "reachable doubling mix_sha (\<lambda>_. True) (fst (ReleaseNodes st))"
    using example_read by blast
  have "merkle_root (hash_pair mix_sha) (map Hash [leaf 1, leaf 3]) = 12"
    by (simp add: merkle_root_step hash_pair_mix leaf_def)
  moreover have "tree_nonzero (hash_pair mix_sha) []"
    by (simp add: tree_nonzero_def merkle_levels.simps)
  ultimately show ?thesis
    using RootHash_of_reachable [OF r] RootHash_of_reachable [OF rel] example_pair_nonzero st
      ReleaseNodes_empties [of st] by (intro exI [of _ st]) simp
qed

text \<open>C13: In every such state the nodes do not exceed the size of the tree.  Without \<open>ReplaceRootNode\<close> and
  \<open>ReleaseNodes\<close>, \<open>Fees\<close> and \<open>SizeInBytes\<close> are the sums over the nodes modulo \<open>2^64\<close>, removals and
  readings included.  Without \<open>RemoveNodeAtIndex\<close>, \<open>ReplaceRootNode\<close>, \<open>AddCoinbaseNode\<close>, \<open>ReleaseNodes\<close>
  and reading into a subtree in use, each of which leaves an index as it was or with places that are
  no longer right, an index that was built is the index of the nodes.\<close>

theorem reachable_accounts:
  assumes "reachable grow sha may st"
  shows "int (Length st) \<le> treeSize st \<and>
    ((\<forall>c. may c \<longrightarrow> keeps_sums c) \<longrightarrow> Fees st = sum_list (map Fee (node_list st)) \<and>
      SizeInBytes st = sum_list (map NodeSizeInBytes (node_list st))) \<and>
    ((\<forall>c. may c \<longrightarrow> keeps_built_index c) \<longrightarrow> index_valid st)"
proof -
  have "int (Length st) \<le> treeSize st"
    using reachable_usable [OF assms] by (simp add: usable_def within_def Length_def)
  moreover have "sums_valid st" if "\<forall>c. may c \<longrightarrow> keeps_sums c"
    using reachable_mono [OF assms] that reachable_sums by blast
  moreover have "index_valid st" if "\<forall>c. may c \<longrightarrow> keeps_built_index c"
    using reachable_mono [OF assms] that reachable_index by blast
  ultimately show ?thesis by (simp add: sums_valid_def)
qed

theorem reachable_accounts_witness:
  "\<exists>st. node_list st = [leaf 1] \<and> Fees st = 10 \<and> int (Length st) \<le> treeSize st \<and> index_valid st \<and>
    nodeIndex st \<noteq> None"
proof -
  obtain st0 where st0: "NewTree 2 = Ok st0" "treeSize st0 = 4" "node_list st0 = []"
    by (simp add: NewTree_eq_Ok)
  define st1 where "st1 = perform doubling mix_sha (Do_NodeIndex 7) st0"
  define st where "st = perform doubling mix_sha (Do_AddSubtreeNode (leaf 1)) st1"
  have s: "reachable doubling mix_sha keeps_sums st" and i: "reachable doubling mix_sha keeps_built_index st"
    unfolding st_def st1_def
    by (rule reachable.step, rule reachable.step, rule reachable.new [OF st0(1)], simp, simp)+
  have "node_list st1 = []" "treeSize st1 = 4" "nodeIndex st1 \<noteq> None"
    using st0 by (auto simp: st1_def NodeIndex_def Let_def)
  then have "node_list st = [leaf 1]" "nodeIndex st \<noteq> None"
    by (auto simp: st_def AddSubtreeNode_eq slice_len_def leaf_def CoinbasePlaceholder_eq push_def)
  then show ?thesis using reachable_accounts [OF s] reachable_accounts [OF i] by (auto simp: leaf_def)
qed

section \<open>What is excluded above, and why\<close>

text \<open>Reading into a subtree whose index was built replaces the nodes and keeps the index: \<open>NodeIndex\<close>
  answers from the places of the nodes that were there before.\<close>

theorem reading_keeps_stale_index:
  assumes "fits s" and "nodeIndex st = Some m"
  shows "\<exists>st'. Deserialize (wire root s) st = (st', Ok ()) \<and> node_list st' = node_list s \<and>
    snd (NodeIndex h st') = (case m h of Some i \<Rightarrow> i | None \<Rightarrow> - 1)"
proof -
  obtain st' where "Deserialize (wire root s) st = (st', Ok ())" "same_content root s st'"
    "nodeIndex st' = nodeIndex st" using Deserialize_wire [OF assms(1)] .
  with assms(2) show ?thesis by (auto simp: same_content_def NodeIndex_def Let_def)
qed

text \<open>The coinbase node is not entered into an index that was built before.\<close>

theorem coinbase_not_indexed:
  assumes "node_list st = []" and "nodeIndex st = Some m" and "index_valid st"
    and "AddCoinbaseNode grow st = (st', r)"
  shows "map Hash (node_list st') = [CoinbasePlaceholder] \<and> snd (NodeIndex CoinbasePlaceholder st') = - 1"
  using assms by (auto simp: AddCoinbaseNode_def slice_len_def Let_def NodeIndex_def index_valid_def)

text \<open>A reading that fails right behind the root hash, of 32 bytes of anything, leaves these bytes as the
  cached root of the nodes that were there before.\<close>

theorem failed_reading_changes_root:
  shows "\<exists>st' e. Deserialize (hash_bytes root) st = (st', Fail e) \<and> node_list st' = node_list st \<and>
    snd (RootHash sha (Some st')) = Ok (Some root)"
proof -
  have "load_root st (bytes_reader (hash_bytes root)) = (bytes_reader [], st\<lparr>rootHash := Some root\<rparr>, Ok ())"
    using loadsD(1) [OF loads_root, of "bytes_reader (hash_bytes root)" root "[]"] by (simp add: bytes_reader_def)
  then show ?thesis
    by (auto simp: Deserialize_def DeserializeFromReader_def DeserializeFromReaderWithAllocator_def buffering_def
        load_subtree_def recovering_def load_seq_def load_header_def load_bind_def read_uint64_def dmap_def
        read_full_def RootHash_def split: prod.split)
qed

end
