(* ===== verification/Inpoints.thy ===== *)
theory Inpoints
  imports Bytes_Codec "HOL-Library.Multiset"
begin

text \<open>
  \<open>inpoints.go\<close>: the inputs of a transaction, grouped by parent transaction, in one packed array
  (for each parent a count and that many output indexes), and its wire format.  The abstraction is
  a list of groups, \<open>represents\<close> relates the two.

  The inputs are go-bt's \<open>bt.Input\<close>, of which the code uses \<open>PreviousTxIDChainHash\<close> and
  \<open>PreviousTxOutIndex\<close>; they are parameters.  A slice handed out by an accessor shares the array of
  the object; the model returns its elements.
\<close>

record inpoint =
  InpointHash :: hash
  Index :: uint32

record tx_inpoints =
  ParentTxHashes :: "hash slice"
  voutIdxs :: "uint32 slice"
  SubtreeIndex :: "16 word"

definition zero_inpoints :: tx_inpoints where
  "zero_inpoints = \<lparr>ParentTxHashes = NilSlice, voutIdxs = NilSlice, SubtreeIndex = 0\<rparr>"

abbreviation parent_list :: "tx_inpoints \<Rightarrow> hash list" where
  "parent_list p \<equiv> elems (ParentTxHashes p)"

abbreviation vout_list :: "tx_inpoints \<Rightarrow> uint32 list" where
  "vout_list p \<equiv> elems (voutIdxs p)"

section \<open>The code\<close>

definition NewTxInpoints :: tx_inpoints where
  "NewTxInpoints = zero_inpoints\<lparr>ParentTxHashes := Slice [] []\<rparr>"

definition NewTxInpointsFromPacked :: "hash slice \<Rightarrow> uint32 slice \<Rightarrow> tx_inpoints" where
  "NewTxInpointsFromPacked parents vouts = zero_inpoints\<lparr>ParentTxHashes := parents, voutIdxs := vouts\<rparr>"

text \<open>The walk over the count words of the first parents.\<close>

fun skip_parents :: "uint32 list \<Rightarrow> nat \<Rightarrow> nat \<Rightarrow> nat outcome" where
  "skip_parents vs 0 pos = Ok pos"
| "skip_parents vs (Suc j) pos =
     obind (index_get vs (int pos)) (\<lambda>c. skip_parents vs j (pos + 1 + unat c))"

text \<open>The slice expression of \<open>voutSliceForParent\<close> may reach up to the capacity.\<close>

definition voutSliceForParent :: "nat \<Rightarrow> tx_inpoints \<Rightarrow> uint32 list outcome" where
  "voutSliceForParent i p =
     obind (skip_parents (vout_list p) i 0) (\<lambda>pos.
     obind (index_get (vout_list p) (int pos)) (\<lambda>c.
     (let count = unat c in
      if pos + 1 + count \<le> slice_cap (voutIdxs p)
      then Ok (take count (drop (pos + 1) (elems (voutIdxs p) @ spare (voutIdxs p))))
      else Panic SliceBoundsOutOfRange)))"

definition nrInputs :: "tx_inpoints \<Rightarrow> int" where
  "nrInputs p =
     (let parentCount = slice_len (ParentTxHashes p) in
      if parentCount = 0 then 0 else int (slice_len (voutIdxs p)) - int parentCount)"

definition GetParentTxHashes :: "tx_inpoints \<Rightarrow> hash list" where
  "GetParentTxHashes p = parent_list p"

definition GetParentTxHashAtIndex :: "int \<Rightarrow> tx_inpoints \<Rightarrow> hash outcome" where
  "GetParentTxHashAtIndex index p =
     (if index < 0 \<or> index \<ge> int (slice_len (ParentTxHashes p)) then Fail ErrIndexOutOfRange
      else index_get (parent_list p) index)"

definition GetParentVoutsAtIndex :: "int \<Rightarrow> tx_inpoints \<Rightarrow> uint32 list outcome" where
  "GetParentVoutsAtIndex index p =
     (if index < 0 \<or> index \<ge> int (slice_len (ParentTxHashes p)) then Fail ErrIndexOutOfRange
      else voutSliceForParent (nat index) p)"

text \<open>\<open>for k := 1; k <= count; k++\<close> over the words behind the count word.\<close>

fun read_run :: "uint32 list \<Rightarrow> hash \<Rightarrow> nat \<Rightarrow> nat \<Rightarrow> inpoint list outcome" where
  "read_run vs h pos 0 = Ok []"
| "read_run vs h pos (Suc n) =
     obind (index_get vs (int pos)) (\<lambda>v.
     omap (\<lambda>is. \<lparr>InpointHash = h, Index = v\<rparr> # is) (read_run vs h (pos + 1) n))"

fun collect_inpoints :: "uint32 list \<Rightarrow> hash list \<Rightarrow> nat \<Rightarrow> inpoint list outcome" where
  "collect_inpoints vs [] pos = Ok []"
| "collect_inpoints vs (h # hs) pos =
     obind (index_get vs (int pos)) (\<lambda>c.
     (let count = unat c in
      obind (read_run vs h (pos + 1) count) (\<lambda>is.
      omap (\<lambda>js. is @ js) (collect_inpoints vs hs (pos + (1 + count))))))"

definition GetTxInpoints :: "tx_inpoints \<Rightarrow> inpoint list outcome" where
  "GetTxInpoints p =
     obind (make_slice 36 () 0 (nrInputs p)) (\<lambda>_. collect_inpoints (vout_list p) (parent_list p) 0)"

text \<open>\<open>slices.Index\<close>.\<close>

fun find_index :: "'a list \<Rightarrow> 'a \<Rightarrow> nat option" where
  "find_index [] x = None"
| "find_index (y # ys) x = (if y = x then Some 0 else map_option Suc (find_index ys x))"

definition appendInput :: "growth \<Rightarrow> hash \<Rightarrow> uint32 \<Rightarrow> tx_inpoints \<Rightarrow> tx_inpoints outcome" where
  "appendInput grow h vout p =
     (case find_index (parent_list p) h of
        None \<Rightarrow>
          Ok (p\<lparr>ParentTxHashes := append_elem grow 0 (ParentTxHashes p) h,
                voutIdxs := append_elem grow 0 (append_elem grow 0 (voutIdxs p) 1) vout\<rparr>)
      | Some idx \<Rightarrow>
          obind (skip_parents (vout_list p) idx 0) (\<lambda>pos.
          obind (index_get (vout_list p) (int pos)) (\<lambda>count.
          (let insertAt = pos + 1 + unat count;
               grown = append_elem grow 0 (voutIdxs p) 0;
               vs = elems grown
           in if insertAt + 1 \<le> length vs then
                (let moved = take (insertAt + 1) vs @ drop insertAt (butlast vs)
                 in Ok (p\<lparr>voutIdxs := set_elems (moved[insertAt := vout, pos := count + 1]) grown\<rparr>))
              else Panic SliceBoundsOutOfRange))))"

fun append_inputs ::
  "('i \<Rightarrow> hash) \<Rightarrow> ('i \<Rightarrow> uint32) \<Rightarrow> growth \<Rightarrow> 'i list \<Rightarrow> tx_inpoints \<Rightarrow> tx_inpoints outcome" where
  "append_inputs PreviousTxIDChainHash PreviousTxOutIndex grow [] p = Ok p"
| "append_inputs PreviousTxIDChainHash PreviousTxOutIndex grow (i # is) p =
     obind (appendInput grow (PreviousTxIDChainHash i) (PreviousTxOutIndex i) p)
       (append_inputs PreviousTxIDChainHash PreviousTxOutIndex grow is)"

definition newSizedFromInputs ::
  "('i \<Rightarrow> hash) \<Rightarrow> ('i \<Rightarrow> uint32) \<Rightarrow> growth \<Rightarrow> 'i list \<Rightarrow> tx_inpoints outcome" where
  "newSizedFromInputs PreviousTxIDChainHash PreviousTxOutIndex grow inputs =
     (let n = int (length inputs) in
      if n = 0 then Ok zero_inpoints
      else
        obind (make_slice 32 0 0 n) (\<lambda>hs.
        obind (make_slice 4 0 0 (2 * n)) (\<lambda>vs.
        append_inputs PreviousTxIDChainHash PreviousTxOutIndex grow inputs
          (zero_inpoints\<lparr>ParentTxHashes := hs, voutIdxs := vs\<rparr>))))"

text \<open>\<open>NewTxInpointsFromTx\<close> passes \<open>tx.Inputs\<close>, \<open>NewTxInpointsFromInputs\<close> its argument; their error
  is always nil.\<close>

definition NewTxInpointsFromTx ::
  "('tx \<Rightarrow> 'i list) \<Rightarrow> ('i \<Rightarrow> hash) \<Rightarrow> ('i \<Rightarrow> uint32) \<Rightarrow> growth \<Rightarrow> 'tx \<Rightarrow> tx_inpoints outcome" where
  "NewTxInpointsFromTx Inputs PreviousTxIDChainHash PreviousTxOutIndex grow tx =
     newSizedFromInputs PreviousTxIDChainHash PreviousTxOutIndex grow (Inputs tx)"

definition NewTxInpointsFromInputs ::
  "('i \<Rightarrow> hash) \<Rightarrow> ('i \<Rightarrow> uint32) \<Rightarrow> growth \<Rightarrow> 'i list \<Rightarrow> tx_inpoints outcome" where
  "NewTxInpointsFromInputs PreviousTxIDChainHash PreviousTxOutIndex grow inputs =
     newSizedFromInputs PreviousTxIDChainHash PreviousTxOutIndex grow inputs"

definition len32 :: "'a slice \<Rightarrow> uint32" where
  "len32 b =
     (if b = NilSlice then 0
      else (let l = slice_len b in if l > 2 ^ 32 - 1 then 2 ^ 31 - 1 else of_nat l))"

definition TxInpoints_Serialize :: "tx_inpoints \<Rightarrow> byte list outcome" where
  "TxInpoints_Serialize p =
     (let parentCount = slice_len (ParentTxHashes p) in
      if (parentCount = 0 \<and> slice_len (voutIdxs p) \<noteq> 0) \<or>
         (parentCount > 0 \<and> slice_len (voutIdxs p) < parentCount)
      then Fail ErrParentTxHashesMismatch
      else Ok (put_uint32 (len32 (ParentTxHashes p)) @ concat (map hash_bytes (parent_list p)) @
               concat (map put_uint32 (vout_list p))))"

primrec load_vouts :: "growth \<Rightarrow> nat \<Rightarrow> tx_inpoints loader" where
  "load_vouts grow 0 = load_set (\<lambda>p. p)"
| "load_vouts grow (Suc j) =
     load_seq
       (load_bind ''unable to read parent index: %w'' read_uint32
         (\<lambda>v. load_set (\<lambda>p. p\<lparr>voutIdxs := append_elem grow 0 (voutIdxs p) v\<rparr>)))
       (load_vouts grow j)"

primrec load_groups :: "growth \<Rightarrow> nat \<Rightarrow> tx_inpoints loader" where
  "load_groups grow 0 = load_set (\<lambda>p. p)"
| "load_groups grow (Suc i) =
     load_seq
       (load_bind ''unable to read number of parent indexes: %w'' read_uint32 (\<lambda>count.
         load_seq (load_set (\<lambda>p. p\<lparr>voutIdxs := append_elem grow 0 (voutIdxs p) count\<rparr>))
           (load_vouts grow (unat count))))
       (load_groups grow i)"

text \<open>The capacity \<open>parentCount*2\<close> is a 32-bit product.\<close>

definition TxInpoints_deserializeFromReader :: "growth \<Rightarrow> tx_inpoints loader" where
  "TxInpoints_deserializeFromReader grow =
     load_bind ''unable to read number of parent inpoints: %w'' read_uint32 (\<lambda>parentCount.
       if parentCount = 0 then load_set (\<lambda>p. p)
       else
         load_seq (load_step (\<lambda>p. omap (\<lambda>hs. p\<lparr>ParentTxHashes := hs\<rparr>)
                     (make_slice 32 0 (uint parentCount) (uint parentCount))))
        (load_seq (\<lambda>p r. case fill_hashes (unat parentCount) 0 (parent_list p) r of
                     (r', hs, res) \<Rightarrow>
                       (r', p\<lparr>ParentTxHashes := set_elems hs (ParentTxHashes p)\<rparr>,
                        wrapping ''unable to read parent tx hash: %w'' res))
        (load_seq (load_step (\<lambda>p. omap (\<lambda>vs. p\<lparr>voutIdxs := vs\<rparr>)
                     (make_slice 4 0 0 (uint (parentCount * 2)))))
                  (load_groups grow (unat parentCount)))))"

text \<open>On an error the two constructors return what has been read so far with it; the model returns
  the error.\<close>

definition NewTxInpointsFromReader :: "growth \<Rightarrow> tx_inpoints decoder" where
  "NewTxInpointsFromReader grow r =
     (case TxInpoints_deserializeFromReader grow zero_inpoints r of (r', p, res) \<Rightarrow> (r', omap (\<lambda>_. p) res))"

definition NewTxInpointsFromBytes :: "growth \<Rightarrow> byte list \<Rightarrow> tx_inpoints outcome" where
  "NewTxInpointsFromBytes grow b = snd (NewTxInpointsFromReader grow (bytes_reader b))"

section \<open>The abstraction: groups of output indexes\<close>

type_synonym group = "hash \<times> uint32 list"

definition pack :: "group list \<Rightarrow> uint32 list" where
  "pack gs = concat (map (\<lambda>(h, vs). of_nat (length vs) # vs) gs)"

definition flatten :: "group list \<Rightarrow> inpoint list" where
  "flatten gs = concat (map (\<lambda>(h, vs). map (\<lambda>v. \<lparr>InpointHash = h, Index = v\<rparr>) vs) gs)"

definition groups_ok :: "group list \<Rightarrow> bool" where
  "groups_ok gs = (\<forall>(h, vs)\<in>set gs. length vs < 2 ^ 32)"

definition represents :: "tx_inpoints \<Rightarrow> group list \<Rightarrow> bool" where
  "represents p gs = (parent_list p = map fst gs \<and> vout_list p = pack gs)"

text \<open>The specification of recording an input.\<close>

fun add_input :: "hash \<Rightarrow> uint32 \<Rightarrow> group list \<Rightarrow> group list" where
  "add_input h v [] = [(h, [v])]"
| "add_input h v ((g, vs) # gs) = (if g = h then (g, vs @ [v]) # gs else (g, vs) # add_input h v gs)"

lemma pack_simps [simp]:
  "pack [] = []" "pack ((h, vs) # gs) = of_nat (length vs) # vs @ pack gs"
  "pack (gs @ gs') = pack gs @ pack gs'"
  by (simp_all add: pack_def)

lemma flatten_simps [simp]:
  "flatten [] = []"
  "flatten ((h, vs) # gs) = map (\<lambda>v. \<lparr>InpointHash = h, Index = v\<rparr>) vs @ flatten gs"
  by (simp_all add: flatten_def)

lemma groups_ok_simps [simp]:
  "groups_ok []" "groups_ok ((h, vs) # gs) \<longleftrightarrow> length vs < 2 ^ 32 \<and> groups_ok gs"
  "groups_ok (gs @ gs') \<longleftrightarrow> groups_ok gs \<and> groups_ok gs'"
  by (auto simp: groups_ok_def)

lemma unat_uint32_of_nat: "n < 2 ^ 32 \<Longrightarrow> unat (of_nat n :: uint32) = n"
  by (simp add: unat_of_nat take_bit_nat_eq_self)

lemma index_get_append: "index_get (pre @ x # post) (int (length pre)) = Ok x"
  by (simp add: index_get_def)

lemma skip_parents_pack:
  "groups_ok gs \<Longrightarrow> j \<le> length gs \<Longrightarrow>
    skip_parents (pre @ pack gs @ post) j (length pre) = Ok (length pre + length (pack (take j gs)))"
proof (induction gs arbitrary: j pre)
  case (Cons g gs)
  obtain h vs where g: "g = (h, vs)" by fastforce
  show ?case
  proof (cases j)
    case (Suc i)
    let ?pre = "pre @ of_nat (length vs) # vs"
    have "skip_parents (?pre @ pack gs @ post) i (length ?pre) =
        Ok (length ?pre + length (pack (take i gs)))"
      using Cons.prems Suc g by (intro Cons.IH) simp_all
    moreover have "index_get (pre @ pack (g # gs) @ post) (int (length pre)) = Ok (of_nat (length vs))"
      using index_get_append [of pre "of_nat (length vs)" "vs @ pack gs @ post"] g by simp
    moreover have "unat (of_nat (length vs) :: uint32) = length vs"
      using Cons.prems(1) g by (intro unat_uint32_of_nat) simp
    ultimately show ?thesis using Suc g by (simp add: add.assoc)
  qed simp
qed simp

lemma read_run_eq:
  "read_run (pre @ vs @ post) h (length pre) (length vs) =
    Ok (map (\<lambda>v. \<lparr>InpointHash = h, Index = v\<rparr>) vs)"
proof (induction vs arbitrary: pre)
  case (Cons v vs)
  from Cons.IH [of "pre @ [v]"] show ?case
    using index_get_append [of pre v "vs @ post"] by simp
qed simp

lemma collect_inpoints_pack:
  "groups_ok gs \<Longrightarrow>
    collect_inpoints (pre @ pack gs @ post) (map fst gs) (length pre) = Ok (flatten gs)"
proof (induction gs arbitrary: pre)
  case (Cons g gs)
  obtain h vs where g: "g = (h, vs)" by fastforce
  let ?c = "of_nat (length vs) :: uint32"
  have c: "unat ?c = length vs" using Cons.prems g by (intro unat_uint32_of_nat) simp
  have "collect_inpoints ((pre @ ?c # vs) @ pack gs @ post) (map fst gs) (length (pre @ ?c # vs)) =
      Ok (flatten gs)"
    using Cons.prems g by (intro Cons.IH) simp
  moreover have "read_run ((pre @ [?c]) @ vs @ (pack gs @ post)) h (length (pre @ [?c])) (length vs) =
      Ok (map (\<lambda>v. \<lparr>InpointHash = h, Index = v\<rparr>) vs)"
    by (rule read_run_eq)
  ultimately show ?case
    using index_get_append [of pre ?c "vs @ pack gs @ post"] c g by simp
qed simp

lemma length_pack: "length (pack gs) = length gs + length (flatten gs)"
  by (induction gs) auto

lemma length_flatten_le: "length (flatten gs) + length gs \<le> length (pack gs)"
  by (simp add: length_pack)

lemma GetTxInpoints_represents:
  assumes "represents p gs" and "groups_ok gs" and "36 * int (length (flatten gs)) \<le> max_alloc"
  shows "GetTxInpoints p = Ok (flatten gs)"
proof -
  have "nrInputs p = int (length (flatten gs))"
    using assms(1) by (auto simp: nrInputs_def represents_def slice_len_def length_pack Let_def)
  then show ?thesis
    using assms collect_inpoints_pack [of gs "[]" "[]"]
    by (simp add: GetTxInpoints_def make_slice_def represents_def)
qed

lemma voutSliceForParent_represents:
  assumes "represents p gs" and "groups_ok gs" and "i < length gs"
  shows "voutSliceForParent i p = Ok (snd (gs ! i))"
proof -
  obtain h vs where g: "gs ! i = (h, vs)" by fastforce
  let ?A = "pack (take i gs)" and ?B = "pack (drop (Suc i) gs)"
  have gs: "gs = take i gs @ (h, vs) # drop (Suc i) gs"
    using id_take_nth_drop [OF assms(3)] g by simp
  have "pack (take i gs @ (h, vs) # drop (Suc i) gs) = ?A @ of_nat (length vs) # vs @ ?B" by simp
  then have P: "vout_list p = ?A @ of_nat (length vs) # vs @ ?B"
    using assms(1) by (simp only: gs [symmetric] represents_def)
  have "groups_ok (take i gs @ (h, vs) # drop (Suc i) gs)" using assms(2) by (simp only: gs [symmetric])
  then have c: "unat (of_nat (length vs) :: uint32) = length vs"
    by (intro unat_uint32_of_nat) simp
  have "skip_parents (vout_list p) i 0 = Ok (length ?A)"
    using skip_parents_pack [OF assms(2), of i "[]" "[]"] assms(1,3) by (simp add: represents_def)
  moreover have "index_get (vout_list p) (int (length ?A)) = Ok (of_nat (length vs))"
    unfolding P by (rule index_get_append)
  ultimately show ?thesis
    by (simp add: voutSliceForParent_def c slice_cap_def P g)
qed

section \<open>Recording inputs refines the specification\<close>

lemma find_index_None: "find_index xs x = None \<longleftrightarrow> x \<notin> set xs"
  by (induction xs) auto

lemma find_index_Some: "find_index xs x = Some i \<Longrightarrow> i < length xs \<and> xs ! i = x \<and> x \<notin> set (take i xs)"
  by (induction xs arbitrary: i) (auto split: if_splits simp: nth_Cons' less_Suc_eq_0_disj)

lemma add_input_new: "h \<notin> fst ` set gs \<Longrightarrow> add_input h v gs = gs @ [(h, [v])]"
  by (induction h v gs rule: add_input.induct) auto

lemma add_input_old: "h \<notin> fst ` set gs \<Longrightarrow> add_input h v (gs @ (h, vs) # gs') = gs @ (h, vs @ [v]) # gs'"
  by (induction h v gs rule: add_input.induct) auto

lemma slice_cap_set_elems: "length xs = length (elems s) \<Longrightarrow> slice_cap (set_elems xs s) = slice_cap s"
  by (cases s) (simp_all add: slice_cap_def)

lemma appendInput_represents:
  assumes "represents p gs" and "groups_ok gs"
    and "slice_len (ParentTxHashes p) < slice_cap (ParentTxHashes p)"
    and "slice_len (voutIdxs p) + 2 \<le> slice_cap (voutIdxs p)"
  shows "\<exists>p'. appendInput grow h v p = Ok p' \<and> represents p' (add_input h v gs) \<and>
    slice_cap (ParentTxHashes p') = slice_cap (ParentTxHashes p) \<and>
    slice_cap (voutIdxs p') = slice_cap (voutIdxs p) \<and> SubtreeIndex p' = SubtreeIndex p"
proof (cases "find_index (parent_list p) h")
  case None
  then have "h \<notin> fst ` set gs" using assms(1) by (simp add: find_index_None represents_def)
  from add_input_new [OF this, of v] None show ?thesis
    using assms(1,3,4)
    by (simp add: appendInput_def represents_def slice_cap_append_elem slice_len_def)
next
  case (Some idx)
  let ?A = "pack (take idx gs)" and ?B = "pack (drop (Suc idx) gs)"
  from find_index_Some [OF Some] assms(1) have idx: "idx < length gs" "fst (gs ! idx) = h"
    "h \<notin> fst ` set (take idx gs)"
    by (auto simp: represents_def take_map)
  then obtain vs where g: "gs ! idx = (h, vs)" by (cases "gs ! idx") auto
  have gs: "gs = take idx gs @ (h, vs) # drop (Suc idx) gs"
    using id_take_nth_drop [OF idx(1)] g by simp
  let ?c = "of_nat (length vs) :: uint32"
  have "pack (take idx gs @ (h, vs) # drop (Suc idx) gs) = ?A @ ?c # vs @ ?B" by simp
  then have P: "vout_list p = ?A @ ?c # vs @ ?B"
    using assms(1) by (simp only: gs [symmetric] represents_def)
  have "groups_ok (take idx gs @ (h, vs) # drop (Suc idx) gs)"
    using assms(2) by (simp only: gs [symmetric])
  then have c: "unat ?c = length vs" by (intro unat_uint32_of_nat) simp
  have skip: "skip_parents (vout_list p) idx 0 = Ok (length ?A)"
    using skip_parents_pack [OF assms(2), of idx "[]" "[]"] assms(1) idx(1) by (simp add: represents_def)
  have get: "index_get (vout_list p) (int (length ?A)) = Ok ?c"
    unfolding P by (rule index_get_append)
  define grown where "grown = append_elem grow 0 (voutIdxs p) 0"
  have vs: "elems grown = (?A @ ?c # vs) @ ?B @ [0]" by (simp add: grown_def P)
  have "elems grown = ((?A @ ?c # vs) @ ?B) @ [0]" using vs by simp
  then have bl: "butlast (elems grown) = (?A @ ?c # vs) @ ?B" by (simp only: butlast_snoc)
  let ?ins = "length ?A + 1 + length vs"
  have "take (?ins + 1) (elems grown) = (?A @ ?c # vs) @ take 1 (?B @ [0])" unfolding vs by simp
  moreover have "drop ?ins (butlast (elems grown)) = ?B" unfolding bl by simp
  moreover obtain x where "take 1 (?B @ [0]) = [x]" by (cases ?B) auto
  ultimately have moved: "(take (?ins + 1) (elems grown) @ drop ?ins (butlast (elems grown)))
      [?ins := v, length ?A := ?c + 1] = ?A @ (?c + 1) # vs @ v # ?B"
    by (simp add: list_update_append)
  let ?p = "p\<lparr>voutIdxs := set_elems (?A @ (?c + 1) # vs @ v # ?B) grown\<rparr>"
  have "?ins + 1 \<le> length (elems grown)" by (simp add: vs)
  then have app: "appendInput grow h v p = Ok ?p"
    using Some skip get c moved by (simp add: appendInput_def Let_def flip: grown_def)
  have len: "length (?A @ (?c + 1) # vs @ v # ?B) = length (elems grown)" by (simp add: vs)
  have "slice_cap grown = slice_cap (voutIdxs p)"
    using assms(4) by (simp add: grown_def slice_cap_append_elem)
  moreover have ai: "add_input h v gs = take idx gs @ (h, vs @ [v]) # drop (Suc idx) gs"
    using add_input_old [OF idx(3), of v vs "drop (Suc idx) gs"] by (simp only: gs [symmetric])
  then have "pack (add_input h v gs) = ?A @ (?c + 1) # vs @ v # ?B" by (simp add: add.commute)
  moreover have "map fst (take idx gs @ (h, vs) # drop (Suc idx) gs) = map fst gs"
    by (simp only: gs [symmetric])
  with ai have "map fst (add_input h v gs) = map fst gs" by simp
  ultimately show ?thesis
    using app assms(1) len
    by (intro exI [of _ ?p]) (simp add: represents_def elems_set_elems slice_cap_set_elems)
qed

text \<open>All inputs of a transaction, recorded in order.\<close>

definition group_inputs :: "('i \<Rightarrow> hash) \<Rightarrow> ('i \<Rightarrow> uint32) \<Rightarrow> 'i list \<Rightarrow> group list" where
  "group_inputs hash vout is = foldl (\<lambda>gs i. add_input (hash i) (vout i) gs) [] is"

lemma group_inputs_snoc [simp]:
  "group_inputs hash vout (is @ [i]) = add_input (hash i) (vout i) (group_inputs hash vout is)"
  "group_inputs hash vout [] = []"
  by (simp_all add: group_inputs_def)

lemma length_flatten_add_input: "length (flatten (add_input h v gs)) = Suc (length (flatten gs))"
  by (induction h v gs rule: add_input.induct) auto

lemma groups_le_flatten: "\<forall>(h, vs)\<in>set gs. length vs \<le> length (flatten gs)"
proof (induction gs)
  case (Cons g gs)
  obtain h vs where "g = (h, vs)" by fastforce
  with Cons show ?case by force
qed simp

lemma length_group_inputs: "length (flatten (group_inputs hash vout is)) = length is"
  by (induction "is" rule: rev_induct) (simp_all add: length_flatten_add_input)

lemma groups_ok_inputs: "length is < 2 ^ 32 \<Longrightarrow> groups_ok (group_inputs hash vout is)"
  using groups_le_flatten [of "group_inputs hash vout is"]
  by (force simp: groups_ok_def length_group_inputs)

lemma nonempty_add_input: "\<forall>(g, vs)\<in>set gs. vs \<noteq> [] \<Longrightarrow> \<forall>(g, vs)\<in>set (add_input h v gs). vs \<noteq> []"
  by (induction h v gs rule: add_input.induct) auto

lemma nonempty_group_inputs: "\<forall>(g, vs)\<in>set (group_inputs hash vout is). vs \<noteq> []"
proof (induction "is" rule: rev_induct)
  case (snoc i "is")
  then show ?case by (simp only: group_inputs_snoc) (rule nonempty_add_input)
qed simp

lemma length_nonempty_groups: "\<forall>(g, vs)\<in>set gs. vs \<noteq> [] \<Longrightarrow> length gs \<le> length (flatten gs)"
  by (induction gs) (auto simp: Suc_le_eq add_strict_increasing)

lemma length_groups_inputs: "length (group_inputs hash vout is) \<le> length is"
  using length_nonempty_groups [OF nonempty_group_inputs, of hash vout "is"]
  by (simp add: length_group_inputs)

lemma append_inputs_snoc:
  "append_inputs H V grow (is @ js) p = obind (append_inputs H V grow is p) (append_inputs H V grow js)"
proof (induction "is" arbitrary: p)
  case (Cons i "is")
  then show ?case by (cases "appendInput grow (H i) (V i) p") simp_all
qed simp

lemma append_inputs_represents:
  assumes "length is < 2 ^ 32" and "length is \<le> n"
    and "represents p []" and "slice_cap (ParentTxHashes p) = n" and "slice_cap (voutIdxs p) = 2 * n"
  shows "\<exists>p'. append_inputs H V grow is p = Ok p' \<and> represents p' (group_inputs H V is) \<and>
    slice_cap (ParentTxHashes p') = n \<and> slice_cap (voutIdxs p') = 2 * n"
  using assms
proof (induction "is" rule: rev_induct)
  case (snoc i "is")
  then obtain p1 where p1: "append_inputs H V grow is p = Ok p1" "represents p1 (group_inputs H V is)"
    "slice_cap (ParentTxHashes p1) = n" "slice_cap (voutIdxs p1) = 2 * n" by auto
  let ?gs = "group_inputs H V is"
  have "slice_len (ParentTxHashes p1) \<le> length is"
    using p1(2) length_groups_inputs [of H V "is"] by (simp add: represents_def slice_len_def)
  moreover have "slice_len (voutIdxs p1) \<le> 2 * length is"
    using p1(2) length_groups_inputs [of H V "is"] length_group_inputs [of H V "is"]
    by (simp add: represents_def slice_len_def length_pack)
  moreover have "groups_ok ?gs" using snoc.prems(1) by (intro groups_ok_inputs) simp
  ultimately obtain p' where "appendInput grow (H i) (V i) p1 = Ok p'"
    "represents p' (add_input (H i) (V i) ?gs)" "slice_cap (ParentTxHashes p') = n"
    "slice_cap (voutIdxs p') = 2 * n"
    using appendInput_represents [OF p1(2), of grow "H i" "V i"] p1(3,4) snoc.prems(2) by auto
  then show ?case using p1(1) by (simp add: append_inputs_snoc)
qed simp

lemma newSizedFromInputs_represents:
  assumes "length is < 2 ^ 32"
  shows "\<exists>p. newSizedFromInputs H V grow is = Ok p \<and> represents p (group_inputs H V is) \<and>
    slice_cap (ParentTxHashes p) = length is \<and> slice_cap (voutIdxs p) = 2 * length is"
proof (cases "is = []")
  case True
  then show ?thesis
    by (simp add: newSizedFromInputs_def represents_def zero_inpoints_def slice_cap_def)
next
  case False
  let ?p = "zero_inpoints\<lparr>ParentTxHashes := Slice [] (replicate (length is) 0),
    voutIdxs := Slice [] (replicate (2 * length is) 0)\<rparr>"
  have "newSizedFromInputs H V grow is = append_inputs H V grow is ?p"
    using assms False by (simp add: newSizedFromInputs_def make_slice_def max_alloc_def nat_mult_distrib)
  then show ?thesis
    using append_inputs_represents [OF assms order_refl, of ?p] by (simp add: represents_def slice_cap_def)
qed

text \<open>What the groups contain.\<close>

lemma flatten_append [simp]: "flatten (gs @ gs') = flatten gs @ flatten gs'"
  by (simp add: flatten_def)

lemma mset_flatten_add_input:
  "mset (flatten (add_input h v gs)) = add_mset \<lparr>InpointHash = h, Index = v\<rparr> (mset (flatten gs))"
  by (induction h v gs rule: add_input.induct) auto

lemma mset_group_inputs:
  "mset (flatten (group_inputs H V is)) = mset (map (\<lambda>i. \<lparr>InpointHash = H i, Index = V i\<rparr>) is)"
  by (induction "is" rule: rev_induct) (simp_all add: mset_flatten_add_input)

lemma parents_add_input:
  "map fst (add_input h v gs) = (if h \<in> fst ` set gs then map fst gs else map fst gs @ [h])"
  by (induction h v gs rule: add_input.induct) auto

lemma distinct_group_inputs:
  "distinct (map fst (group_inputs H V is)) \<and> fst ` set (group_inputs H V is) = H ` set is"
proof (induction "is" rule: rev_induct)
  case (snoc i "is")
  have "fst ` set (add_input h v gs) = insert h (fst ` set gs)" for h v gs
    using arg_cong [OF parents_add_input [of h v gs], of set] by auto
  with snoc show ?case by (auto simp: parents_add_input)
qed simp

lemma vouts_add_input:
  "distinct (map fst gs) \<Longrightarrow> (g, vs) \<in> set (add_input h v gs) \<Longrightarrow>
    (if g = h then (\<exists>us. vs = us @ [v] \<and> ((h, us) \<in> set gs \<or> us = [] \<and> h \<notin> fst ` set gs))
     else (g, vs) \<in> set gs)"
  by (induction h v gs rule: add_input.induct) (force split: if_splits)+

lemma vouts_group_inputs:
  "(g, vs) \<in> set (group_inputs H V is) \<Longrightarrow> vs = map V (filter (\<lambda>i. H i = g) is)"
proof (induction "is" arbitrary: g vs rule: rev_induct)
  case (snoc i "is")
  from vouts_add_input [OF conjunct1 [OF distinct_group_inputs], of g vs "H i" "V i" H V "is"] snoc.prems
  have *: "if g = H i then (\<exists>us. vs = us @ [V i] \<and> ((H i, us) \<in> set (group_inputs H V is) \<or>
      us = [] \<and> H i \<notin> fst ` set (group_inputs H V is))) else (g, vs) \<in> set (group_inputs H V is)"
    by simp
  show ?case
  proof (cases "g = H i")
    case True
    with * obtain us where us: "vs = us @ [V i]"
      "(H i, us) \<in> set (group_inputs H V is) \<or> us = [] \<and> H i \<notin> H ` set is"
      using distinct_group_inputs [of H V "is"] by auto
    moreover have "filter (\<lambda>j. H j = H i) is = []" if "H i \<notin> H ` set is"
      using that by (simp add: filter_empty_conv) (metis imageI)
    ultimately show ?thesis using snoc.IH [of "H i" us] True by auto
  next
    case False
    with * snoc.IH [of g vs] show ?thesis by simp
  qed
qed simp

section \<open>The wire format\<close>

definition encode_groups :: "group list \<Rightarrow> byte list" where
  "encode_groups gs = put_uint32 (of_nat (length gs)) @ concat (map hash_bytes (map fst gs)) @
     concat (map put_uint32 (pack gs))"

fun unpack :: "hash list \<Rightarrow> uint32 list \<Rightarrow> group list" where
  "unpack (h # hs) (c # vs) = (h, take (unat c) vs) # unpack hs (drop (unat c) vs)"
| "unpack _ _ = []"

definition read_groups :: "growth \<Rightarrow> group list decoder" where
  "read_groups grow = dmap (\<lambda>p. unpack (parent_list p) (vout_list p)) (NewTxInpointsFromReader grow)"

definition wire_ok :: "group list \<Rightarrow> bool" where
  "wire_ok gs = (length gs < 2 ^ 32 \<and> groups_ok gs)"

lemma unpack_pack: "groups_ok gs \<Longrightarrow> unpack (map fst gs) (pack gs) = gs"
proof (induction gs)
  case (Cons g gs)
  obtain h vs where "g = (h, vs)" by fastforce
  with Cons unat_uint32_of_nat [of "length vs"] show ?case by simp
qed simp

lemma Serialize_represents:
  assumes "represents p gs" and "length gs < 2 ^ 32"
  shows "TxInpoints_Serialize p = Ok (encode_groups gs)"
proof -
  have "len32 (ParentTxHashes p) = of_nat (length gs)"
    using assms by (cases "ParentTxHashes p") (auto simp: len32_def represents_def slice_len_def)
  then show ?thesis
    using assms by (auto simp: TxInpoints_Serialize_def represents_def slice_len_def encode_groups_def
        length_pack Let_def)
qed

lemma loads_vouts:
  "\<exists>p'. loads (load_vouts grow (length vs)) (concat (map put_uint32 vs)) p p' \<and>
    vout_list p' = vout_list p @ vs \<and> ParentTxHashes p' = ParentTxHashes p \<and>
    SubtreeIndex p' = SubtreeIndex p"
proof (induction vs arbitrary: p)
  case (Cons v vs)
  let ?p = "p\<lparr>voutIdxs := append_elem grow 0 (voutIdxs p) v\<rparr>"
  obtain p' where p': "loads (load_vouts grow (length vs)) (concat (map put_uint32 vs)) ?p p'"
    "vout_list p' = vout_list ?p @ vs" "ParentTxHashes p' = ParentTxHashes p"
    "SubtreeIndex p' = SubtreeIndex p"
    using Cons.IH [of ?p] by auto
  have "loads (load_bind ''unable to read parent index: %w'' read_uint32
      (\<lambda>v. load_set (\<lambda>p. p\<lparr>voutIdxs := append_elem grow 0 (voutIdxs p) v\<rparr>))) (put_uint32 v @ []) p ?p"
    by (rule loads_bind [OF uint32_codec.codec_axioms]) auto
  from loads_seq [OF this p'(1)] show ?case using p' by (intro exI [of _ p']) simp
next
  case Nil
  show ?case by (rule exI [of _ p]) (simp add: loads_set)
qed

lemma loads_groups:
  "groups_ok gs \<Longrightarrow>
    \<exists>p'. loads (load_groups grow (length gs)) (concat (map put_uint32 (pack gs))) p p' \<and>
    vout_list p' = vout_list p @ pack gs \<and> ParentTxHashes p' = ParentTxHashes p \<and>
    SubtreeIndex p' = SubtreeIndex p"
proof (induction gs arbitrary: p)
  case (Cons g gs)
  obtain h vs where g: "g = (h, vs)" by fastforce
  let ?c = "of_nat (length vs) :: uint32"
  have c: "unat ?c = length vs" using Cons.prems g by (intro unat_uint32_of_nat) simp
  let ?p = "p\<lparr>voutIdxs := append_elem grow 0 (voutIdxs p) ?c\<rparr>"
  obtain p1 where p1: "loads (load_vouts grow (length vs)) (concat (map put_uint32 vs)) ?p p1"
    "vout_list p1 = vout_list ?p @ vs" "ParentTxHashes p1 = ParentTxHashes p"
    "SubtreeIndex p1 = SubtreeIndex p"
    using loads_vouts [of grow vs ?p] by auto
  obtain p2 where p2: "loads (load_groups grow (length gs)) (concat (map put_uint32 (pack gs))) p1 p2"
    "vout_list p2 = vout_list p1 @ pack gs" "ParentTxHashes p2 = ParentTxHashes p1"
    "SubtreeIndex p2 = SubtreeIndex p1"
    using Cons.IH [of p1] Cons.prems g by auto
  have "loads (load_seq (load_set (\<lambda>p. p\<lparr>voutIdxs := append_elem grow 0 (voutIdxs p) ?c\<rparr>))
      (load_vouts grow (unat ?c))) ([] @ concat (map put_uint32 vs)) p p1"
    unfolding c by (rule loads_seq [OF loads_set p1(1)]) simp
  then have "loads (load_bind ''unable to read number of parent indexes: %w'' read_uint32 (\<lambda>count.
      load_seq (load_set (\<lambda>p. p\<lparr>voutIdxs := append_elem grow 0 (voutIdxs p) count\<rparr>))
        (load_vouts grow (unat count)))) (put_uint32 ?c @ concat (map put_uint32 vs)) p p1"
    by (intro loads_bind [OF uint32_codec.codec_axioms]) simp_all
  from loads_seq [OF this p2(1)] show ?case
    using p1 p2 g by (intro exI [of _ p2]) simp
next
  case Nil
  show ?case by (rule exI [of _ p]) (simp add: loads_set)
qed

lemma loads_inpoints:
  assumes "wire_ok gs"
  shows "\<exists>p. loads (TxInpoints_deserializeFromReader grow) (encode_groups gs) zero_inpoints p \<and>
    represents p gs \<and> SubtreeIndex p = 0 \<and> (gs = [] \<longrightarrow> p = zero_inpoints)"
proof (cases "gs = []")
  case True
  have "loads (TxInpoints_deserializeFromReader grow) (put_uint32 0 @ []) zero_inpoints zero_inpoints"
    unfolding TxInpoints_deserializeFromReader_def
    by (rule loads_bind [OF uint32_codec.codec_axioms]) auto
  with True show ?thesis
    by (intro exI [of _ zero_inpoints]) (simp add: encode_groups_def represents_def zero_inpoints_def)
next
  case False
  let ?n = "of_nat (length gs) :: uint32"
  have n: "length gs < 2 ^ 32" "groups_ok gs" using assms by (simp_all add: wire_ok_def)
  have un: "unat ?n = length gs" using n(1) by (rule unat_uint32_of_nat)
  then have u: "uint ?n = int (length gs)" "?n \<noteq> 0"
    using False by (simp_all add: uint_nat) (metis unat_0 length_0_conv)
  let ?hs = "map fst gs"
  let ?p1 = "zero_inpoints\<lparr>ParentTxHashes := Slice (replicate (length gs) 0) []\<rparr>"
  let ?p2 = "zero_inpoints\<lparr>ParentTxHashes := Slice ?hs []\<rparr>"
  obtain vs where vs: "make_slice 4 (0 :: uint32) 0 (uint (?n * 2)) = Ok vs" "elems vs = []"
  proof -
    have "uint (?n * 2) < 2 ^ 32" using uint_bounded [of "?n * 2"] by simp
    then have "make_slice 4 (0 :: uint32) 0 (uint (?n * 2)) =
        Ok (Slice [] (replicate (nat (uint (?n * 2))) 0))"
      by (simp add: make_slice_def max_alloc_def)
    then show thesis by (rule that) simp
  qed
  let ?p3 = "?p2\<lparr>voutIdxs := vs\<rparr>"
  obtain p where p: "loads (load_groups grow (length gs)) (concat (map put_uint32 (pack gs))) ?p3 p"
    "vout_list p = vout_list ?p3 @ pack gs" "ParentTxHashes p = ParentTxHashes ?p3"
    "SubtreeIndex p = SubtreeIndex ?p3"
    using loads_groups [OF n(2), of grow ?p3] by blast
  have s1: "loads (load_step (\<lambda>p. omap (\<lambda>hs. p\<lparr>ParentTxHashes := hs\<rparr>)
      (make_slice 32 0 (uint ?n) (uint ?n)))) [] zero_inpoints ?p1"
    using n(1) by (intro loads_step) (simp add: u make_slice_def max_alloc_def)
  have s2: "loads (\<lambda>p r. case fill_hashes (unat ?n) 0 (parent_list p) r of
      (r', hs, res) \<Rightarrow> (r', p\<lparr>ParentTxHashes := set_elems hs (ParentTxHashes p)\<rparr>,
        wrapping ''unable to read parent tx hash: %w'' res)) (concat (map hash_bytes ?hs)) ?p1 ?p2"
    using loads_hashes [where hs = ?hs and get = parent_list and st = ?p1
        and upd = "\<lambda>hs p. p\<lparr>ParentTxHashes := set_elems hs (ParentTxHashes p)\<rparr>"]
    by (simp add: un)
  have s3: "loads (load_step (\<lambda>p. omap (\<lambda>vs. p\<lparr>voutIdxs := vs\<rparr>)
      (make_slice 4 0 0 (uint (?n * 2))))) [] ?p2 ?p3"
    by (rule loads_step) (simp add: vs(1))
  note all = loads_seq [OF s1 loads_seq [OF s2 loads_seq [OF s3 p(1)]]]
  have "loads (TxInpoints_deserializeFromReader grow)
      (put_uint32 ?n @ [] @ concat (map hash_bytes ?hs) @ [] @ concat (map put_uint32 (pack gs)))
      zero_inpoints p"
    unfolding TxInpoints_deserializeFromReader_def
    by (rule loads_bind [OF uint32_codec.codec_axioms]) (use all u(2) in \<open>simp_all add: un\<close>)
  then show ?thesis
    using p(2-4) vs(2) False
    by (intro exI [of _ p]) (simp add: encode_groups_def represents_def zero_inpoints_def)
qed

interpretation inpoints_codec: codec encode_groups "read_groups grow" wire_ok for grow
proof
  fix gs and r :: reader
  assume gs: "wire_ok gs"
  then obtain p where l: "loads (TxInpoints_deserializeFromReader grow) (encode_groups gs) zero_inpoints p"
    and p: "represents p gs" using loads_inpoints by blast
  have "unpack (parent_list p) (vout_list p) = gs"
    using p gs unpack_pack by (simp add: represents_def wire_ok_def)
  then show "rdata r = encode_groups gs @ rest \<Longrightarrow> read_groups grow r = (r\<lparr>rdata := rest\<rparr>, Ok gs)" for rest
    using loadsD(1) [OF l] by (simp add: read_groups_def NewTxInpointsFromReader_def dmap_def)
  show "strict_prefix (rdata r) (encode_groups gs) \<Longrightarrow> \<exists>r' e. read_groups grow r = (r', Fail e)"
    using loadsD(2) [OF l, of r]
    by (auto simp: read_groups_def NewTxInpointsFromReader_def dmap_def is_fail_iff split: prod.split)
qed

section \<open>Reading never panics\<close>

definition quiet :: "'s loader \<Rightarrow> bool" where
  "quiet l = (\<forall>st r. \<not> is_panic (snd (snd (l st r))))"

lemma quiet_set: "quiet (load_set f)"
  by (simp add: quiet_def load_set_def)

lemma load_seq_no_panic:
  assumes "\<not> is_panic (snd (snd (a st r)))" and "quiet b"
  shows "\<not> is_panic (snd (snd (load_seq a b st r)))"
proof -
  obtain r' st' x where "a st r = (r', st', x)" by (rule prod_cases3)
  with assms show ?thesis by (cases x) (auto simp: load_seq_def quiet_def)
qed

lemma quiet_seq: "quiet a \<Longrightarrow> quiet b \<Longrightarrow> quiet (load_seq a b)"
  by (metis load_seq_no_panic quiet_def)

lemma quiet_step_seq:
  "(\<And>st. \<exists>st'. f st = Ok st' \<and> (\<forall>r. \<not> is_panic (snd (snd (l st' r))))) \<Longrightarrow>
    quiet (load_seq (load_step f) l)"
  unfolding quiet_def load_seq_def load_step_def
  by (metis (mono_tags, lifting) case_prod_conv outcome.simps(10))

lemma quiet_bind:
  assumes "\<And>r. \<not> is_panic (snd (dec r))" and "\<And>x. quiet (f x)"
  shows "quiet (load_bind fmt dec f)"
  unfolding quiet_def
proof (intro allI)
  fix st r
  obtain r' x where "dec r = (r', x)" by (rule prod.exhaust)
  with assms(1) [of r] assms(2) show "\<not> is_panic (snd (snd (load_bind fmt dec f st r)))"
    by (cases x) (simp_all add: load_bind_def quiet_def)
qed

lemma quiet_vouts: "quiet (load_vouts grow n)"
  by (induction n) (auto intro!: quiet_set quiet_seq quiet_bind)

lemma quiet_groups: "quiet (load_groups grow n)"
  by (induction n) (auto intro!: quiet_set quiet_seq quiet_bind quiet_vouts)

lemma fill_hashes_no_panic:
  assumes "i + k \<le> length arr"
  shows "\<not> is_panic (snd (snd (fill_hashes k i arr r)))"
proof -
  obtain r1 arr1 x where f: "fill_array read_hash k i arr r = (r1, arr1, x)" by (rule prod_cases3)
  with fill_array_no_panic [of read_hash i k arr r] assms have "\<not> is_panic x" by simp
  with fill_hashes_fill_array [OF f] assms show ?thesis by auto
qed

lemma TxInpoints_deserializeFromReader_quiet: "quiet (TxInpoints_deserializeFromReader grow)"
  unfolding TxInpoints_deserializeFromReader_def
proof (intro quiet_bind)
  fix n :: uint32
  let ?fill = "\<lambda>p r. case fill_hashes (unat n) 0 (parent_list p) r of (r', hs, res) \<Rightarrow>
    (r', p\<lparr>ParentTxHashes := set_elems hs (ParentTxHashes p)\<rparr>,
     wrapping ''unable to read parent tx hash: %w'' res)"
  let ?rest = "load_seq (load_step (\<lambda>p. omap (\<lambda>vs. p\<lparr>voutIdxs := vs\<rparr>)
    (make_slice 4 0 0 (uint (n * 2))))) (load_groups grow (unat n))"
  have "uint n < 2 ^ 32" using uint_bounded [of n] by simp
  then have mk: "make_slice 32 (0 :: hash) (uint n) (uint n) = Ok (Slice (replicate (unat n) 0) [])"
    by (simp add: make_slice_def max_alloc_def)
  have "uint (n * 2) < 2 ^ 32" using uint_bounded [of "n * 2"] by simp
  then have "make_slice 4 (0 :: uint32) 0 (uint (n * 2)) = Ok (Slice [] (replicate (nat (uint (n * 2))) 0))"
    by (simp add: make_slice_def max_alloc_def)
  then have rest: "quiet ?rest"
    using quiet_groups [of grow "unat n"] by (intro quiet_step_seq) (simp add: quiet_def)
  have fill: "\<not> is_panic (snd (snd (?fill (p\<lparr>ParentTxHashes := Slice (replicate (unat n) 0) []\<rparr>) r)))"
    for p r
    using fill_hashes_no_panic [of 0 "unat n" "replicate (unat n) 0" r] by (auto split: prod.split)
  have "quiet (load_seq (load_step (\<lambda>p. omap (\<lambda>hs. p\<lparr>ParentTxHashes := hs\<rparr>)
      (make_slice 32 0 (uint n) (uint n)))) (load_seq ?fill ?rest))"
  proof (rule quiet_step_seq)
    fix p
    show "\<exists>p'. omap (\<lambda>hs. p\<lparr>ParentTxHashes := hs\<rparr>) (make_slice 32 0 (uint n) (uint n)) = Ok p' \<and>
        (\<forall>r. \<not> is_panic (snd (snd (load_seq ?fill ?rest p' r))))"
      using load_seq_no_panic [where a = ?fill, OF fill rest] by (simp add: mk)
  qed
  then show "quiet (if n = 0 then load_set (\<lambda>p. p)
      else load_seq (load_step (\<lambda>p. omap (\<lambda>hs. p\<lparr>ParentTxHashes := hs\<rparr>)
        (make_slice 32 0 (uint n) (uint n)))) (load_seq ?fill ?rest))"
    by (simp add: quiet_set)
qed simp

section \<open>Properties\<close>

text \<open>Three inputs, two of them from parent 7.\<close>

definition example_inputs :: "(hash \<times> uint32) list" where
  "example_inputs = [(7, 1), (8, 0), (7, 3)]"

lemma example_groups: "group_inputs fst snd example_inputs = [(7, [1, 3]), (8, [0])]"
  by (simp add: group_inputs_def example_inputs_def)

text \<open>C8: Building the inpoints of a transaction groups its inputs: every input is found once in
  \<open>GetTxInpoints\<close>, the parents are distinct and are those of the inputs, the output indexes of a parent
  are those of its inputs in their order (also through \<open>GetParentVoutsAtIndex\<close>), and neither slice is
  ever moved to a larger array.\<close>

theorem inputs_grouped:
  assumes "length inputs < 2 ^ 32"
  shows "\<exists>p is. newSizedFromInputs H V grow inputs = Ok p \<and>
    GetTxInpoints p = Ok is \<and> mset is = mset (map (\<lambda>i. \<lparr>InpointHash = H i, Index = V i\<rparr>) inputs) \<and>
    distinct (parent_list p) \<and> set (parent_list p) = H ` set inputs \<and>
    (\<forall>k < length (parent_list p). GetParentVoutsAtIndex (int k) p =
      Ok (map V (filter (\<lambda>i. H i = parent_list p ! k) inputs))) \<and>
    slice_cap (ParentTxHashes p) = length inputs \<and> slice_cap (voutIdxs p) = 2 * length inputs"
proof -
  let ?gs = "group_inputs H V inputs"
  obtain p where p: "newSizedFromInputs H V grow inputs = Ok p" "represents p ?gs"
    "slice_cap (ParentTxHashes p) = length inputs" "slice_cap (voutIdxs p) = 2 * length inputs"
    using newSizedFromInputs_represents [OF assms] by blast
  have ok: "groups_ok ?gs" using assms by (rule groups_ok_inputs)
  have "36 * int (length (flatten ?gs)) \<le> max_alloc"
    using assms by (simp add: length_group_inputs max_alloc_def)
  then have get: "GetTxInpoints p = Ok (flatten ?gs)" by (rule GetTxInpoints_represents [OF p(2) ok])
  have parents: "parent_list p = map fst ?gs" using p(2) by (simp add: represents_def)
  have "GetParentVoutsAtIndex (int k) p = Ok (map V (filter (\<lambda>i. H i = parent_list p ! k) inputs))"
    if "k < length (parent_list p)" for k
  proof -
    have k: "k < length ?gs" using that parents by simp
    obtain g vs where g: "?gs ! k = (g, vs)" by (rule prod.exhaust)
    then have "vs = map V (filter (\<lambda>i. H i = g) inputs)"
      using nth_mem [OF k] by (intro vouts_group_inputs) simp
    then show ?thesis
      using voutSliceForParent_represents [OF p(2) ok k] k g
      by (simp add: GetParentVoutsAtIndex_def slice_len_def parents)
  qed
  then show ?thesis
    using p get parents distinct_group_inputs [of H V inputs] mset_group_inputs [of H V inputs] by simp
qed

theorem inputs_grouped_witness:
  "\<exists>p. newSizedFromInputs fst snd (\<lambda>a b. b) example_inputs = Ok p \<and>
    set (parent_list p) = {7, 8} \<and> slice_cap (voutIdxs p) = 6"
  using inputs_grouped [of example_inputs fst snd "\<lambda>a b. b"] by (auto simp: example_inputs_def)

text \<open>C15: Inpoints survive their serialization, whatever follows the bytes; a serialization that is cut
  short is refused with an error.\<close>

theorem inpoints_roundtrip:
  assumes "represents p gs" and "wire_ok gs"
  shows "\<exists>b p'. TxInpoints_Serialize p = Ok b \<and> represents p' gs \<and>
    NewTxInpointsFromReader grow (bytes_reader (b @ rest)) = (bytes_reader rest, Ok p') \<and>
    (\<forall>q. strict_prefix q b \<longrightarrow> is_fail (NewTxInpointsFromBytes grow q))"
proof -
  obtain p' where l: "loads (TxInpoints_deserializeFromReader grow) (encode_groups gs) zero_inpoints p'"
    and p': "represents p' gs" using loads_inpoints [OF assms(2)] by blast
  have "NewTxInpointsFromReader grow (bytes_reader (encode_groups gs @ rest)) = (bytes_reader rest, Ok p')"
    using loadsD(1) [OF l, of "bytes_reader (encode_groups gs @ rest)" rest]
    by (simp add: NewTxInpointsFromReader_def bytes_reader_def)
  moreover have "is_fail (NewTxInpointsFromBytes grow q)" if "strict_prefix q (encode_groups gs)" for q
    using loadsD(2) [OF l, of "bytes_reader q"] that
    by (auto simp: NewTxInpointsFromBytes_def NewTxInpointsFromReader_def is_fail_iff split: prod.split)
  ultimately show ?thesis
    using Serialize_represents [OF assms(1)] assms(2) p' by (auto simp: wire_ok_def)
qed

theorem inpoints_roundtrip_witness:
  "\<exists>p b p'. newSizedFromInputs fst snd (\<lambda>a b. b) example_inputs = Ok p \<and>
    TxInpoints_Serialize p = Ok b \<and> snd (NewTxInpointsFromReader (\<lambda>a b. b) (bytes_reader (b @ [1]))) = Ok p' \<and>
    GetTxInpoints p' = Ok [\<lparr>InpointHash = 7, Index = 1\<rparr>, \<lparr>InpointHash = 7, Index = 3\<rparr>, \<lparr>InpointHash = 8, Index = 0\<rparr>]"
proof -
  let ?gs = "[(7, [1, 3]), (8, [0])] :: group list"
  obtain p where p: "newSizedFromInputs fst snd (\<lambda>a b. b) example_inputs = Ok p" "represents p ?gs"
    using newSizedFromInputs_represents [of example_inputs fst snd "\<lambda>a b. b"] example_groups
    by (auto simp: example_inputs_def)
  have "wire_ok ?gs" by (simp add: wire_ok_def)
  from inpoints_roundtrip [OF p(2) this, of "\<lambda>a b. b" "[1]"] obtain b p' where
    b: "TxInpoints_Serialize p = Ok b" "represents p' ?gs"
      "NewTxInpointsFromReader (\<lambda>a b. b) (bytes_reader (b @ [1])) = (bytes_reader [1], Ok p')" by blast
  moreover have "GetTxInpoints p' = Ok (flatten ?gs)"
    using b(2) by (rule GetTxInpoints_represents) (simp_all add: max_alloc_def)
  ultimately show ?thesis using p(1) by auto
qed

text \<open>C31: Reading inpoints never panics, whatever the input: the array of parents is allocated from the
  count in the bytes but always within what can be allocated, and no index is out of range.\<close>

theorem inpoints_reader_never_panics:
  "\<not> is_panic (snd (NewTxInpointsFromReader grow r)) \<and> \<not> is_panic (NewTxInpointsFromBytes grow b)"
proof -
  have "\<not> is_panic (snd (NewTxInpointsFromReader grow r))" for r
    using TxInpoints_deserializeFromReader_quiet [of grow]
    by (simp add: NewTxInpointsFromReader_def quiet_def split: prod.split) (metis snd_conv)
  then show ?thesis by (simp add: NewTxInpointsFromBytes_def)
qed

end
