(* ===== verification/Subtree_Meta.thy ===== *)
theory Subtree_Meta
  imports Subtree_Codec Inpoints
begin

text \<open>
  \<open>subtree_meta.go\<close>: the inpoints of every node of a subtree and their file format.  The subtree is
  a pointer shared with the caller; the model keeps its value and returns it updated (the node
  index and the cached root are filled through it).  \<open>safe.IntToUint32\<close> and the methods of \<open>bt.Tx\<close>
  are parameters.
\<close>

record meta =
  MetaSubtree :: "subtree option"
  MetaTxInpoints :: "tx_inpoints list"
  MetaRootHash :: hash

section \<open>The code\<close>

definition make_inpoints :: "subtree option \<Rightarrow> tx_inpoints list outcome" where
  "make_inpoints subtree =
     (case subtree of
        None \<Rightarrow> Panic NilDereference
      | Some s \<Rightarrow> omap elems (make_slice 56 zero_inpoints (int (Size s)) (int (Size s))))"

definition NewSubtreeMeta :: "subtree option \<Rightarrow> meta outcome" where
  "NewSubtreeMeta s =
     omap (\<lambda>xs. \<lparr>MetaSubtree = s, MetaTxInpoints = xs, MetaRootHash = 0\<rparr>) (make_inpoints s)"

definition deserializeTxInpointsFromReader :: "growth \<Rightarrow> uint32 \<Rightarrow> meta loader" where
  "deserializeTxInpointsFromReader grow txInpointsLen =
     load_array ''unable to deserialize parent outpoints: %w'' (NewTxInpointsFromReader grow)
       (unat txInpointsLen) MetaTxInpoints (\<lambda>xs m. m\<lparr>MetaTxInpoints := xs\<rparr>)"

definition Meta_deserializeFromReader :: "growth \<Rightarrow> meta loader" where
  "Meta_deserializeFromReader grow =
     load_bind ''unable to read root hash: %w'' read_hash (\<lambda>hashBytes.
       load_seq (load_set (\<lambda>m. m\<lparr>MetaRootHash := hashBytes\<rparr>))
         (load_bind ''unable to read number of parent tx hashes: %w'' read_uint32 (\<lambda>txInpointsLen.
           load_seq (load_step (\<lambda>m. omap (\<lambda>xs. m\<lparr>MetaTxInpoints := xs\<rparr>) (make_inpoints (MetaSubtree m))))
             (deserializeTxInpointsFromReader grow txInpointsLen))))"

definition NewSubtreeMetaFromBytes :: "growth \<Rightarrow> subtree option \<Rightarrow> byte list \<Rightarrow> meta outcome" where
  "NewSubtreeMetaFromBytes grow s dataBytes =
     (case Meta_deserializeFromReader grow
         \<lparr>MetaSubtree = s, MetaTxInpoints = [], MetaRootHash = 0\<rparr> (bytes_reader dataBytes) of
        (r, m, res) \<Rightarrow> wrapping ''unable to create subtree meta from bytes: %w'' (omap (\<lambda>_. m) res))"

definition NewSubtreeMetaFromReader :: "growth \<Rightarrow> subtree option \<Rightarrow> meta decoder" where
  "NewSubtreeMetaFromReader grow s r =
     (case make_inpoints s of
        Ok xs \<Rightarrow>
          (case Meta_deserializeFromReader grow
              \<lparr>MetaSubtree = s, MetaTxInpoints = xs, MetaRootHash = 0\<rparr> r of
             (r', m, res) \<Rightarrow>
               (r', wrapping ''unable to create subtree meta from reader: %w'' (omap (\<lambda>_. m) res)))
      | Fail e \<Rightarrow> (r, Fail e)
      | Panic p \<Rightarrow> (r, Panic p))"

definition Meta_GetParentTxHashes :: "int \<Rightarrow> meta \<Rightarrow> hash list outcome" where
  "Meta_GetParentTxHashes index m =
     (if index \<ge> int (length (MetaTxInpoints m)) then Fail ErrIndexOutOfRange
      else omap GetParentTxHashes (index_get (MetaTxInpoints m) index))"

definition Meta_GetTxInpoints :: "int \<Rightarrow> meta \<Rightarrow> inpoint list outcome" where
  "Meta_GetTxInpoints index m =
     (if index \<ge> int (length (MetaTxInpoints m)) then
        Fail (Wrap ''getting tx inpoints: %w'' [ErrIndexOutOfRange])
      else obind (index_get (MetaTxInpoints m) index) GetTxInpoints)"

definition SetTxInpointsFromTx ::
  "('tx \<Rightarrow> hash) \<Rightarrow> ('tx \<Rightarrow> 'i list) \<Rightarrow> ('i \<Rightarrow> hash) \<Rightarrow> ('i \<Rightarrow> uint32) \<Rightarrow> growth \<Rightarrow> 'tx \<Rightarrow> meta \<Rightarrow>
    meta \<times> unit outcome" where
  "SetTxInpointsFromTx TxIDChainHash Inputs PreviousTxIDChainHash PreviousTxOutIndex grow tx m =
     (case MetaSubtree m of
        None \<Rightarrow> (m, Panic NilDereference)
      | Some s \<Rightarrow>
          (case NodeIndex (TxIDChainHash tx) s of
             (s', index) \<Rightarrow>
               (let m1 = m\<lparr>MetaSubtree := Some s'\<rparr> in
                if index = - 1 then
                  (m1, Fail (Wrap ''[SetParentTxHashesFromTx][%s] %w'' [ErrNodeNotFound]))
                else
                  (case obind (NewTxInpointsFromTx Inputs PreviousTxIDChainHash PreviousTxOutIndex grow tx)
                       (index_set (MetaTxInpoints m1) index) of
                     Ok xs \<Rightarrow> (m1\<lparr>MetaTxInpoints := xs\<rparr>, Ok ())
                   | Fail e \<Rightarrow> (m1, Fail e)
                   | Panic p \<Rightarrow> (m1, Panic p)))))"

definition SetTxInpoints :: "int \<Rightarrow> tx_inpoints \<Rightarrow> meta \<Rightarrow> meta \<times> unit outcome" where
  "SetTxInpoints idx txInpoints m =
     (if idx \<ge> int (length (MetaTxInpoints m)) then (m, Fail ErrIndexOutOfRange)
      else
        (case index_set (MetaTxInpoints m) idx txInpoints of
           Ok xs \<Rightarrow> (m\<lparr>MetaTxInpoints := xs\<rparr>, Ok ())
         | Fail e \<Rightarrow> (m, Fail e)
         | Panic p \<Rightarrow> (m, Panic p)))"

text \<open>The check in front of the serialization, for \<open>i\<close> and the \<open>k - 1\<close> nodes behind it.\<close>

fun check_inpoints_set :: "tx_inpoints list \<Rightarrow> nat \<Rightarrow> nat \<Rightarrow> unit outcome" where
  "check_inpoints_set xs 0 i = Ok ()"
| "check_inpoints_set xs (Suc k) i =
     (if i = 0 then check_inpoints_set xs k (i + 1)
      else
        obind (index_get xs (int i)) (\<lambda>p.
        if ParentTxHashes p = NilSlice then
          Fail (Wrap ''cannot serialize, parent tx hashes are not set for node %d: %s: %w''
                 [ErrCannotSerializeSubtreeNotSet])
        else check_inpoints_set xs k (i + 1)))"

fun write_inpoints :: "tx_inpoints list \<Rightarrow> nat \<Rightarrow> nat \<Rightarrow> byte list outcome" where
  "write_inpoints xs 0 i = Ok []"
| "write_inpoints xs (Suc k) i =
     obind (index_get xs (int i)) (\<lambda>p.
     obind (wrapping ''cannot serialize, unable to write parent tx hash: %w'' (TxInpoints_Serialize p)) (\<lambda>b.
     omap (\<lambda>bs. b @ bs) (write_inpoints xs k (i + 1))))"

definition serializeTxInpoints :: "(int \<Rightarrow> uint32 outcome) \<Rightarrow> subtree \<Rightarrow> tx_inpoints list \<Rightarrow> byte list outcome" where
  "serializeTxInpoints IntToUint32 s xs =
     obind (wrapping ''cannot serialize, unable to get safe uint32: %w'' (IntToUint32 (int (Length s))))
       (\<lambda>parentTxHashesLen32.
     omap (\<lambda>bs. put_uint32 parentTxHashesLen32 @ bs) (write_inpoints xs (unat parentTxHashesLen32) 0))"

definition Meta_Serialize ::
  "(int \<Rightarrow> uint32 outcome) \<Rightarrow> sha256 \<Rightarrow> meta \<Rightarrow> meta \<times> byte list outcome" where
  "Meta_Serialize IntToUint32 sha m =
     (case MetaSubtree m of
        None \<Rightarrow> (m, Fail ErrCannotSerializeSubtreeNotSet)
      | Some s \<Rightarrow>
          (case check_inpoints_set (MetaTxInpoints m) (Length s) 0 of
             Fail e \<Rightarrow> (m, Fail e)
           | Panic p \<Rightarrow> (m, Panic p)
           | Ok _ \<Rightarrow>
               (case root_hash sha s of
                  (s', Ok (Some root)) \<Rightarrow>
                    (m\<lparr>MetaSubtree := Some s', MetaRootHash := root\<rparr>,
                     omap (\<lambda>bs. hash_bytes root @ bs) (serializeTxInpoints IntToUint32 s' (MetaTxInpoints m)))
                | (s', Ok None) \<Rightarrow> (m\<lparr>MetaSubtree := Some s'\<rparr>, Panic NilDereference)
                | (s', Fail e) \<Rightarrow> (m\<lparr>MetaSubtree := Some s'\<rparr>, Fail e)
                | (s', Panic p) \<Rightarrow> (m\<lparr>MetaSubtree := Some s'\<rparr>, Panic p))))"

section \<open>Inpoints that represent groups\<close>

text \<open>The first \<open>length gss\<close> inpoints represent the groups, and all but the first are set.\<close>

definition holds_groups :: "group list list \<Rightarrow> tx_inpoints list \<Rightarrow> bool" where
  "holds_groups gss xs =
     (length gss \<le> length xs \<and> (\<forall>i < length gss. represents (xs ! i) (gss ! i) \<and> wire_ok (gss ! i)))"

definition all_set :: "tx_inpoints list \<Rightarrow> nat \<Rightarrow> nat \<Rightarrow> bool" where
  "all_set xs i k = (\<forall>j. i \<le> j \<and> j < i + k \<and> j \<noteq> 0 \<longrightarrow> ParentTxHashes (xs ! j) \<noteq> NilSlice)"

lemma all_set_Suc:
  "all_set xs i (Suc k) \<longleftrightarrow> (i = 0 \<or> ParentTxHashes (xs ! i) \<noteq> NilSlice) \<and> all_set xs (Suc i) k"
proof -
  have "i \<le> j \<and> j < i + Suc k \<longleftrightarrow> j = i \<or> Suc i \<le> j \<and> j < Suc i + k" for j by auto
  then show ?thesis unfolding all_set_def by (metis neq0_conv)
qed

abbreviation not_set_error :: go_error where
  "not_set_error \<equiv> Wrap ''cannot serialize, parent tx hashes are not set for node %d: %s: %w''
     [ErrCannotSerializeSubtreeNotSet]"

lemma check_inpoints_set_eq:
  "i + k \<le> length xs \<Longrightarrow>
    check_inpoints_set xs k i = (if all_set xs i k then Ok () else Fail not_set_error)"
proof (induction k arbitrary: i)
  case 0
  show ?case by (simp add: all_set_def)
next
  case (Suc k)
  with Suc.IH [of "Suc i"] show ?case by (auto simp: index_get_nat all_set_Suc)
qed

lemma write_inpoints_eq:
  "holds_groups gss xs \<Longrightarrow> i + k \<le> length gss \<Longrightarrow>
    write_inpoints xs k i = Ok (concat (map encode_groups (take k (drop i gss))))"
proof (induction k arbitrary: i)
  case (Suc k)
  then have i: "i < length gss" "i < length xs" by (auto simp: holds_groups_def)
  then have "TxInpoints_Serialize (xs ! i) = Ok (encode_groups (gss ! i))"
    using Suc.prems(1) by (intro Serialize_represents) (auto simp: holds_groups_def wire_ok_def)
  moreover have "take (Suc k) (drop i gss) = gss ! i # take k (drop (Suc i) gss)"
    using i(1) by (simp flip: Cons_nth_drop_Suc)
  ultimately show ?case using Suc.IH [of "Suc i"] Suc.prems i by (simp add: index_get_nat)
qed simp

text \<open>The reader as a decoder of groups, and what it makes of them.\<close>

definition read_back :: "growth \<Rightarrow> group list \<Rightarrow> tx_inpoints" where
  "read_back grow gs = (case TxInpoints_deserializeFromReader grow zero_inpoints (bytes_reader (encode_groups gs)) of
     (r, p, res) \<Rightarrow> p)"

lemma read_back:
  assumes "wire_ok gs"
  shows "represents (read_back grow gs) gs" "gs = [] \<Longrightarrow> read_back grow gs = zero_inpoints"
    "rdata r = encode_groups gs @ rest \<Longrightarrow>
      NewTxInpointsFromReader grow r = (r\<lparr>rdata := rest\<rparr>, Ok (read_back grow gs))"
    "strict_prefix (rdata r) (encode_groups gs) \<Longrightarrow> \<exists>r' e. NewTxInpointsFromReader grow r = (r', Fail e)"
proof -
  obtain p where l: "loads (TxInpoints_deserializeFromReader grow) (encode_groups gs) zero_inpoints p"
    and p: "represents p gs" "gs = [] \<longrightarrow> p = zero_inpoints" using loads_inpoints [OF assms] by blast
  have "read_back grow gs = p"
    using loadsD(1) [OF l, of "bytes_reader (encode_groups gs)" "[]"] by (simp add: read_back_def)
  with p loadsD(1) [OF l, of r rest] loadsD(2) [OF l, of r]
  show "represents (read_back grow gs) gs" "gs = [] \<Longrightarrow> read_back grow gs = zero_inpoints"
    "rdata r = encode_groups gs @ rest \<Longrightarrow>
      NewTxInpointsFromReader grow r = (r\<lparr>rdata := rest\<rparr>, Ok (read_back grow gs))"
    "strict_prefix (rdata r) (encode_groups gs) \<Longrightarrow> \<exists>r' e. NewTxInpointsFromReader grow r = (r', Fail e)"
    by (auto simp: NewTxInpointsFromReader_def is_fail_iff split: prod.split)
qed

text \<open>The array of inpoints is read like any other array: the codec of groups, seen through
  \<open>read_back\<close>.\<close>

definition group_of :: "tx_inpoints \<Rightarrow> group list" where
  "group_of p = unpack (parent_list p) (vout_list p)"

lemma group_of_read_back: "wire_ok gs \<Longrightarrow> group_of (read_back grow gs) = gs"
  using read_back(1) [of gs grow] unpack_pack [of gs]
  by (simp add: group_of_def represents_def wire_ok_def)

interpretation inpoints_array_codec: codec "\<lambda>p. encode_groups (group_of p)" "NewTxInpointsFromReader grow"
    "\<lambda>p. \<exists>gs. wire_ok gs \<and> p = read_back grow gs" for grow
proof
  fix p and r :: reader
  assume "\<exists>gs. wire_ok gs \<and> p = read_back grow gs"
  then obtain gs where gs: "wire_ok gs" "p = read_back grow gs" by blast
  then have g: "group_of p = gs" by (simp add: group_of_read_back)
  show "rdata r = encode_groups (group_of p) @ rest \<Longrightarrow>
      NewTxInpointsFromReader grow r = (r\<lparr>rdata := rest\<rparr>, Ok p)" for rest
    using read_back(3) [OF gs(1), where r = r and rest = rest] gs(2) g by simp
  show "strict_prefix (rdata r) (encode_groups (group_of p)) \<Longrightarrow>
      \<exists>r' e. NewTxInpointsFromReader grow r = (r', Fail e)"
    using read_back(4) [OF gs(1), where r = r] g by simp
qed

text \<open>The slice of a new meta has a place for every node the subtree can hold.\<close>

definition roomy :: "subtree \<Rightarrow> bool" where
  "roomy s = (56 * int (Size s) \<le> max_alloc \<and> Length s < 2 ^ 32)"

lemma make_inpoints_Ok: "roomy s \<Longrightarrow> make_inpoints (Some s) = Ok (replicate (Size s) zero_inpoints)"
  by (simp add: make_inpoints_def make_slice_def roomy_def)

definition meta_wire :: "hash \<Rightarrow> group list list \<Rightarrow> byte list" where
  "meta_wire root gss = hash_bytes root @ put_uint32 (of_nat (length gss)) @ concat (map encode_groups gss)"

lemma loads_meta:
  assumes "roomy s" and "length gss \<le> Size s" and "length gss < 2 ^ 32" and "\<forall>gs\<in>set gss. wire_ok gs"
    and "MetaSubtree m = Some s"
  shows "loads (Meta_deserializeFromReader grow) (meta_wire root gss) m
    \<lparr>MetaSubtree = Some s,
     MetaTxInpoints = map (read_back grow) gss @ replicate (Size s - length gss) zero_inpoints,
     MetaRootHash = root\<rparr>"
proof -
  let ?n = "of_nat (length gss) :: uint32" and ?xs = "map (read_back grow) gss"
  let ?m = "m\<lparr>MetaRootHash := root, MetaTxInpoints := replicate (Size s) zero_inpoints\<rparr>"
  have n: "unat ?n = length gss" using assms(3) by (rule unat_uint32_of_nat)
  have enc: "concat (map (\<lambda>p. encode_groups (group_of p)) ?xs) = concat (map encode_groups gss)"
    using assms(4) by (simp add: group_of_read_back cong: map_cong)
  have array: "loads (load_array ''unable to deserialize parent outpoints: %w''
      (NewTxInpointsFromReader grow) (length ?xs) MetaTxInpoints (\<lambda>xs m. m\<lparr>MetaTxInpoints := xs\<rparr>))
    (concat (map (\<lambda>p. encode_groups (group_of p)) ?xs)) ?m
    (?m\<lparr>MetaTxInpoints := ?xs @ drop (length ?xs) (MetaTxInpoints ?m)\<rparr>)"
    using assms(2,4) by (intro loads_array [OF inpoints_array_codec.codec_axioms]) auto
  have "loads (deserializeTxInpointsFromReader grow ?n) (concat (map encode_groups gss)) ?m
      (?m\<lparr>MetaTxInpoints := ?xs @ replicate (Size s - length gss) zero_inpoints\<rparr>)"
    unfolding enc [symmetric] using array by (simp add: deserializeTxInpointsFromReader_def n)
  then have "loads (Meta_deserializeFromReader grow)
      (hash_bytes root @ [] @ put_uint32 ?n @ [] @ concat (map encode_groups gss)) m
      (?m\<lparr>MetaTxInpoints := ?xs @ replicate (Size s - length gss) zero_inpoints\<rparr>)"
    unfolding Meta_deserializeFromReader_def using assms(1,5)
    by (intro loads_bind [OF hash_codec.codec_axioms] loads_bind [OF uint32_codec.codec_axioms] loads_seq)
      (auto simp: make_inpoints_Ok)
  then show ?thesis using assms(5) by (cases m) (simp add: meta_wire_def)
qed

text \<open>\<open>safe.IntToUint32\<close> converts every count that fits.\<close>

definition converts_counts :: "(int \<Rightarrow> uint32 outcome) \<Rightarrow> bool" where
  "converts_counts IntToUint32 = (\<forall>n < 2 ^ 32. IntToUint32 (int n) = Ok (of_nat n))"

lemma Meta_Serialize_wire:
  assumes "MetaSubtree m = Some s" and "provable sha s" and "roomy s" and "length gss = Length s"
    and "holds_groups gss (MetaTxInpoints m)" and "converts_counts IntToUint32"
    and "all_set (MetaTxInpoints m) 0 (Length s)"
  shows "Meta_Serialize IntToUint32 sha m =
    (m\<lparr>MetaSubtree := Some (s\<lparr>rootHash := Some (root_of sha s)\<rparr>), MetaRootHash := root_of sha s\<rparr>,
     Ok (meta_wire (root_of sha s) gss))"
proof -
  have un: "unat (of_nat (Length s) :: uint32) = Length s"
    using assms(3) by (intro unat_uint32_of_nat) (simp add: roomy_def)
  have conv: "IntToUint32 (int (Length s)) = Ok (of_nat (Length s))"
    using assms(3,6) by (simp add: roomy_def converts_counts_def)
  have "check_inpoints_set (MetaTxInpoints m) (Length s) 0 = Ok ()"
    using assms(4,5,7) by (simp add: check_inpoints_set_eq holds_groups_def)
  moreover have "Length (s\<lparr>rootHash := Some (root_of sha s)\<rparr>) = Length s" by (simp add: Length_def)
  ultimately show ?thesis
    using assms write_inpoints_eq [OF assms(5), of 0 "Length s"]
    by (simp add: Meta_Serialize_def root_hash_provable serializeTxInpoints_def un conv meta_wire_def)
qed

lemma NewSubtreeMetaFromBytes_wire:
  assumes "roomy s" and "length gss \<le> Size s" and "length gss < 2 ^ 32" and "\<forall>gs\<in>set gss. wire_ok gs"
  shows "NewSubtreeMetaFromBytes grow (Some s) (meta_wire root gss) =
      Ok \<lparr>MetaSubtree = Some s,
        MetaTxInpoints = map (read_back grow) gss @ replicate (Size s - length gss) zero_inpoints,
        MetaRootHash = root\<rparr>"
    and "strict_prefix q (meta_wire root gss) \<Longrightarrow> is_fail (NewSubtreeMetaFromBytes grow (Some s) q)"
proof -
  let ?m = "\<lparr>MetaSubtree = Some s, MetaTxInpoints = [], MetaRootHash = 0\<rparr>"
  note l = loads_meta [OF assms, of ?m grow root, simplified]
  show "NewSubtreeMetaFromBytes grow (Some s) (meta_wire root gss) =
      Ok \<lparr>MetaSubtree = Some s,
        MetaTxInpoints = map (read_back grow) gss @ replicate (Size s - length gss) zero_inpoints,
        MetaRootHash = root\<rparr>"
    using loadsD(1) [OF l, of "bytes_reader (meta_wire root gss)" "[]"]
    by (simp add: NewSubtreeMetaFromBytes_def)
  show "is_fail (NewSubtreeMetaFromBytes grow (Some s) q)" if "strict_prefix q (meta_wire root gss)"
    using loadsD(2) [OF l, of "bytes_reader q"] that
    by (auto simp: NewSubtreeMetaFromBytes_def is_fail_iff split: prod.split)
qed

context codec
begin

text \<open>An array that is shorter than the count: the element that finds no place is read all the same.\<close>

lemma fill_array_overflow:
  "\<forall>x\<in>set xs. valid x \<Longrightarrow> valid y \<Longrightarrow> rdata r = concat (map enc xs) @ enc y @ rest \<Longrightarrow>
    i + length xs = length arr \<Longrightarrow> length xs < k \<Longrightarrow>
    \<exists>r' arr'. fill_array dec k i arr r = (r', arr', Panic IndexOutOfRange)"
proof (induction xs arbitrary: i arr r k)
  case Nil
  then have "dec r = (r\<lparr>rdata := rest\<rparr>, Ok y)" by (intro dec_enc) simp_all
  with Nil show ?case by (cases k) (simp_all add: index_set_def)
next
  case (Cons x xs)
  let ?r = "r\<lparr>rdata := concat (map enc xs) @ enc y @ rest\<rparr>"
  have "dec r = (?r, Ok x)" using Cons.prems by (intro dec_enc) simp_all
  moreover obtain j where "k = Suc j" using Cons.prems by (cases k) auto
  ultimately show ?case
    using Cons.IH [of ?r "Suc i" "arr[i := x]" j] Cons.prems by (simp add: index_set_nat)
qed

end

section \<open>Properties\<close>

definition to_uint32 :: "int \<Rightarrow> uint32 outcome" where
  "to_uint32 i = (if 0 \<le> i \<and> i < 2 ^ 32 then Ok (word_of_int i) else Fail (Foreign ''out of range''))"

lemma to_uint32_converts: "converts_counts to_uint32"
  by (simp add: converts_counts_def to_uint32_def)

definition example_meta :: meta where
  "example_meta = \<lparr>MetaSubtree = Some indexed_subtree,
     MetaTxInpoints = [zero_inpoints, NewTxInpoints,
       NewTxInpointsFromPacked (Slice [7, 8] []) (Slice [2, 1, 3, 1, 0] []), zero_inpoints],
     MetaRootHash = 0\<rparr>"

definition example_gss :: "group list list" where
  "example_gss = [[], [], [(7, [1, 3]), (8, [0])]]"

lemma example_meta_facts:
  "MetaSubtree example_meta = Some indexed_subtree" "roomy indexed_subtree"
  "length example_gss = Length indexed_subtree" "holds_groups example_gss (MetaTxInpoints example_meta)"
  "all_set (MetaTxInpoints example_meta) 0 (Length indexed_subtree)"
  by (auto simp: example_meta_def roomy_def Size_def Length_def indexed_subtree_def zero_subtree_def
      slice_cap_def slice_len_def max_alloc_def example_gss_def holds_groups_def less_Suc_eq represents_def
      wire_ok_def zero_inpoints_def NewTxInpoints_def NewTxInpointsFromPacked_def all_set_def pack_def)

text \<open>C10: The inpoints of a subtree's nodes survive serialization: \<open>Serialize\<close> writes the root of the
  subtree and the inpoints of its nodes, and \<open>NewSubtreeMetaFromBytes\<close> reads the same root and, at the
  place of every node, inpoints that represent the same groups.  Every proper prefix of the bytes is
  refused with an error.\<close>

theorem meta_roundtrip:
  assumes "MetaSubtree m = Some s" and "provable sha s" and "roomy s" and "length gss = Length s"
    and "holds_groups gss (MetaTxInpoints m)" and "converts_counts IntToUint32"
    and "all_set (MetaTxInpoints m) 0 (Length s)"
  shows "\<exists>b m'. snd (Meta_Serialize IntToUint32 sha m) = Ok b \<and>
    NewSubtreeMetaFromBytes grow (Some s) b = Ok m' \<and>
    MetaSubtree m' = Some s \<and> MetaRootHash m' = root_of sha s \<and> length (MetaTxInpoints m') = Size s \<and>
    (\<forall>i < Length s. represents (MetaTxInpoints m' ! i) (gss ! i)) \<and>
    (\<forall>q. strict_prefix q b \<longrightarrow> is_fail (NewSubtreeMetaFromBytes grow (Some s) q))"
proof -
  have n: "length gss < 2 ^ 32" "length gss \<le> Size s"
    using assms(3,4) by (simp_all add: roomy_def Length_def Size_def)
  have ok: "\<forall>gs\<in>set gss. wire_ok gs" using assms(5) by (auto simp: holds_groups_def in_set_conv_nth)
  have "represents ((map (read_back grow) gss @ xs) ! i) (gss ! i)" if "i < Length s" for i xs
    using that ok assms(4) by (simp add: nth_append read_back(1))
  then show ?thesis
    using Meta_Serialize_wire [OF assms]
      NewSubtreeMetaFromBytes_wire [OF assms(3) n(2,1) ok] n(2) by simp
qed

theorem meta_roundtrip_witness:
  "\<exists>b m'. snd (Meta_Serialize to_uint32 mix_sha example_meta) = Ok b \<and>
    NewSubtreeMetaFromBytes doubling (Some indexed_subtree) b = Ok m' \<and>
    represents (MetaTxInpoints m' ! 2) [(7, [1, 3]), (8, [0])]"
proof -
  obtain b m' where "snd (Meta_Serialize to_uint32 mix_sha example_meta) = Ok b"
    "NewSubtreeMetaFromBytes doubling (Some indexed_subtree) b = Ok m'"
    "\<forall>i < Length indexed_subtree. represents (MetaTxInpoints m' ! i) (example_gss ! i)"
    using meta_roundtrip [OF example_meta_facts(1) indexed_subtree_provable example_meta_facts(2-4)
        to_uint32_converts example_meta_facts(5), where grow = doubling] by blast
  moreover have "example_gss ! 2 = [(7, [1, 3]), (8, [0])]" "2 < Length indexed_subtree"
    by (simp_all add: example_gss_def flip: example_meta_facts(3))
  ultimately show ?thesis by metis
qed

lemma NewSubtreeMetaFromBytes_overflow:
  assumes "roomy s" and "\<forall>gs\<in>set gss. wire_ok gs" and "length gss = Suc (Size s)"
    and "length gss < 2 ^ 32"
  shows "NewSubtreeMetaFromBytes grow (Some s) (meta_wire root gss @ rest) = Panic IndexOutOfRange"
proof -
  obtain as g where split: "gss = as @ [g]" and as: "length as = Size s"
    using assms(3) by (cases gss rule: rev_cases) auto
  let ?n = "of_nat (length gss) :: uint32" and ?xs = "map (read_back grow) as" and ?x = "read_back grow g"
  have n: "unat ?n = length gss" using assms(4) by (rule unat_uint32_of_nat)
  let ?enc = "\<lambda>p. encode_groups (group_of p)"
  let ?r1 = "bytes_reader (put_uint32 ?n @ concat (map encode_groups gss) @ rest)"
  let ?r2 = "bytes_reader (concat (map encode_groups gss) @ rest)"
  have xs: "\<forall>x\<in>set ?xs. \<exists>gs. wire_ok gs \<and> x = read_back grow gs" and x: "\<exists>gs. wire_ok gs \<and> ?x = read_back grow gs"
    using assms(2) split by auto
  have enc: "concat (map ?enc ?xs) = concat (map encode_groups as)" "?enc ?x = encode_groups g"
    using assms(2) split by (simp_all add: group_of_read_back cong: map_cong)
  obtain r' arr where "fill_array (NewTxInpointsFromReader grow) (length gss) 0
      (replicate (Size s) zero_inpoints) ?r2 = (r', arr, Panic IndexOutOfRange)"
    using inpoints_array_codec.fill_array_overflow [OF xs x, of ?r2 rest 0 "replicate (Size s) zero_inpoints"
        "length gss"] enc split as by auto
  moreover have "read_hash (bytes_reader (meta_wire root gss @ rest)) = (?r1, Ok root)"
    using hash_codec.dec_enc [where x = root and r = "bytes_reader (meta_wire root gss @ rest)"]
    by (simp add: meta_wire_def bytes_reader_def)
  moreover have "read_uint32 ?r1 = (?r2, Ok ?n)"
    using uint32_codec.dec_enc [where x = ?n and r = ?r1] by (simp add: bytes_reader_def)
  ultimately show ?thesis
    by (simp add: NewSubtreeMetaFromBytes_def Meta_deserializeFromReader_def load_bind_def load_seq_def
        load_set_def load_step_def make_inpoints_Ok [OF assms(1)] deserializeTxInpointsFromReader_def
        load_array_def n)
qed

text \<open>C37: A count beyond the subtree's size is not refused but indexes past the slice: bytes that hold one
  set of inpoints more than the subtree has room for make \<open>NewSubtreeMetaFromBytes\<close> panic, although every
  part of them is well-formed.\<close>

theorem meta_reader_panics:
  assumes "roomy s" and "\<forall>gs\<in>set gss. wire_ok gs" and "length gss = Suc (Size s)"
    and "length gss < 2 ^ 32"
  shows "NewSubtreeMetaFromBytes grow (Some s)
      (hash_bytes root @ put_uint32 (of_nat (length gss)) @ concat (map encode_groups gss) @ rest) =
        Panic IndexOutOfRange \<and>
    (\<forall>i < length gss. TxInpoints_Serialize (read_back grow (gss ! i)) = Ok (encode_groups (gss ! i)))"
proof -
  have "TxInpoints_Serialize (read_back grow (gss ! i)) = Ok (encode_groups (gss ! i))"
    if "i < length gss" for i
    using that assms(2) by (intro Serialize_represents read_back(1)) (simp_all add: wire_ok_def)
  then show ?thesis
    using NewSubtreeMetaFromBytes_overflow [OF assms] by (auto simp: meta_wire_def)
qed

theorem meta_reader_panics_witness:
  "NewSubtreeMetaFromBytes doubling (Some indexed_subtree)
    (hash_bytes 9 @ put_uint32 5 @ concat (map encode_groups [[], [], [], [], []])) = Panic IndexOutOfRange"
proof -
  have "Size indexed_subtree = 4" by (simp add: Size_def indexed_subtree_def slice_cap_def)
  then show ?thesis
    using meta_reader_panics [OF example_meta_facts(2), of "[[], [], [], [], []]" doubling 9 "[]"]
    by (simp add: wire_ok_def)
qed

text \<open>C38: A node without inputs does not survive: its inpoints are set before \<open>Serialize\<close>, which accepts
  them, and no longer set in what is read back, so that the read meta cannot be serialized again.\<close>

theorem empty_inpoints_lost:
  assumes "MetaSubtree m = Some s" and "provable sha s" and "roomy s" and "length gss = Length s"
    and "holds_groups gss (MetaTxInpoints m)" and "converts_counts IntToUint32"
    and "all_set (MetaTxInpoints m) 0 (Length s)"
    and "0 < i" and "i < Length s" and "gss ! i = []"
  shows "\<exists>b m' e. snd (Meta_Serialize IntToUint32 sha m) = Ok b \<and>
    NewSubtreeMetaFromBytes grow (Some s) b = Ok m' \<and>
    Meta_Serialize IntToUint32 sha m' = (m', Fail e) \<and> errors_is e ErrCannotSerializeSubtreeNotSet"
proof -
  have n: "length gss < 2 ^ 32" "length gss \<le> Size s"
    using assms(3,4) by (simp_all add: roomy_def Length_def Size_def)
  have ok: "\<forall>gs\<in>set gss. wire_ok gs" using assms(5) by (auto simp: holds_groups_def in_set_conv_nth)
  let ?xs = "map (read_back grow) gss @ replicate (Size s - length gss) zero_inpoints"
  have "?xs ! i = zero_inpoints"
    using assms(4,9,10) ok nth_mem [of i gss] read_back(2) [of "[]" grow] by (simp add: nth_append)
  then have "\<not> all_set ?xs 0 (Length s)"
    using assms(8,9) unfolding all_set_def by (auto simp: zero_inpoints_def intro!: exI [of _ i])
  then have "check_inpoints_set ?xs (Length s) 0 = Fail not_set_error"
    using n assms(4) by (subst check_inpoints_set_eq) simp_all
  then show ?thesis
    using Meta_Serialize_wire [OF assms(1-7)] NewSubtreeMetaFromBytes_wire(1) [OF assms(3) n(2,1) ok]
    by (simp add: Meta_Serialize_def)
qed

theorem empty_inpoints_lost_witness:
  "\<exists>b m' e. snd (Meta_Serialize to_uint32 mix_sha example_meta) = Ok b \<and>
    NewSubtreeMetaFromBytes doubling (Some indexed_subtree) b = Ok m' \<and>
    snd (Meta_Serialize to_uint32 mix_sha m') = Fail e"
proof -
  have "1 < Length indexed_subtree" "example_gss ! 1 = []"
    by (simp_all add: example_gss_def flip: example_meta_facts(3))
  from empty_inpoints_lost [OF example_meta_facts(1) indexed_subtree_provable example_meta_facts(2-4)
      to_uint32_converts example_meta_facts(5) _ this, where grow = doubling]
  obtain b m' e where "snd (Meta_Serialize to_uint32 mix_sha example_meta) = Ok b"
    "NewSubtreeMetaFromBytes doubling (Some indexed_subtree) b = Ok m'"
    "Meta_Serialize to_uint32 mix_sha m' = (m', Fail e)" by auto
  then show ?thesis by auto
qed

text \<open>C30: As long as the subtree has no index yet or a right one (\<open>RemoveNodeAtIndex\<close>, \<open>ReplaceRootNode\<close>,
  \<open>AddCoinbaseNode\<close>, \<open>ReleaseNodes\<close> and reading into the subtree break one that was built) and the slice
  of inpoints has the size that \<open>NewSubtreeMeta\<close> gives it, \<open>SetTxInpointsFromTx\<close> files the inpoints of a transaction of less than \<open>2^32\<close> inputs under the last node with its id and
  under no other: the accessors at that index return exactly its inputs and its distinct parents.  A
  transaction that is no node is refused with \<open>ErrNodeNotFound\<close>, and the inpoints stay as they were.\<close>

theorem SetTxInpointsFromTx_files:
  assumes "MetaSubtree m = Some s" and "index_valid s" and "length (MetaTxInpoints m) = Size s"
    and "length (Inputs tx) < 2 ^ 32"
  shows "case SetTxInpointsFromTx TxID Inputs H V grow tx m of (m', res) \<Rightarrow>
    if TxID tx \<in> Hash ` set (node_list s) then
      res = Ok () \<and>
      (\<exists>i is hs. i < Length s \<and> Hash (node_list s ! i) = TxID tx \<and>
        (\<forall>k < Length s. i < k \<longrightarrow> Hash (node_list s ! k) \<noteq> TxID tx) \<and>
        (\<forall>j. j \<noteq> i \<longrightarrow> MetaTxInpoints m' ! j = MetaTxInpoints m ! j) \<and>
        Meta_GetTxInpoints (int i) m' = Ok is \<and>
        mset is = mset (map (\<lambda>i. \<lparr>InpointHash = H i, Index = V i\<rparr>) (Inputs tx)) \<and>
        Meta_GetParentTxHashes (int i) m' = Ok hs \<and> distinct hs \<and> set hs = H ` set (Inputs tx))
    else MetaTxInpoints m' = MetaTxInpoints m \<and> (\<exists>e. res = Fail e \<and> errors_is e ErrNodeNotFound)"
proof -
  let ?m = "index_nodes 0 (node_list s) Map.empty" and ?gs = "group_inputs H V (Inputs tx)"
  note ni = NodeIndex_valid [OF assms(2), of "TxID tx"]
  obtain p where p: "newSizedFromInputs H V grow (Inputs tx) = Ok p" "represents p ?gs"
    using newSizedFromInputs_represents [OF assms(4)] by blast
  have "36 * int (length (flatten ?gs)) \<le> max_alloc"
    using assms(4) by (simp add: length_group_inputs max_alloc_def)
  then have get: "GetTxInpoints p = Ok (flatten ?gs)"
    by (rule GetTxInpoints_represents [OF p(2) groups_ok_inputs [OF assms(4)]])
  show ?thesis
  proof (cases "?m (TxID tx)")
    case None
    then show ?thesis
      using index_nodes_None [of 0 "node_list s" "TxID tx"] ni assms(1)
      by (simp add: SetTxInpointsFromTx_def)
  next
    case (Some j)
    from index_nodes_Some [OF Some]
    have j: "0 \<le> j" "nat j < Length s" "Hash (node_list s ! nat j) = TxID tx"
      "\<forall>k < Length s. nat j < k \<longrightarrow> Hash (node_list s ! k) \<noteq> TxID tx"
      by (auto simp: Length_def slice_len_def)
    then have mem: "TxID tx \<in> Hash ` set (node_list s)"
      by (metis Length_def slice_len_def image_eqI nth_mem)
    have room: "nat j < length (MetaTxInpoints m)"
      using j(2) assms(3) slice_len_le_cap [of "Nodes s"]
      by (simp add: Length_def Size_def del: slice_len_le_cap)
    let ?m' = "m\<lparr>MetaSubtree := Some (s\<lparr>nodeIndex := Some ?m\<rparr>),
      MetaTxInpoints := (MetaTxInpoints m)[nat j := p]\<rparr>"
    have "index_set (MetaTxInpoints m) j p = Ok ((MetaTxInpoints m)[nat j := p])"
      using j(1) room by (simp add: index_set_def)
    then have "SetTxInpointsFromTx TxID Inputs H V grow tx m = (?m', Ok ())"
      using Some ni assms(1) j(1) p(1) by (simp add: SetTxInpointsFromTx_def NewTxInpointsFromTx_def Let_def)
    moreover have "Meta_GetTxInpoints (int (nat j)) ?m' = Ok (flatten ?gs)"
      using room get by (simp add: Meta_GetTxInpoints_def index_get_nat del: int_nat_eq)
    moreover have "Meta_GetParentTxHashes (int (nat j)) ?m' = Ok (map fst ?gs)"
      using room p(2) by (simp add: Meta_GetParentTxHashes_def index_get_nat GetParentTxHashes_def
          represents_def del: int_nat_eq)
    ultimately show ?thesis
      using mem j(2-4) mset_group_inputs [of H V "Inputs tx"] distinct_group_inputs [of H V "Inputs tx"]
      by (auto intro!: exI [of _ "nat j"])
  qed
qed

theorem SetTxInpointsFromTx_files_witness:
  "\<exists>m' is. SetTxInpointsFromTx (\<lambda>_. 3) (\<lambda>_. example_inputs) fst snd doubling () example_meta = (m', Ok ()) \<and>
    Meta_GetTxInpoints 2 m' = Ok is \<and> mset is = {#\<lparr>InpointHash = 7, Index = 1\<rparr>,
      \<lparr>InpointHash = 8, Index = 0\<rparr>, \<lparr>InpointHash = 7, Index = 3\<rparr>#}"
proof -
  obtain m' res where r: "SetTxInpointsFromTx (\<lambda>_. 3) (\<lambda>_. example_inputs) fst snd doubling () example_meta = (m', res)"
    by fastforce
  have s: "length (MetaTxInpoints example_meta) = Size indexed_subtree" "length example_inputs < 2 ^ 32"
    by (simp_all add: example_meta_def Size_def indexed_subtree_def slice_cap_def example_inputs_def)
  have "3 \<in> Hash ` set (node_list indexed_subtree)" by (simp add: indexed_subtree_def leaf_def)
  with SetTxInpointsFromTx_files [OF example_meta_facts(1) indexed_subtree_valid(1) s(1),
      of "\<lambda>_. example_inputs" "()" "\<lambda>_. 3" fst snd doubling] s(2) r
  obtain i "is" where i: "res = Ok ()" "i < Length indexed_subtree" "Hash (node_list indexed_subtree ! i) = 3"
    "Meta_GetTxInpoints (int i) m' = Ok is"
    "mset is = mset (map (\<lambda>i. \<lparr>InpointHash = fst i, Index = snd i\<rparr>) example_inputs)" by auto
  moreover have "i = 2"
    using i(2,3) indexed_subtree_fits(3) by (auto simp: indexed_subtree_def leaf_def numeral_3_eq_3 less_Suc_eq)
  ultimately show ?thesis using r by (auto simp: example_inputs_def)
qed

end
