(* ===== verification/Subtree_Data.thy ===== *)
theory Subtree_Data
  imports Subtree_Root
begin

text \<open>
  \<open>subtree_data.go\<close>: the transactions of a subtree's nodes, written to and read from streams.

  Transactions are go-bt's \<open>bt.Tx\<close>: a type variable, with the methods the code calls as parameters.
  \<open>SerializeBytes\<close> is called on a pointer that may be nil; \<open>ReadFrom\<close> decodes into a fresh
  transaction; the other methods are called on transactions that are there.
\<close>

record 'tx subtree_data =
  DataSubtree :: "subtree option"
  Txs :: "'tx option list"

section \<open>Writers\<close>

text \<open>An \<open>io.Writer\<close>: the bytes written so far, how many more it takes (\<open>None\<close>: any number), and the
  error it reports then.\<close>

record writer =
  sent :: "byte list"
  room :: "nat option"
  werr :: go_error

definition go_write :: "byte list \<Rightarrow> writer \<Rightarrow> writer \<times> unit outcome" where
  "go_write bs w =
     (case room w of
        None \<Rightarrow> (w\<lparr>sent := sent w @ bs\<rparr>, Ok ())
      | Some n \<Rightarrow>
          if length bs \<le> n
          then (w\<lparr>sent := sent w @ bs, room := Some (n - length bs)\<rparr>, Ok ())
          else (w\<lparr>sent := sent w @ take n bs, room := Some 0\<rparr>, Fail (werr w)))"

section \<open>The code\<close>

definition NewSubtreeData :: "subtree option \<Rightarrow> 'tx subtree_data outcome" where
  "NewSubtreeData subtree =
     (case subtree of
        None \<Rightarrow> Panic NilDereference
      | Some s \<Rightarrow>
          omap (\<lambda>xs. \<lparr>DataSubtree = Some s, Txs = elems xs\<rparr>)
            (make_slice 8 None (int (Size s)) (int (Size s))))"

definition Data_RootHash :: "sha256 \<Rightarrow> 'tx subtree_data \<Rightarrow> 'tx subtree_data \<times> hash option outcome" where
  "Data_RootHash sha d = (case RootHash sha (DataSubtree d) of (s, res) \<Rightarrow> (d\<lparr>DataSubtree := s\<rparr>, res))"

text \<open>\<open>s.Subtree.Nodes[index].Hash\<close>.\<close>

definition node_hash :: "subtree option \<Rightarrow> int \<Rightarrow> hash outcome" where
  "node_hash subtree index =
     (case subtree of None \<Rightarrow> Panic NilDereference | Some s \<Rightarrow> omap Hash (index_get (node_list s) index))"

definition store_tx :: "'tx \<Rightarrow> int \<Rightarrow> 'tx subtree_data \<Rightarrow> 'tx subtree_data \<times> unit outcome" where
  "store_tx tx index d =
     (case index_set (Txs d) index (Some tx) of
        Ok xs \<Rightarrow> (d\<lparr>Txs := xs\<rparr>, Ok ())
      | Fail e \<Rightarrow> (d, Fail e)
      | Panic p \<Rightarrow> (d, Panic p))"

definition AddTx ::
  "('tx \<Rightarrow> bool) \<Rightarrow> ('tx \<Rightarrow> hash) \<Rightarrow> 'tx \<Rightarrow> int \<Rightarrow> 'tx subtree_data \<Rightarrow> 'tx subtree_data \<times> unit outcome" where
  "AddTx IsCoinbase TxIDChainHash tx index d =
     (case node_hash (DataSubtree d) index of
        Ok h \<Rightarrow>
          if index = 0 \<and> IsCoinbase tx \<and> h = CoinbasePlaceholder then store_tx tx index d
          else if h \<noteq> TxIDChainHash tx then (d, Fail ErrTxHashMismatch)
          else store_tx tx index d
      | Fail e \<Rightarrow> (d, Fail e)
      | Panic p \<Rightarrow> (d, Panic p))"

fun check_txs :: "'tx option list \<Rightarrow> nat \<Rightarrow> nat \<Rightarrow> unit outcome" where
  "check_txs xs 0 i = Ok ()"
| "check_txs xs (Suc k) i =
     obind (index_get xs (int i)) (\<lambda>t.
     if t = None \<and> i \<noteq> 0 then Fail ErrSubtreeLengthMismatch else check_txs xs k (i + 1))"

fun write_txs :: "('tx option \<Rightarrow> byte list outcome) \<Rightarrow> 'tx option list \<Rightarrow> nat \<Rightarrow> nat \<Rightarrow> byte list outcome" where
  "write_txs SerializeBytes xs 0 i = Ok []"
| "write_txs SerializeBytes xs (Suc k) i =
     obind (index_get xs (int i)) (\<lambda>t.
     obind (SerializeBytes t) (\<lambda>b.
     omap (\<lambda>bs. b @ bs) (write_txs SerializeBytes xs k (i + 1))))"

definition Data_Serialize ::
  "('tx option \<Rightarrow> byte list outcome) \<Rightarrow> 'tx subtree_data \<Rightarrow> byte list outcome" where
  "Data_Serialize SerializeBytes d =
     (case DataSubtree d of
        None \<Rightarrow> Fail ErrCannotSerializeSubtreeNotSet
      | Some s \<Rightarrow>
          obind (node_hash (Some s) 0) (\<lambda>h.
          (let txStartIndex = (if h = CoinbasePlaceholder then 1 else 0);
               subtreeLen = Length s
           in obind (check_txs (Txs d) (subtreeLen - txStartIndex) txStartIndex) (\<lambda>_.
              write_txs SerializeBytes (Txs d) (subtreeLen - txStartIndex) txStartIndex))))"

text \<open>\<open>i == 0 && s.Subtree.Nodes[0].Hash.Equal(CoinbasePlaceholderHashValue)\<close>.\<close>

definition skips :: "subtree \<Rightarrow> int \<Rightarrow> bool outcome" where
  "skips s i = (if i = 0 then omap (\<lambda>h. h = CoinbasePlaceholder) (node_hash (Some s) 0) else Ok False)"

fun write_range ::
  "('tx \<Rightarrow> writer \<Rightarrow> writer \<times> unit outcome) \<Rightarrow> subtree \<Rightarrow> 'tx option list \<Rightarrow> nat \<Rightarrow> int \<Rightarrow> writer \<Rightarrow>
    writer \<times> unit outcome" where
  "write_range SerializeTo s xs 0 i w = (w, Ok ())"
| "write_range SerializeTo s xs (Suc k) i w =
     (case skips s i of
        Ok True \<Rightarrow> write_range SerializeTo s xs k (i + 1) w
      | Ok False \<Rightarrow>
          (case index_get xs i of
             Ok None \<Rightarrow> (w, Fail ErrTransactionNil)
           | Ok (Some tx) \<Rightarrow>
               (case SerializeTo tx w of
                  (w', Ok _) \<Rightarrow> write_range SerializeTo s xs k (i + 1) w'
                | (w', Fail e) \<Rightarrow> (w', Fail (Wrap ''%w at index %d: %w'' [ErrTransactionWrite, e]))
                | (w', Panic p) \<Rightarrow> (w', Panic p))
           | Fail e \<Rightarrow> (w, Fail e)
           | Panic p \<Rightarrow> (w, Panic p))
      | Fail e \<Rightarrow> (w, Fail e)
      | Panic p \<Rightarrow> (w, Panic p))"

definition WriteTransactionsToWriter ::
  "('tx \<Rightarrow> writer \<Rightarrow> writer \<times> unit outcome) \<Rightarrow> int \<Rightarrow> int \<Rightarrow> 'tx subtree_data \<Rightarrow> writer \<Rightarrow>
    writer \<times> unit outcome" where
  "WriteTransactionsToWriter SerializeTo startIdx endIdx d w =
     (case DataSubtree d of
        None \<Rightarrow> (w, Fail ErrCannotSerializeSubtreeNotSet)
      | Some s \<Rightarrow> write_range SerializeTo s (Txs d) (nat (endIdx - startIdx)) startIdx w)"

fun WriteTransactionChunk ::
  "('tx option \<Rightarrow> byte list outcome) \<Rightarrow> 'tx option list \<Rightarrow> writer \<Rightarrow> writer \<times> unit outcome" where
  "WriteTransactionChunk SerializeBytes [] w = (w, Ok ())"
| "WriteTransactionChunk SerializeBytes (tx # txs) w =
     (if tx = None then WriteTransactionChunk SerializeBytes txs w
      else
        (case SerializeBytes tx of
           Ok txBytes \<Rightarrow>
             (case go_write txBytes w of
                (w', Ok _) \<Rightarrow> WriteTransactionChunk SerializeBytes txs w'
              | (w', Fail e) \<Rightarrow> (w', Fail (Wrap ''%w: %w'' [ErrTransactionWrite, e]))
              | (w', Panic p) \<Rightarrow> (w', Panic p))
         | Fail e \<Rightarrow> (w, Fail e)
         | Panic p \<Rightarrow> (w, Panic p)))"

text \<open>Both readers of a range return what they have read along with an error.\<close>

fun read_chunk ::
  "'tx decoder \<Rightarrow> ('tx \<Rightarrow> hash) \<Rightarrow> subtree \<Rightarrow> nat \<Rightarrow> int \<Rightarrow> 'tx list \<Rightarrow> reader \<Rightarrow>
    reader \<times> 'tx list \<times> unit outcome" where
  "read_chunk ReadFrom TxIDChainHash s 0 idx txs r = (r, txs, Ok ())"
| "read_chunk ReadFrom TxIDChainHash s (Suc k) idx txs r =
     (if idx \<ge> int (Length s) then (r, txs, Ok ())
      else
        (case skips s idx of
           Ok True \<Rightarrow> read_chunk ReadFrom TxIDChainHash s k (idx + 1) txs r
         | Ok False \<Rightarrow>
             (case ReadFrom r of
                (r', Ok tx) \<Rightarrow>
                  (case node_hash (Some s) idx of
                     Ok h \<Rightarrow>
                       if h \<noteq> TxIDChainHash tx then (r', txs, Fail ErrTxHashMismatch)
                       else read_chunk ReadFrom TxIDChainHash s k (idx + 1) (txs @ [tx]) r'
                   | Fail e \<Rightarrow> (r', txs, Fail e)
                   | Panic p \<Rightarrow> (r', txs, Panic p))
              | (r', Fail e) \<Rightarrow>
                  (r', txs, if errors_is e IoEOF then Ok ()
                     else Fail (Wrap ''%w at index %d: %w'' [ErrTransactionRead, e]))
              | (r', Panic p) \<Rightarrow> (r', txs, Panic p))
         | Fail e \<Rightarrow> (r, txs, Fail e)
         | Panic p \<Rightarrow> (r, txs, Panic p)))"

definition no_nodes :: "subtree option \<Rightarrow> bool" where
  "no_nodes subtree = (case subtree of None \<Rightarrow> True | Some s \<Rightarrow> Length s = 0)"

definition ReadTransactionChunk ::
  "'tx decoder \<Rightarrow> ('tx \<Rightarrow> hash) \<Rightarrow> subtree option \<Rightarrow> int \<Rightarrow> int \<Rightarrow> reader \<Rightarrow>
    reader \<times> 'tx list \<times> unit outcome" where
  "ReadTransactionChunk ReadFrom TxIDChainHash subtree startIdx count r =
     (if no_nodes subtree then (r, [], Fail ErrSubtreeNodesEmpty)
      else
        (case make_slice 8 () 0 count of
           Ok _ \<Rightarrow> read_chunk ReadFrom TxIDChainHash (the subtree) (nat count) startIdx [] r
         | Fail e \<Rightarrow> (r, [], Fail e)
         | Panic p \<Rightarrow> (r, [], Panic p)))"

fun read_range ::
  "'tx decoder \<Rightarrow> ('tx \<Rightarrow> hash) \<Rightarrow> subtree \<Rightarrow> nat \<Rightarrow> int \<Rightarrow> 'tx option list \<Rightarrow> nat \<Rightarrow> reader \<Rightarrow>
    reader \<times> 'tx option list \<times> nat \<times> unit outcome" where
  "read_range ReadFrom TxIDChainHash s 0 i xs txsRead r = (r, xs, txsRead, Ok ())"
| "read_range ReadFrom TxIDChainHash s (Suc k) i xs txsRead r =
     (case skips s i of
        Ok True \<Rightarrow> read_range ReadFrom TxIDChainHash s k (i + 1) xs txsRead r
      | Ok False \<Rightarrow>
          (case ReadFrom r of
             (r', Ok tx) \<Rightarrow>
               (case node_hash (Some s) i of
                  Ok h \<Rightarrow>
                    if h \<noteq> TxIDChainHash tx then (r', xs, txsRead, Fail ErrTxHashMismatch)
                    else
                      (case index_set xs i (Some tx) of
                         Ok xs' \<Rightarrow> read_range ReadFrom TxIDChainHash s k (i + 1) xs' (txsRead + 1) r'
                       | Fail e \<Rightarrow> (r', xs, txsRead, Fail e)
                       | Panic p \<Rightarrow> (r', xs, txsRead, Panic p))
                | Fail e \<Rightarrow> (r', xs, txsRead, Fail e)
                | Panic p \<Rightarrow> (r', xs, txsRead, Panic p))
           | (r', Fail e) \<Rightarrow>
               (r', xs, txsRead, if errors_is e IoEOF then Ok ()
                  else Fail (Wrap ''%w at index %d: %w'' [ErrTransactionRead, e]))
           | (r', Panic p) \<Rightarrow> (r', xs, txsRead, Panic p))
      | Fail e \<Rightarrow> (r, xs, txsRead, Fail e)
      | Panic p \<Rightarrow> (r, xs, txsRead, Panic p))"

definition ReadTransactionsFromReader ::
  "'tx decoder \<Rightarrow> ('tx \<Rightarrow> hash) \<Rightarrow> int \<Rightarrow> int \<Rightarrow> 'tx subtree_data \<Rightarrow> reader \<Rightarrow>
    reader \<times> 'tx subtree_data \<times> nat \<times> unit outcome" where
  "ReadTransactionsFromReader ReadFrom TxIDChainHash startIdx endIdx d r =
     (if no_nodes (DataSubtree d) then (r, d, 0, Fail ErrSubtreeNodesEmpty)
      else
        (case read_range ReadFrom TxIDChainHash (the (DataSubtree d)) (nat (endIdx - startIdx)) startIdx
            (Txs d) 0 r of
           (r', xs, txsRead, res) \<Rightarrow> (r', d\<lparr>Txs := xs\<rparr>, txsRead, res)))"

text \<open>The loop of \<open>serializeFromReader\<close> ends when the reader does; a transaction decoder that consumes
  nothing would keep it going for ever, which is the value \<open>None\<close>.\<close>

partial_function (option) read_txs ::
  "'tx decoder \<Rightarrow> ('tx \<Rightarrow> bool) \<Rightarrow> ('tx \<Rightarrow> hash) \<Rightarrow> node list \<Rightarrow> nat \<Rightarrow> 'tx option list \<Rightarrow> reader \<Rightarrow>
    (reader \<times> 'tx option list \<times> unit outcome) option" where
  "read_txs ReadFrom IsCoinbase TxIDChainHash ns txIndex xs r =
     (case ReadFrom r of
        (r', Ok tx) \<Rightarrow>
          if txIndex = 1 \<and> IsCoinbase tx then
            (case index_set xs 0 (Some tx) of
               Ok xs' \<Rightarrow> read_txs ReadFrom IsCoinbase TxIDChainHash ns txIndex xs' r'
             | Fail e \<Rightarrow> Some (r', xs, Fail e)
             | Panic p \<Rightarrow> Some (r', xs, Panic p))
          else if txIndex \<ge> length ns then Some (r', xs, Fail ErrTxIndexOutOfBounds)
          else if Hash (ns ! txIndex) \<noteq> TxIDChainHash tx then Some (r', xs, Fail ErrTxHashMismatch)
          else
            (case index_set xs (int txIndex) (Some tx) of
               Ok xs' \<Rightarrow> read_txs ReadFrom IsCoinbase TxIDChainHash ns (txIndex + 1) xs' r'
             | Fail e \<Rightarrow> Some (r', xs, Fail e)
             | Panic p \<Rightarrow> Some (r', xs, Panic p))
      | (r', Fail e) \<Rightarrow>
          Some (r', xs, if errors_is e IoEOF then Ok () else Fail (Wrap ''error reading transaction: %w'' [e]))
      | (r', Panic p) \<Rightarrow> Some (r', xs, Panic p))"

definition serializeFromReader ::
  "'tx decoder \<Rightarrow> ('tx \<Rightarrow> bool) \<Rightarrow> ('tx \<Rightarrow> hash) \<Rightarrow> 'tx subtree_data \<Rightarrow> reader \<Rightarrow>
    (reader \<times> 'tx subtree_data \<times> unit outcome) option" where
  "serializeFromReader ReadFrom IsCoinbase TxIDChainHash d r =
     (if no_nodes (DataSubtree d) then Some (r, d, Fail ErrSubtreeNodesEmpty)
      else
        (let s = the (DataSubtree d);
             txIndex = (if node_hash (Some s) 0 = Ok CoinbasePlaceholder then 1 else 0)
         in case make_slice 8 None (int (Length s)) (int (Length s)) of
              Ok xs \<Rightarrow>
                map_option (\<lambda>(r', xs', res). (r', d\<lparr>Txs := xs'\<rparr>, res))
                  (read_txs ReadFrom IsCoinbase TxIDChainHash (node_list s) txIndex (elems xs) r)
            | Fail e \<Rightarrow> Some (r, d, Fail e)
            | Panic p \<Rightarrow> Some (r, d, Panic p)))"

definition NewSubtreeDataFromReader ::
  "'tx decoder \<Rightarrow> ('tx \<Rightarrow> bool) \<Rightarrow> ('tx \<Rightarrow> hash) \<Rightarrow> subtree option \<Rightarrow> reader \<Rightarrow>
    (reader \<times> 'tx subtree_data outcome) option" where
  "NewSubtreeDataFromReader ReadFrom IsCoinbase TxIDChainHash subtree dataReader =
     map_option (\<lambda>(r, d, res).
         (r, wrapping ''unable to create subtree data from reader: %w'' (omap (\<lambda>_. d) res)))
       (serializeFromReader ReadFrom IsCoinbase TxIDChainHash \<lparr>DataSubtree = subtree, Txs = []\<rparr> dataReader)"

definition NewSubtreeDataFromBytes ::
  "'tx decoder \<Rightarrow> ('tx \<Rightarrow> bool) \<Rightarrow> ('tx \<Rightarrow> hash) \<Rightarrow> subtree option \<Rightarrow> byte list \<Rightarrow>
    'tx subtree_data outcome option" where
  "NewSubtreeDataFromBytes ReadFrom IsCoinbase TxIDChainHash subtree dataBytes =
     map_option (\<lambda>(r, d, res).
         wrapping ''unable to create subtree data from bytes: %w'' (omap (\<lambda>_. d) res))
       (serializeFromReader ReadFrom IsCoinbase TxIDChainHash \<lparr>DataSubtree = subtree, Txs = []\<rparr>
         (bytes_reader dataBytes))"

section \<open>What the code relies on in a transaction\<close>

text \<open>\<open>enc\<close> is the wire format of a transaction; that \<open>ReadFrom\<close> reads it is \<open>codec enc ReadFrom valid\<close>.\<close>

definition serializes :: "('tx \<Rightarrow> byte list) \<Rightarrow> ('tx option \<Rightarrow> byte list outcome) \<Rightarrow> bool" where
  "serializes enc SerializeBytes = (\<forall>tx. SerializeBytes (Some tx) = Ok (enc tx))"

definition streams :: "('tx \<Rightarrow> byte list) \<Rightarrow> ('tx \<Rightarrow> writer \<Rightarrow> writer \<times> unit outcome) \<Rightarrow> bool" where
  "streams enc SerializeTo = (\<forall>tx w. SerializeTo tx w = go_write (enc tx) w)"

text \<open>At the end of its input, \<open>ReadFrom\<close> reports \<open>io.EOF\<close>; a transaction takes at least one byte; it
  does not panic.\<close>

definition reports_eof :: "'tx decoder \<Rightarrow> bool" where
  "reports_eof ReadFrom =
     (\<forall>r. rdata r = [] \<and> rerr r = IoEOF \<longrightarrow> (\<exists>r' e. ReadFrom r = (r', Fail e) \<and> errors_is e IoEOF))"

definition consumes :: "'tx decoder \<Rightarrow> bool" where
  "consumes ReadFrom = (\<forall>r r' tx. ReadFrom r = (r', Ok tx) \<longrightarrow> length (rdata r') < length (rdata r))"

definition panic_free :: "'tx decoder \<Rightarrow> bool" where
  "panic_free ReadFrom = (\<forall>r. \<not> is_panic (snd (ReadFrom r)))"

text \<open>Transactions that belong to the nodes from \<open>i\<close> on.\<close>

definition belong :: "('tx \<Rightarrow> hash) \<Rightarrow> subtree \<Rightarrow> nat \<Rightarrow> 'tx list \<Rightarrow> bool" where
  "belong TxID s i txs =
     (i + length txs \<le> Length s \<and> (\<forall>j < length txs. Hash (node_list s ! (i + j)) = TxID (txs ! j)))"

definition start :: "subtree \<Rightarrow> nat" where
  "start s = (if Hash (hd (node_list s)) = CoinbasePlaceholder then 1 else 0)"

text \<open>A slice that holds the transactions \<open>txs\<close> from \<open>i\<close> on, and data that carries a transaction for
  every node but the placeholder.\<close>

definition holds_txs :: "'tx option list \<Rightarrow> nat \<Rightarrow> 'tx list \<Rightarrow> bool" where
  "holds_txs xs i txs = (i + length txs \<le> length xs \<and> (\<forall>j < length txs. xs ! (i + j) = Some (txs ! j)))"

definition carries :: "subtree \<Rightarrow> 'tx list \<Rightarrow> 'tx subtree_data \<Rightarrow> bool" where
  "carries s txs d =
     (DataSubtree d = Some s \<and> node_list s \<noteq> [] \<and> start s + length txs = Length s \<and>
      holds_txs (Txs d) (start s) txs)"

lemma holds_txs_Cons:
  "holds_txs xs i (tx # txs) \<longleftrightarrow> i < length xs \<and> xs ! i = Some tx \<and> holds_txs xs (Suc i) txs"
  by (auto simp: holds_txs_def All_less_Suc2)

lemma carries_nth:
  "carries s txs d \<Longrightarrow> start s \<le> i \<Longrightarrow> i < Length s \<Longrightarrow> Txs d ! i = Some (txs ! (i - start s))"
  unfolding carries_def holds_txs_def by (metis le_add_diff_inverse nat_add_left_cancel_less)

lemma Length_node_list: "length (node_list s) = Length s"
  by (simp add: Length_def slice_len_def)

lemma Length_pos [simp]: "node_list s \<noteq> [] \<Longrightarrow> 0 < Length s"
  by (simp flip: Length_node_list)

lemma belong_Cons:
  "belong TxID s i (tx # txs) \<longleftrightarrow> i < Length s \<and> Hash (node_list s ! i) = TxID tx \<and> belong TxID s (Suc i) txs"
  by (auto simp: belong_def All_less_Suc2)

lemma node_hash_nat: "i < Length s \<Longrightarrow> node_hash (Some s) (int i) = Ok (Hash (node_list s ! i))"
  by (simp add: node_hash_def index_get_def Length_node_list)

lemma node_hash_0: "node_list s \<noteq> [] \<Longrightarrow> node_hash (Some s) 0 = Ok (Hash (hd (node_list s)))"
  using node_hash_nat [of 0 s] by (simp add: hd_conv_nth)

lemma skips_eq: "node_list s \<noteq> [] \<Longrightarrow> skips s (int i) = Ok (i < start s)"
  by (simp add: skips_def node_hash_0 start_def)

lemma start_le: "node_list s \<noteq> [] \<Longrightarrow> start s \<le> Length s"
  by (simp add: start_def Suc_leI)

lemma no_nodes_eq: "no_nodes (Some s) = (node_list s = [])"
  by (simp add: no_nodes_def flip: Length_node_list)

section \<open>Reading all transactions\<close>

lemma read_txs_Ok:
  assumes "ReadFrom r = (r', Ok tx)" and "\<not> (i = 1 \<and> IsCoinbase tx)" and "i < length ns"
    and "Hash (ns ! i) = TxID tx" and "length ns \<le> length xs"
  shows "read_txs ReadFrom IsCoinbase TxID ns i xs r =
    read_txs ReadFrom IsCoinbase TxID ns (Suc i) (xs[i := Some tx]) r'"
  using assms by (subst read_txs.simps) (auto simp: index_set_def)

lemma read_txs_coinbase:
  assumes "ReadFrom r = (r', Ok tx)" and "IsCoinbase tx" and "xs \<noteq> []"
  shows "read_txs ReadFrom IsCoinbase TxID ns 1 xs r = read_txs ReadFrom IsCoinbase TxID ns 1 (xs[0 := Some tx]) r'"
  using assms by (subst read_txs.simps) (simp add: index_set_def)

lemma read_txs_Fail:
  "ReadFrom r = (r', Fail e) \<Longrightarrow> read_txs ReadFrom IsCoinbase TxID ns i xs r =
    Some (r', xs, if errors_is e IoEOF then Ok () else Fail (Wrap ''error reading transaction: %w'' [e]))"
  by (subst read_txs.simps) simp

lemma read_txs_enc:
  assumes "codec enc ReadFrom valid" and "reports_eof ReadFrom"
  shows "\<forall>tx\<in>set txs. valid tx \<Longrightarrow> belong TxID s i txs \<Longrightarrow> Length s \<le> length xs \<Longrightarrow>
    \<forall>j < length txs. i + j = 1 \<longrightarrow> \<not> IsCoinbase (txs ! j) \<Longrightarrow>
    rdata r = concat (map enc txs) \<Longrightarrow> rerr r = IoEOF \<Longrightarrow>
    \<exists>r'. read_txs ReadFrom IsCoinbase TxID (node_list s) i xs r =
      Some (r', take i xs @ map Some txs @ drop (i + length txs) xs, Ok ())"
proof (induction txs arbitrary: i xs r)
  case Nil
  then obtain r' e where "ReadFrom r = (r', Fail e)" "errors_is e IoEOF"
    using assms(2) by (auto simp: reports_eof_def)
  then show ?case by (simp add: read_txs_Fail)
next
  case (Cons tx txs)
  let ?r = "r\<lparr>rdata := concat (map enc txs)\<rparr>" and ?xs = "xs[i := Some tx]"
  have d: "ReadFrom r = (?r, Ok tx)"
    using Cons.prems(1,5) by (intro codec.dec_enc [OF assms(1)]) simp_all
  have i: "i < Length s" "Hash (node_list s ! i) = TxID tx" "belong TxID s (Suc i) txs"
    using Cons.prems(2) by (simp_all add: belong_Cons)
  have "\<not> (i = 1 \<and> IsCoinbase tx)" using Cons.prems(4) by force
  then have "read_txs ReadFrom IsCoinbase TxID (node_list s) i xs r =
      read_txs ReadFrom IsCoinbase TxID (node_list s) (Suc i) ?xs ?r"
    using d i(1,2) Cons.prems(3) by (intro read_txs_Ok) (simp_all add: Length_node_list)
  moreover obtain r' where "read_txs ReadFrom IsCoinbase TxID (node_list s) (Suc i) ?xs ?r =
      Some (r', take (Suc i) ?xs @ map Some txs @ drop (Suc i + length txs) ?xs, Ok ())"
    using Cons.IH [of "Suc i" ?xs ?r] Cons.prems i(3) by force
  moreover have "take (Suc i) ?xs = take i xs @ [Some tx]"
    using i(1) Cons.prems(3) by (simp add: take_Suc_conv_app_nth)
  ultimately show ?case by simp
qed


section \<open>Writing\<close>

lemma go_write_unlimited: "room w = None \<Longrightarrow> go_write bs w = (w\<lparr>sent := sent w @ bs\<rparr>, Ok ())"
  by (simp add: go_write_def)

lemma check_txs_holds: "holds_txs xs i txs \<Longrightarrow> check_txs xs (length txs) i = Ok ()"
  by (induction txs arbitrary: i) (auto simp: holds_txs_Cons index_get_nat)

lemma check_txs_missing:
  "i + k \<le> length xs \<Longrightarrow> i \<le> j \<Longrightarrow> j < i + k \<Longrightarrow> 0 < j \<Longrightarrow> xs ! j = None \<Longrightarrow>
    check_txs xs k i = Fail ErrSubtreeLengthMismatch"
proof (induction k arbitrary: i)
  case (Suc k)
  then show ?case using Suc.IH [of "Suc i"] by (cases "j = i") (auto simp: index_get_nat)
qed simp

lemma write_txs_holds:
  "serializes enc SerializeBytes \<Longrightarrow> holds_txs xs i txs \<Longrightarrow>
    write_txs SerializeBytes xs (length txs) i = Ok (concat (map enc txs))"
  by (induction txs arbitrary: i) (auto simp: holds_txs_Cons index_get_nat serializes_def)

lemma Data_Serialize_carries:
  assumes "serializes enc SerializeBytes" and "carries s txs d"
  shows "Data_Serialize SerializeBytes d = Ok (concat (map enc txs))"
proof -
  have s: "DataSubtree d = Some s" "node_list s \<noteq> []" "Length s - start s = length txs"
    "holds_txs (Txs d) (start s) txs" using assms(2) by (auto simp: carries_def)
  have "Data_Serialize SerializeBytes d =
      obind (check_txs (Txs d) (Length s - start s) (start s)) (\<lambda>_.
        write_txs SerializeBytes (Txs d) (Length s - start s) (start s))"
    using s(1,2) by (simp add: Data_Serialize_def node_hash_0 start_def Let_def)
  then show ?thesis
    using check_txs_holds [OF s(4)] write_txs_holds [OF assms(1) s(4)] by (simp add: s(3))
qed

lemma write_range_holds:
  "streams enc SerializeTo \<Longrightarrow> node_list s \<noteq> [] \<Longrightarrow> start s \<le> i \<Longrightarrow> holds_txs xs i txs \<Longrightarrow> room w = None \<Longrightarrow>
    write_range SerializeTo s xs (length txs) (int i) w =
      (w\<lparr>sent := sent w @ concat (map enc txs)\<rparr>, Ok ())"
proof (induction txs arbitrary: i w)
  case (Cons tx txs)
  let ?w = "w\<lparr>sent := sent w @ enc tx\<rparr>"
  have "SerializeTo tx w = (?w, Ok ())" using Cons.prems(1,5) by (simp add: streams_def go_write_unlimited)
  then show ?case
    using Cons.IH [of "Suc i" ?w] Cons.prems
    by (simp add: skips_eq holds_txs_Cons index_get_nat add.commute)
qed simp

lemma write_range_append:
  "write_range SerializeTo s xs (j + k) i w =
    (case write_range SerializeTo s xs j i w of
       (w', Ok _) \<Rightarrow> write_range SerializeTo s xs k (i + int j) w'
     | (w', Fail e) \<Rightarrow> (w', Fail e)
     | (w', Panic p) \<Rightarrow> (w', Panic p))"
proof (induction j arbitrary: i w)
  case (Suc j)
  have next_index: "i + int (Suc j) = i + 1 + int j" by simp
  show ?case
    unfolding next_index using Suc.IH [of "i + 1"]
    by (auto split: prod.split outcome.split option.split bool.split)
qed simp

lemma WriteTransactionChunk_filter:
  assumes "serializes enc SerializeBytes"
  shows "room w = None \<Longrightarrow> WriteTransactionChunk SerializeBytes txs w =
    (w\<lparr>sent := sent w @ concat (map enc (List.map_filter id txs))\<rparr>, Ok ())"
proof (induction txs arbitrary: w)
  case (Cons tx txs)
  then show ?case
    using assms Cons.IH [of "w\<lparr>sent := sent w @ enc (the tx)\<rparr>"]
    by (cases tx) (simp_all add: map_filter_simps go_write_unlimited serializes_def)
qed (simp add: map_filter_simps)

section \<open>Reading a range\<close>

lemma belong_append:
  "belong TxID s i (as @ bs) \<longleftrightarrow> belong TxID s i as \<and> belong TxID s (i + length as) bs"
  if "i + length as \<le> Length s"
  using that
proof (induction as arbitrary: i)
  case (Cons a as)
  then show ?case using Cons.IH [of "Suc i"] by (simp add: belong_Cons)
qed (simp add: belong_def)

lemma read_range_enc:
  assumes "codec enc ReadFrom valid"
  shows "node_list s \<noteq> [] \<Longrightarrow> start s \<le> i \<Longrightarrow> \<forall>tx\<in>set txs. valid tx \<Longrightarrow> belong TxID s i txs \<Longrightarrow>
    Length s \<le> length xs \<Longrightarrow> rdata r = concat (map enc txs) @ rest \<Longrightarrow>
    read_range ReadFrom TxID s (length txs) (int i) xs n r =
      (r\<lparr>rdata := rest\<rparr>, take i xs @ map Some txs @ drop (i + length txs) xs, n + length txs, Ok ())"
proof (induction txs arbitrary: i xs n r)
  case (Cons tx txs)
  let ?r = "r\<lparr>rdata := concat (map enc txs) @ rest\<rparr>" and ?xs = "xs[i := Some tx]"
  have d: "ReadFrom r = (?r, Ok tx)"
    using Cons.prems(3,6) by (intro codec.dec_enc [OF assms]) simp_all
  have i: "i < Length s" "Hash (node_list s ! i) = TxID tx" "belong TxID s (Suc i) txs"
    using Cons.prems(4) by (simp_all add: belong_Cons)
  have "read_range ReadFrom TxID s (length (tx # txs)) (int i) xs n r =
      read_range ReadFrom TxID s (length txs) (int (Suc i)) ?xs (Suc n) ?r"
    using d i(1,2) Cons.prems(1,2,5) by (simp add: skips_eq node_hash_nat index_set_nat add.commute)
  moreover have "take (Suc i) ?xs = take i xs @ [Some tx]"
    using i(1) Cons.prems(5) by (simp add: take_Suc_conv_app_nth)
  ultimately show ?case
    using Cons.IH [of "Suc i" ?xs ?r "Suc n"] Cons.prems i(3) by simp
qed simp

text \<open>A range from any index: the placeholder is skipped.\<close>

lemma read_range_from:
  assumes "codec enc ReadFrom valid" and s: "node_list s \<noteq> []" and "\<forall>tx\<in>set txs. valid tx"
    and "belong TxID s (max a (start s)) txs" and "max a (start s) + length txs = max b (start s)"
    and "a \<le> b" and "Length s \<le> length xs" and "rdata r = concat (map enc txs) @ rest"
  shows "read_range ReadFrom TxID s (b - a) (int a) xs n r =
    (r\<lparr>rdata := rest\<rparr>, take (max a (start s)) xs @ map Some txs @ drop (max b (start s)) xs,
     n + length txs, Ok ())"
proof (cases "start s \<le> a")
  case True
  then have "b - a = length txs" "max a (start s) = a" "max b (start s) = a + length txs"
    using assms(5,6) by simp_all
  then show ?thesis using read_range_enc [OF assms(1) s True assms(3)] assms(4,7,8) by simp
next
  case False
  then have st: "start s = 1" "a = 0" by (simp_all add: start_def split: if_splits)
  show ?thesis
  proof (cases b)
    case 0
    then show ?thesis using st assms(5,8) by simp
  next
    case (Suc k)
    then have "k = length txs" using st assms(5) by simp
    moreover have "read_range ReadFrom TxID s (Suc k) 0 xs n r = read_range ReadFrom TxID s k 1 xs n r"
      using skips_eq [OF s, of 0] st by simp
    ultimately show ?thesis
      using read_range_enc [OF assms(1) s, of 1 txs TxID xs r rest n] assms(3,4,7,8) st Suc by simp
  qed
qed

lemma read_chunk_enc:
  assumes "codec enc ReadFrom valid" and "reports_eof ReadFrom" and "node_list s \<noteq> []"
  shows "start s \<le> i \<Longrightarrow> \<forall>tx\<in>set txs. valid tx \<Longrightarrow> belong TxID s i txs \<Longrightarrow>
    length txs \<le> k \<Longrightarrow> rdata r = concat (map enc txs) \<Longrightarrow> rerr r = IoEOF \<Longrightarrow>
    \<exists>r'. read_chunk ReadFrom TxID s k (int i) acc r = (r', acc @ txs, Ok ())"
proof (induction txs arbitrary: i k acc r)
  case Nil
  then obtain r' e where "ReadFrom r = (r', Fail e)" "errors_is e IoEOF"
    using assms(2) by (auto simp: reports_eof_def)
  with Nil.prems(1) show ?case by (cases k) (simp_all add: skips_eq assms(3))
next
  case (Cons tx txs)
  let ?r = "r\<lparr>rdata := concat (map enc txs)\<rparr>"
  have d: "ReadFrom r = (?r, Ok tx)"
    using Cons.prems(2,5) by (intro codec.dec_enc [OF assms(1)]) simp_all
  have i: "i < Length s" "Hash (node_list s ! i) = TxID tx" "belong TxID s (Suc i) txs"
    using Cons.prems(3) by (simp_all add: belong_Cons)
  obtain j where k: "k = Suc j" "length txs \<le> j" using Cons.prems(4) by (cases k) auto
  have "read_chunk ReadFrom TxID s k (int i) acc r =
      read_chunk ReadFrom TxID s j (int (Suc i)) (acc @ [tx]) ?r"
    using d i(1,2) Cons.prems(1) k(1) by (simp add: skips_eq assms(3) node_hash_nat add.commute)
  then show ?case using Cons.IH [of "Suc i" j ?r "acc @ [tx]"] Cons.prems i(3) k(2) by simp
qed

section \<open>Reading ends, and accepts only what belongs\<close>

definition accepted :: "('tx \<Rightarrow> bool) \<Rightarrow> ('tx \<Rightarrow> hash) \<Rightarrow> node list \<Rightarrow> 'tx option list \<Rightarrow> bool" where
  "accepted IsCoinbase TxID ns xs =
     (length xs = length ns \<and>
      (\<forall>k < length ns. \<forall>tx. xs ! k = Some tx \<longrightarrow> TxID tx = Hash (ns ! k) \<or> (k = 0 \<and> IsCoinbase tx)))"

lemma accepted_update:
  "accepted IsCoinbase TxID ns xs \<Longrightarrow> i < length ns \<Longrightarrow> TxID tx = Hash (ns ! i) \<or> (i = 0 \<and> IsCoinbase tx) \<Longrightarrow>
    accepted IsCoinbase TxID ns (xs[i := Some tx])"
  by (auto simp: accepted_def nth_list_update)

lemma read_txs_total:
  assumes "consumes ReadFrom" and "panic_free ReadFrom" and "ns \<noteq> []"
  shows "accepted IsCoinbase TxID ns xs \<Longrightarrow>
    \<exists>r' xs' res. read_txs ReadFrom IsCoinbase TxID ns i xs r = Some (r', xs', res) \<and> \<not> is_panic res \<and>
      accepted IsCoinbase TxID ns xs'"
proof (induction "length (rdata r)" arbitrary: i xs r rule: less_induct)
  case less
  obtain r' x where d: "ReadFrom r = (r', x)" by fastforce
  have len: "length xs = length ns" using less.prems by (simp add: accepted_def)
  show ?case
  proof (cases x)
    case (Ok tx)
    then have shorter: "length (rdata r') < length (rdata r)" using d assms(1) by (auto simp: consumes_def)
    consider (coinbase) "i = 1" "IsCoinbase tx" | (match) "\<not> (i = 1 \<and> IsCoinbase tx)" "i < length ns"
        "Hash (ns ! i) = TxID tx"
      | (refuse) "\<not> (i = 1 \<and> IsCoinbase tx)" "length ns \<le> i \<or> Hash (ns ! i) \<noteq> TxID tx" by force
    then show ?thesis
    proof cases
      case coinbase
      have "accepted IsCoinbase TxID ns (xs[0 := Some tx])"
        using less.prems coinbase(2) assms(3) by (intro accepted_update) simp_all
      moreover have "xs \<noteq> []" using len assms(3) by auto
      ultimately show ?thesis
        using less.hyps [OF shorter, of "xs[0 := Some tx]" 1] d Ok coinbase
          read_txs_coinbase [of ReadFrom r r' tx IsCoinbase xs TxID ns] by simp
    next
      case match
      have "accepted IsCoinbase TxID ns (xs[i := Some tx])"
        using less.prems match(2,3) by (intro accepted_update) simp_all
      then show ?thesis
        using less.hyps [OF shorter, of "xs[i := Some tx]" "Suc i"] d Ok match len
          read_txs_Ok [of ReadFrom r r' tx i IsCoinbase ns TxID xs] by simp
    next
      case refuse
      then have "\<exists>e. read_txs ReadFrom IsCoinbase TxID ns i xs r = Some (r', xs, Fail e)"
        using d Ok by (subst read_txs.simps) auto
      then show ?thesis using less.prems by auto
    qed
  next
    case (Fail e)
    then show ?thesis using d less.prems by (simp add: read_txs_Fail)
  next
    case (Panic p)
    then show ?thesis using d assms(2) by (auto simp: panic_free_def dest: spec [of _ r])
  qed
qed

lemma make_txs:
  "allocatable (node_list s) \<Longrightarrow>
    make_slice 8 None (int (Length s)) (int (Length s)) = Ok (Slice (replicate (Length s) None) [])"
  by (simp add: make_slice_def allocatable_def Length_node_list)

lemma serializeFromReader_eq:
  assumes "node_list s \<noteq> []" and "allocatable (node_list s)"
  shows "serializeFromReader ReadFrom IsCoinbase TxID \<lparr>DataSubtree = Some s, Txs = ys\<rparr> r =
    map_option (\<lambda>(r', xs', res). (r', \<lparr>DataSubtree = Some s, Txs = xs'\<rparr>, res))
      (read_txs ReadFrom IsCoinbase TxID (node_list s) (start s) (replicate (Length s) None) r)"
  using assms by (simp add: serializeFromReader_def no_nodes_eq node_hash_0 start_def make_txs)

lemma NewSubtreeDataFromBytes_enc:
  assumes "codec enc ReadFrom valid" and "reports_eof ReadFrom" and "node_list s \<noteq> []"
    and "allocatable (node_list s)" and "\<forall>tx\<in>set txs. valid tx" and "belong TxID s (start s) txs"
    and "\<forall>j < length txs. start s + j = 1 \<longrightarrow> \<not> IsCoinbase (txs ! j)"
  shows "NewSubtreeDataFromBytes ReadFrom IsCoinbase TxID (Some s) (concat (map enc txs)) =
    Some (Ok \<lparr>DataSubtree = Some s, Txs = replicate (start s) None @ map Some txs @
      replicate (Length s - (start s + length txs)) None\<rparr>)"
proof -
  let ?xs = "replicate (Length s) None"
  obtain r' where r': "read_txs ReadFrom IsCoinbase TxID (node_list s) (start s) ?xs
      (bytes_reader (concat (map enc txs))) =
      Some (r', take (start s) ?xs @ map Some txs @ drop (start s + length txs) ?xs, Ok ())"
    using read_txs_enc [OF assms(1,2,5,6), of ?xs IsCoinbase "bytes_reader (concat (map enc txs))"] assms(7)
    by auto
  moreover have "min (start s) (Length s) = start s" using start_le [OF assms(3)] by simp
  ultimately show ?thesis
    using assms(3,4) by (simp add: NewSubtreeDataFromBytes_def serializeFromReader_eq)
qed

section \<open>Properties\<close>

text \<open>Transactions that are their own id, in 32 bytes.\<close>

lemma read_hash_format:
  "codec hash_bytes read_hash (\<lambda>_. True)" "reports_eof read_hash" "consumes read_hash" "panic_free read_hash"
  "serializes hash_bytes (\<lambda>tx. case tx of None \<Rightarrow> Panic NilDereference | Some h \<Rightarrow> Ok (hash_bytes h))"
  "streams hash_bytes (\<lambda>h. go_write (hash_bytes h))"
proof -
  show "codec hash_bytes read_hash (\<lambda>_. True)" by (rule hash_codec.codec_axioms)
  show "consumes read_hash"
    by (auto simp: consumes_def read_hash_def dmap_def read_full_def split: if_splits)
qed (auto simp: reports_eof_def read_hash_def dmap_def read_full_def panic_free_def serializes_def streams_def)

definition hash_serializer :: "hash option \<Rightarrow> byte list outcome" where
  "hash_serializer tx = (case tx of None \<Rightarrow> Panic NilDereference | Some h \<Rightarrow> Ok (hash_bytes h))"

definition coinbase_subtree :: subtree where
  "coinbase_subtree = zero_subtree\<lparr>Height := 2, treeSize := 4,
     Nodes := Slice [\<lparr>Hash = CoinbasePlaceholder, Fee = 0, NodeSizeInBytes = 0\<rparr>, leaf 2, leaf 3] [zero_node]\<rparr>"

lemma coinbase_subtree_simps [simp]:
  "node_list coinbase_subtree = [\<lparr>Hash = CoinbasePlaceholder, Fee = 0, NodeSizeInBytes = 0\<rparr>, leaf 2, leaf 3]"
  "Length coinbase_subtree = 3" "start coinbase_subtree = 1" "Size coinbase_subtree = 4"
  by (simp_all add: coinbase_subtree_def Length_def slice_len_def start_def Size_def slice_cap_def)

lemma coinbase_subtree_belong:
  "belong id coinbase_subtree 1 [2, 3]" "belong id coinbase_subtree 1 [2]"
  "allocatable (node_list coinbase_subtree)"
  by (auto simp: belong_def leaf_def allocatable_def max_alloc_def less_Suc_eq)

text \<open>C11: The transactions of a subtree survive their serialization: what \<open>Serialize\<close> writes for data
  that carries a transaction for every node, \<open>NewSubtreeDataFromBytes\<close> reads back at the same places;
  the place of a coinbase placeholder comes back empty, whatever stood there.\<close>

theorem data_roundtrip:
  assumes "codec enc ReadFrom valid" and "reports_eof ReadFrom" and "serializes enc SerializeBytes"
    and "carries s txs d" and "allocatable (node_list s)" and "\<forall>tx\<in>set txs. valid tx"
    and "belong TxID s (start s) txs" and "\<forall>j < length txs. start s + j = 1 \<longrightarrow> \<not> IsCoinbase (txs ! j)"
  shows "\<exists>b d'. Data_Serialize SerializeBytes d = Ok b \<and>
    NewSubtreeDataFromBytes ReadFrom IsCoinbase TxID (Some s) b = Some (Ok d') \<and>
    DataSubtree d' = Some s \<and> length (Txs d') = Length s \<and>
    (\<forall>i < Length s. Txs d' ! i = (if i < start s then None else Txs d ! i))"
proof -
  have s: "node_list s \<noteq> []" "start s + length txs = Length s" using assms(4) by (simp_all add: carries_def)
  have "(replicate (start s) None @ map Some txs) ! i = (if i < start s then None else Txs d ! i)"
    if "i < Length s" for i
    using that s(2) carries_nth [OF assms(4), of i] by (auto simp: nth_append)
  then show ?thesis
    using Data_Serialize_carries [OF assms(3,4)] s(2)
      NewSubtreeDataFromBytes_enc [OF assms(1,2) s(1) assms(5-8)] by simp
qed

theorem data_roundtrip_witness:
  "\<exists>b d'. Data_Serialize hash_serializer \<lparr>DataSubtree = Some coinbase_subtree, Txs = [Some 9, Some 2, Some 3, None]\<rparr> = Ok b \<and>
    NewSubtreeDataFromBytes read_hash (\<lambda>h. h = 9) id (Some coinbase_subtree) b = Some (Ok d') \<and>
    Txs d' ! 0 = None \<and> Txs d' ! 2 = Some 3"
proof -
  let ?d = "\<lparr>DataSubtree = Some coinbase_subtree, Txs = [Some 9, Some 2, Some 3, None :: hash option]\<rparr>"
  have "carries coinbase_subtree [2, 3] ?d" by (auto simp: carries_def holds_txs_def less_Suc_eq)
  from data_roundtrip [OF read_hash_format(1,2) _ this coinbase_subtree_belong(3), of hash_serializer id "\<lambda>h. h = 9"]
  show ?thesis
    using coinbase_subtree_belong(1) read_hash_format(5) by (force simp: hash_serializer_def [abs_def])
qed

text \<open>Incomplete data are accepted: the bytes of the first transactions only are read without an error,
  the other places stay empty, and it is a later \<open>Serialize\<close> that refuses them.\<close>

theorem incomplete_data_accepted:
  assumes "codec enc ReadFrom valid" and "reports_eof ReadFrom" and "node_list s \<noteq> []"
    and "allocatable (node_list s)" and "\<forall>tx\<in>set txs. valid tx" and "belong TxID s (start s) txs"
    and "\<forall>j < length txs. start s + j = 1 \<longrightarrow> \<not> IsCoinbase (txs ! j)"
    and "start s + length txs < Length s" and "0 < start s + length txs"
  shows "\<exists>d. NewSubtreeDataFromBytes ReadFrom IsCoinbase TxID (Some s) (concat (map enc txs)) = Some (Ok d) \<and>
    Txs d ! (Length s - 1) = None \<and> Data_Serialize SerializeBytes d = Fail ErrSubtreeLengthMismatch"
proof -
  let ?d = "\<lparr>DataSubtree = Some s, Txs = replicate (start s) None @ map Some txs @
      replicate (Length s - (start s + length txs)) None\<rparr>"
  have two: "1 < Length s" using assms(8,9) by linarith
  have last: "Txs ?d ! (Length s - 1) = None" using assms(8) by (auto simp: nth_append)
  moreover have "check_txs (Txs ?d) (Length s - start s) (start s) = Fail ErrSubtreeLengthMismatch"
    using assms(8) last two by (intro check_txs_missing [where j = "Length s - 1"]) simp_all
  then have "Data_Serialize SerializeBytes ?d = Fail ErrSubtreeLengthMismatch"
    using assms(3) by (simp add: Data_Serialize_def node_hash_0 start_def Let_def split: if_splits)
  ultimately show ?thesis
    using NewSubtreeDataFromBytes_enc [where enc = enc and valid = valid, OF assms(1-7)] by blast
qed

theorem incomplete_data_accepted_witness:
  "\<exists>d. NewSubtreeDataFromBytes read_hash (\<lambda>h. h = 9) id (Some coinbase_subtree) (hash_bytes 2) = Some (Ok d) \<and>
    Data_Serialize hash_serializer d = Fail ErrSubtreeLengthMismatch"
  using incomplete_data_accepted [OF read_hash_format(1,2) _ coinbase_subtree_belong(3), of "[2]" id "\<lambda>h. h = 9"
      hash_serializer] coinbase_subtree_belong(2) by force



text \<open>C39: In a subtree without a placeholder, a coinbase transaction that follows the first transaction
  replaces it, and is not compared with any node.\<close>

theorem coinbase_replaces_first:
  assumes "codec enc ReadFrom valid" and "reports_eof ReadFrom" and "node_list s \<noteq> []"
    and "allocatable (node_list s)" and "start s = 0" and "valid tx" and "valid cb"
    and "Hash (hd (node_list s)) = TxID tx" and "IsCoinbase cb"
  shows "\<exists>d. NewSubtreeDataFromBytes ReadFrom IsCoinbase TxID (Some s) (enc tx @ enc cb) = Some (Ok d) \<and>
    Txs d ! 0 = Some cb"
proof -
  let ?xs = "replicate (Length s) None" and ?r = "bytes_reader (enc tx @ enc cb)"
  let ?xs1 = "?xs[0 := Some tx]"
  have pos: "0 < Length s" using assms(3) by simp
  have d: "ReadFrom ?r = (bytes_reader (enc cb), Ok tx)" "ReadFrom (bytes_reader (enc cb)) = (bytes_reader [], Ok cb)"
    using codec.dec_enc [OF assms(1,6), of ?r "enc cb"] codec.dec_enc [OF assms(1,7), of "bytes_reader (enc cb)" "[]"]
    by (simp_all add: bytes_reader_def)
  obtain r' e where e: "ReadFrom (bytes_reader []) = (r', Fail e)" "errors_is e IoEOF"
    using assms(2) by (auto simp: reports_eof_def dest: spec [of _ "bytes_reader []"])
  have "read_txs ReadFrom IsCoinbase TxID (node_list s) 0 ?xs ?r =
      read_txs ReadFrom IsCoinbase TxID (node_list s) 1 ?xs1 (bytes_reader (enc cb))"
    using d(1) pos assms(8) hd_conv_nth [OF assms(3)] by (simp add: read_txs_Ok Length_node_list)
  also have "\<dots> = Some (r', ?xs1[0 := Some cb], Ok ())"
    using d(2) e pos assms(9) by (subst read_txs_coinbase) (auto simp: read_txs_Fail)
  finally show ?thesis
    using pos assms(5) by (simp add: NewSubtreeDataFromBytes_def serializeFromReader_eq [OF assms(3,4)])
qed

theorem coinbase_replaces_first_witness:
  "\<exists>d. NewSubtreeDataFromBytes read_hash (\<lambda>h. h = 9) id (Some indexed_subtree) (hash_bytes 1 @ hash_bytes 9) =
    Some (Ok d) \<and> Txs d ! 0 = Some 9"
proof -
  have s: "start indexed_subtree = 0" "Hash (hd (node_list indexed_subtree)) = id 1"
    by (simp_all add: start_def indexed_subtree_def leaf_def CoinbasePlaceholder_eq)
  have "node_list indexed_subtree \<noteq> []" "allocatable (node_list indexed_subtree)"
    by (simp_all add: indexed_subtree_def allocatable_def max_alloc_def)
  then show ?thesis
    using coinbase_replaces_first [where s = indexed_subtree and tx = 1 and cb = 9 and enc = hash_bytes
        and ReadFrom = read_hash and TxID = id and IsCoinbase = "\<lambda>h. h = 9" and valid = "\<lambda>_. True"]
      read_hash_format(1,2) s by simp
qed

text \<open>\<open>AddTx\<close> stores a transaction in a place of the subtree exactly if it is the transaction of the node
  there, or the coinbase transaction for a placeholder in the first place; otherwise it reports
  \<open>ErrTxHashMismatch\<close> and changes nothing.\<close>

theorem AddTx_stores_matching:
  assumes "DataSubtree d = Some s" and "i < Length s" and "Length s \<le> length (Txs d)"
  shows "AddTx IsCoinbase TxID tx (int i) d =
    (if Hash (node_list s ! i) = TxID tx \<or>
        (i = 0 \<and> IsCoinbase tx \<and> Hash (node_list s ! 0) = CoinbasePlaceholder)
     then (d\<lparr>Txs := (Txs d)[i := Some tx]\<rparr>, Ok ())
     else (d, Fail ErrTxHashMismatch))"
proof -
  have "store_tx tx (int i) d = (d\<lparr>Txs := (Txs d)[i := Some tx]\<rparr>, Ok ())"
    using assms by (simp add: store_tx_def index_set_nat)
  then show ?thesis using assms by (auto simp: AddTx_def node_hash_nat)
qed

theorem AddTx_stores_matching_witness:
  "\<exists>d. AddTx (\<lambda>h. h = 9) id 9 0 \<lparr>DataSubtree = Some coinbase_subtree, Txs = [None, None, None]\<rparr> = (d, Ok ()) \<and>
    Txs d = [Some 9, None, None]"
  using AddTx_stores_matching [of "\<lparr>DataSubtree = Some coinbase_subtree, Txs = [None, None, None]\<rparr>"
      coinbase_subtree 0 "\<lambda>h. h = 9" id 9] by simp

text \<open>C27: Writing the transactions chunk by chunk is writing them at once: for any indices \<open>a\<close>, \<open>b\<close>, \<open>c\<close> in
  order, the call for \<open>[a, c)\<close> leaves the writer, and returns the error, of the call for \<open>[a, b)\<close>
  followed, if it succeeds, by the one for \<open>[b, c)\<close>, also when the writer fails midway; and the whole
  range writes exactly the bytes of \<open>Serialize\<close>.\<close>

theorem chunked_writes:
  assumes "streams enc SerializeTo" and "serializes enc SerializeBytes" and "carries s txs d"
    and "a \<le> b" and "b \<le> c" and "room w0 = None"
  shows "WriteTransactionsToWriter SerializeTo a c d w =
      (case WriteTransactionsToWriter SerializeTo a b d w of
         (w', Ok _) \<Rightarrow> WriteTransactionsToWriter SerializeTo b c d w'
       | (w', Fail e) \<Rightarrow> (w', Fail e)
       | (w', Panic p) \<Rightarrow> (w', Panic p)) \<and>
    (\<exists>bs. Data_Serialize SerializeBytes d = Ok bs \<and>
      WriteTransactionsToWriter SerializeTo 0 (int (Length s)) d w0 = (w0\<lparr>sent := sent w0 @ bs\<rparr>, Ok ()))"
proof (intro conjI exI)
  have s: "DataSubtree d = Some s" "node_list s \<noteq> []" "start s + length txs = Length s"
    "holds_txs (Txs d) (start s) txs" using assms(3) by (auto simp: carries_def)
  obtain j k where "b = a + int j" "c = b + int k" using assms(4,5) by (metis zle_iff_zadd)
  then have "nat (b - a) = j" "nat (c - b) = k" "nat (c - a) = j + k" "b = a + int j" by simp_all
  then show "WriteTransactionsToWriter SerializeTo a c d w =
      (case WriteTransactionsToWriter SerializeTo a b d w of
         (w', Ok _) \<Rightarrow> WriteTransactionsToWriter SerializeTo b c d w'
       | (w', Fail e) \<Rightarrow> (w', Fail e)
       | (w', Panic p) \<Rightarrow> (w', Panic p))"
    using write_range_append [of SerializeTo s "Txs d" j k a w]
    by (simp add: WriteTransactionsToWriter_def s(1))
  show "Data_Serialize SerializeBytes d = Ok (concat (map enc txs))"
    using assms(2,3) by (rule Data_Serialize_carries)
  have "write_range SerializeTo s (Txs d) (Length s) 0 w0 =
      write_range SerializeTo s (Txs d) (length txs) (int (start s)) w0"
    using s(3) skips_eq [OF s(2), of 0] by (cases "start s = 0") (auto simp: start_def simp flip: s(3) split: if_splits)
  then show "WriteTransactionsToWriter SerializeTo 0 (int (Length s)) d w0 =
      (w0\<lparr>sent := sent w0 @ concat (map enc txs)\<rparr>, Ok ())"
    using write_range_holds [OF assms(1) s(2) order_refl s(4) assms(6)]
    by (simp add: WriteTransactionsToWriter_def s(1))
qed

theorem chunked_writes_witness:
  "\<exists>bs. Data_Serialize hash_serializer \<lparr>DataSubtree = Some coinbase_subtree, Txs = [None, Some 2, Some 3]\<rparr> = Ok bs \<and>
    WriteTransactionsToWriter (\<lambda>h. go_write (hash_bytes h)) 0 3
      \<lparr>DataSubtree = Some coinbase_subtree, Txs = [None, Some 2, Some 3]\<rparr>
      \<lparr>sent = [7], room = None, werr = IoEOF\<rparr> = (\<lparr>sent = 7 # bs, room = None, werr = IoEOF\<rparr>, Ok ())"
proof -
  let ?d = "\<lparr>DataSubtree = Some coinbase_subtree, Txs = [None, Some 2, Some 3 :: hash option]\<rparr>"
  have "carries coinbase_subtree [2, 3] ?d" by (auto simp: carries_def holds_txs_def less_Suc_eq)
  from conjunct2 [OF chunked_writes [OF read_hash_format(6,5) this, of 0 1 3 "\<lparr>sent = [7], room = None, werr = IoEOF\<rparr>"]]
  show ?thesis by (auto simp: hash_serializer_def [abs_def])
qed

lemma holds_txs_nth: "holds_txs xs p ys \<Longrightarrow> p \<le> i \<Longrightarrow> i < p + length ys \<Longrightarrow> xs ! i = Some (ys ! (i - p))"
  unfolding holds_txs_def by (metis le_add_diff_inverse nat_add_left_cancel_less)

text \<open>What a splice of transactions into a slice leaves.\<close>

lemma splice_txs:
  assumes "p + length ys \<le> length xs" and "zs = take p xs @ map Some ys @ drop (p + length ys) xs"
  shows "length zs = length xs" "holds_txs zs p ys"
    "i < length xs \<Longrightarrow> i < p \<or> p + length ys \<le> i \<Longrightarrow> zs ! i = xs ! i"
  using assms by (auto simp: holds_txs_def nth_append min_def)

lemma ReadTransactionsFromReader_range:
  assumes "codec enc ReadFrom valid" and "node_list s \<noteq> []" and "\<forall>tx\<in>set txs. valid tx"
    and "belong TxID s (max a (start s)) txs" and "max a (start s) + length txs = max b (start s)"
    and "a \<le> b" and "b \<le> Length s" and "Length s \<le> length (Txs d)" and "DataSubtree d = Some s"
    and "rdata r = concat (map enc txs) @ rest"
  shows "\<exists>zs. ReadTransactionsFromReader ReadFrom TxID (int a) (int b) d r =
      (r\<lparr>rdata := rest\<rparr>, d\<lparr>Txs := zs\<rparr>, length txs, Ok ()) \<and>
    length zs = length (Txs d) \<and> holds_txs zs (max a (start s)) txs \<and>
    (\<forall>i < length zs. i < max a (start s) \<or> max b (start s) \<le> i \<longrightarrow> zs ! i = Txs d ! i)"
proof -
  let ?zs = "take (max a (start s)) (Txs d) @ map Some txs @ drop (max a (start s) + length txs) (Txs d)"
  have "max b (start s) \<le> Length s" using start_le [OF assms(2)] assms(7) by simp
  then have fits: "max a (start s) + length txs \<le> length (Txs d)" using assms(5,8) by simp
  have "nat (int b - int a) = b - a" by simp
  then have "ReadTransactionsFromReader ReadFrom TxID (int a) (int b) d r =
      (r\<lparr>rdata := rest\<rparr>, d\<lparr>Txs := ?zs\<rparr>, length txs, Ok ())"
    using read_range_from [OF assms(1-6) assms(8,10), of 0] assms(2,5,9)
    by (simp add: ReadTransactionsFromReader_def no_nodes_eq)
  then show ?thesis using splice_txs [OF fits refl] assms(5) by (intro exI [of _ ?zs]) simp
qed

text \<open>C25: Streaming in chunks is a round trip: from the bytes \<open>Serialize\<close> wrote, reading the range up to \<open>k\<close>
  and then the rest, into fresh data, restores the transaction of every node, counts them, and leaves
  the reader right behind them.\<close>

theorem streamed_roundtrip:
  assumes "codec enc ReadFrom valid" and "serializes enc SerializeBytes" and "carries s txs d"
    and "\<forall>tx\<in>set txs. valid tx" and "belong TxID s (start s) txs" and "NewSubtreeData (Some s) = Ok d0"
    and "k \<le> Length s"
  shows "\<exists>b d1 n1 r1 d2 n2. Data_Serialize SerializeBytes d = Ok b \<and>
    ReadTransactionsFromReader ReadFrom TxID 0 (int k) d0 (bytes_reader (b @ rest)) = (r1, d1, n1, Ok ()) \<and>
    ReadTransactionsFromReader ReadFrom TxID (int k) (int (Length s)) d1 r1 = (bytes_reader rest, d2, n2, Ok ()) \<and>
    n1 + n2 = length txs \<and> (\<forall>i. start s \<le> i \<and> i < Length s \<longrightarrow> Txs d2 ! i = Txs d ! i)"
proof -
  have s: "node_list s \<noteq> []" "start s + length txs = Length s" using assms(3) by (simp_all add: carries_def)
  have d0: "d0 = \<lparr>DataSubtree = Some s, Txs = replicate (Size s) None\<rparr>"
    using assms(6) by (auto simp: NewSubtreeData_def make_slice_def split: if_splits)
  have size: "Length s \<le> Size s" unfolding Length_def Size_def by (rule slice_len_le_cap)
  let ?m = "k - start s" and ?l = "max k (start s)"
  let ?as = "take ?m txs" and ?bs = "drop ?m txs"
  have m: "length ?as = ?m" "start s + ?m = ?l" using s(2) assms(7) by auto
  have bel: "belong TxID s (start s) ?as" "belong TxID s ?l ?bs"
    using belong_append [of "start s" ?as s TxID ?bs] assms(5) s(2) m by simp_all
  let ?r0 = "bytes_reader (concat (map enc txs) @ rest)"
  let ?r1 = "bytes_reader (concat (map enc ?bs) @ rest)"
  have app: "concat (map enc txs) = concat (map enc ?as) @ concat (map enc ?bs)"
    by (metis append_take_drop_id concat_append map_append)
  have val: "\<forall>tx\<in>set ?as. valid tx" "\<forall>tx\<in>set ?bs. valid tx"
    using assms(4) by (auto dest: in_set_takeD in_set_dropD)
  obtain xs1 where one: "ReadTransactionsFromReader ReadFrom TxID 0 (int k) d0 ?r0 =
      (?r1, d0\<lparr>Txs := xs1\<rparr>, length ?as, Ok ())" "length xs1 = Size s" "holds_txs xs1 (start s) ?as"
    using ReadTransactionsFromReader_range [OF assms(1) s(1) val(1), where a = 0 and b = k and TxID = TxID
        and d = d0 and r = ?r0 and rest = "concat (map enc ?bs) @ rest"] bel(1) m app assms(7) size d0
    by (auto simp: bytes_reader_def)
  have l: "?l + length ?bs = Length s" "max (Length s) (start s) = Length s" using m s(2) by auto
  obtain xs2 where two: "ReadTransactionsFromReader ReadFrom TxID (int k) (int (Length s)) (d0\<lparr>Txs := xs1\<rparr>) ?r1 =
      (bytes_reader rest, d0\<lparr>Txs := xs2\<rparr>, length ?bs, Ok ())" "holds_txs xs2 ?l ?bs"
      "\<forall>i < ?l. i < Size s \<longrightarrow> xs2 ! i = xs1 ! i"
    using ReadTransactionsFromReader_range [OF assms(1) s(1) val(2), where a = k and b = "Length s"
        and TxID = TxID and d = "d0\<lparr>Txs := xs1\<rparr>" and r = ?r1 and rest = rest] bel(2) l assms(7) size d0 one(2)
    by (auto simp: bytes_reader_def)
  have "xs2 ! i = Txs d ! i" if i: "start s \<le> i" "i < Length s" for i
  proof (cases "i < ?l")
    case True
    then have "xs1 ! i = Some (?as ! (i - start s))" "?as ! (i - start s) = txs ! (i - start s)"
      using holds_txs_nth [OF one(3) i(1)] i m by auto
    then show ?thesis using True two(3) i size carries_nth [OF assms(3) i] by simp
  next
    case False
    then have "xs2 ! i = Some (?bs ! (i - ?l))"
      using holds_txs_nth [OF two(2), of i] i l(1) by simp
    moreover have "?m + (i - ?l) = i - start s" using False m(2) by simp
    ultimately show ?thesis using False carries_nth [OF assms(3) i] m(1) by simp
  qed
  moreover have "length ?as + length ?bs = length txs" by simp
  ultimately show ?thesis
    using one(1) two(1) Data_Serialize_carries [OF assms(2,3)] by (intro exI conjI) (assumption | simp)+
qed

theorem streamed_roundtrip_witness:
  "\<exists>b d0 d1 n1 r1 d2 n2. NewSubtreeData (Some coinbase_subtree) = Ok d0 \<and>
    Data_Serialize hash_serializer \<lparr>DataSubtree = Some coinbase_subtree, Txs = [None, Some 2, Some 3]\<rparr> = Ok b \<and>
    ReadTransactionsFromReader read_hash id 0 2 d0 (bytes_reader (b @ [5])) = (r1, d1, n1, Ok ()) \<and>
    ReadTransactionsFromReader read_hash id 2 3 d1 r1 = (bytes_reader [5], d2, n2, Ok ()) \<and>
    n1 + n2 = 2 \<and> Txs d2 ! 2 = Some 3"
proof -
  let ?d = "\<lparr>DataSubtree = Some coinbase_subtree, Txs = [None, Some 2, Some 3 :: hash option]\<rparr>"
  have c: "carries coinbase_subtree [2, 3] ?d" by (auto simp: carries_def holds_txs_def less_Suc_eq)
  have n: "NewSubtreeData (Some coinbase_subtree) =
      Ok \<lparr>DataSubtree = Some coinbase_subtree, Txs = replicate 4 (None :: hash option)\<rparr>"
    by (simp add: NewSubtreeData_def make_slice_def max_alloc_def)
  have v: "\<forall>tx\<in>set [2, 3]. (\<lambda>_ :: hash. True) tx" "(2 :: nat) \<le> Length coinbase_subtree" by simp_all
  have b: "belong id coinbase_subtree (start coinbase_subtree) [2, 3]" using coinbase_subtree_belong(1) by simp
  have at2: "start coinbase_subtree \<le> 2 \<and> 2 < Length coinbase_subtree" by simp
  from streamed_roundtrip [OF read_hash_format(1,5) c v(1) b n v(2), of "[5]"] at2
  show ?thesis using n by (fastforce simp: hash_serializer_def [abs_def])
qed

text \<open>C40: \<open>WriteTransactionChunk\<close> writes the transactions of a slice and skips its nil entries;
  \<open>ReadTransactionChunk\<close>, from the index of the first one's node, reads them back in order, whether
  the count is exact or the data end before.\<close>

theorem chunk_roundtrip:
  assumes "codec enc ReadFrom valid" and "reports_eof ReadFrom" and "serializes enc SerializeBytes"
    and "node_list s \<noteq> []" and "start s \<le> i" and "List.map_filter id txs = ts" and "\<forall>tx\<in>set ts. valid tx"
    and "belong TxID s i ts" and "length ts \<le> n" and "8 * int n \<le> max_alloc" and "room w = None"
  shows "\<exists>bs r'. WriteTransactionChunk SerializeBytes txs w = (w\<lparr>sent := sent w @ bs\<rparr>, Ok ()) \<and>
    ReadTransactionChunk ReadFrom TxID (Some s) (int i) (int n) (bytes_reader bs) = (r', ts, Ok ())"
proof -
  obtain r' where "read_chunk ReadFrom TxID s n (int i) [] (bytes_reader (concat (map enc ts))) = (r', ts, Ok ())"
    using read_chunk_enc [OF assms(1,2,4,5,7,8,9), of "bytes_reader (concat (map enc ts))" "[]"] by auto
  moreover have "make_slice 8 () 0 (int n) = Ok (Slice [] (replicate n ()))"
    using assms(10) by (simp add: make_slice_def)
  ultimately have "ReadTransactionChunk ReadFrom TxID (Some s) (int i) (int n)
      (bytes_reader (concat (map enc ts))) = (r', ts, Ok ())"
    using assms(4) by (simp add: ReadTransactionChunk_def no_nodes_eq)
  then show ?thesis using WriteTransactionChunk_filter [OF assms(3,11), of txs] assms(6) by blast
qed

theorem chunk_roundtrip_witness:
  "\<exists>bs r'. WriteTransactionChunk hash_serializer [Some 2, None, Some 3] \<lparr>sent = [], room = None, werr = IoEOF\<rparr> =
      (\<lparr>sent = bs, room = None, werr = IoEOF\<rparr>, Ok ()) \<and>
    ReadTransactionChunk read_hash id (Some coinbase_subtree) 1 5 (bytes_reader bs) = (r', [2, 3], Ok ())"
  using chunk_roundtrip [OF read_hash_format(1,2,5), where s = coinbase_subtree and i = 1 and n = 5 and ts = "[2, 3]"
      and txs = "[Some 2, None, Some 3]" and TxID = id and w = "\<lparr>sent = [], room = None, werr = IoEOF\<rparr>"]
    coinbase_subtree_belong(1)
  by (simp add: map_filter_simps max_alloc_def hash_serializer_def [abs_def])

text \<open>The two readers of a range treat a range beyond the subtree differently: with one more
  transaction in the input, \<open>ReadTransactionChunk\<close> stops at the end of the subtree and leaves the
  input alone, while \<open>ReadTransactionsFromReader\<close> reads it and panics.\<close>

theorem range_beyond_subtree:
  assumes "codec enc ReadFrom valid" and "valid tx" and "node_list s \<noteq> []" and "DataSubtree d = Some s"
    and "rdata r = enc tx @ rest"
  shows "ReadTransactionChunk ReadFrom TxID (Some s) (int (Length s)) 1 r = (r, [], Ok ()) \<and>
    ReadTransactionsFromReader ReadFrom TxID (int (Length s)) (int (Length s) + 1) d r =
      (r\<lparr>rdata := rest\<rparr>, d, 0, Panic IndexOutOfRange)"
proof -
  have read: "ReadFrom r = (r\<lparr>rdata := rest\<rparr>, Ok tx)" using assms(1,2,5) by (rule codec.dec_enc)
  have skip: "skips s (int (Length s)) = Ok False"
    using skips_eq [OF assms(3), of "Length s"] start_le [OF assms(3)] by simp
  have "node_hash (Some s) (int (Length s)) = Panic IndexOutOfRange"
    by (simp add: node_hash_def index_get_def Length_node_list)
  then have "read_range ReadFrom TxID s 1 (int (Length s)) (Txs d) 0 r =
      (r\<lparr>rdata := rest\<rparr>, Txs d, 0, Panic IndexOutOfRange)"
    using read skip by simp
  moreover have "make_slice 8 () 0 1 = Ok (Slice [] [()])" by (simp add: make_slice_def max_alloc_def)
  ultimately show ?thesis
    using assms(3,4) by (simp add: ReadTransactionChunk_def ReadTransactionsFromReader_def no_nodes_eq)
qed

theorem range_beyond_subtree_witness:
  "snd (snd (snd (ReadTransactionsFromReader read_hash id 3 4
      \<lparr>DataSubtree = Some coinbase_subtree, Txs = [None, None, None, None]\<rparr> (bytes_reader (hash_bytes 4))))) =
    Panic IndexOutOfRange"
  using range_beyond_subtree [OF read_hash_format(1), where tx = 4 and s = coinbase_subtree and rest = "[]"
      and TxID = id and d = "\<lparr>DataSubtree = Some coinbase_subtree, Txs = [None, None, None, None]\<rparr>"
      and r = "bytes_reader (hash_bytes 4)"] by simp

end
