(* ===== verification/Spec2Isabelle.thy ===== *)
theory Spec2Isabelle
  imports Power_Of_Two Merkle_Parallel Mmap_Store Coinbase_Placeholder Subtree_Ledger
    Subtree_Concurrent Subtree_Codec Subtree_Api Inpoints Subtree_Meta Subtree_Data
begin

text \<open>
  A model of go-subtree, the Go package for the subtrees of Bitcoin SV blocks, and the theorems that
  make it correct.

  The program.  A \<open>Subtree\<close> (\<open>subtree.go\<close>) collects the transactions of a part of a block as nodes
  (hash, fee, size) up to a power of two, keeps sums, an index and a cached merkle root, and is
  written to and read from a binary format.  The root and the proofs come from the merkle tree store
  (\<open>merkle_tree.go\<close>), an array built level by level, by goroutines for large levels.  The nodes
  live on the heap, in storage of the caller, or in a mapped file (\<open>mmap_store.go\<close>).  A \<open>Meta\<close>
  (\<open>subtree_meta.go\<close>) adds the inputs of every node's transaction (\<open>TxInpoints\<close>, \<open>inpoints.go\<close>), a
  \<open>Data\<close> (\<open>subtree_data.go\<close>) the transactions themselves; both refer to a subtree and have formats
  of their own.

  The theories, in the order of their imports.
  \<^item> \<open>Errors\<close> (\<open>errors.go\<close>): the sentinel errors and their wrapping.
  \<^item> \<open>Go_Prelude\<close>: what is shared of Go: outcomes (a value, an error, a panic), 64-bit
    integers, indexing, slices with their spare capacity.
  \<^item> \<open>Power_Of_Two\<close> (\<open>power_of_two.go\<close>, \<open>compare.go\<close>): the roundings to powers of two.
  \<^item> \<open>Bytes_Codec\<close>: little-endian bytes, readers (\<open>io.Reader\<close>), and the locales \<open>codec\<close> and
    \<open>fixed_codec\<close>, the contract between a writer and the reader of its format.  Their lemmas (lists,
    arrays, loaders of objects) are proved once; the formats of integers, hashes, nodes, subtrees,
    inpoints and arrays of inpoints are interpretations, and the format of go-bt's transactions is a
    hypothesis of that form.  Its last section is \<open>bufio\<close>: four readers of \<open>subtree.go\<close> read through a
    buffer of 32 KB, which takes more from the reader of the caller than it delivers.  \<open>buffering\<close> is
    what the caller sees of its own reader, for any sizes in which that reader gives its bytes, and
    \<open>bufio_read_full_refines\<close> relates it to a buffer that is filled when it is empty.
  \<^item> \<open>Merkle_Spec\<close>: Bitcoin's merkle tree as a recursion on the list of leaves, its levels, proofs
    and verification, and how trees of a power of two compose.
  \<^item> \<open>Merkle_Tree\<close> (\<open>merkle_tree.go\<close>): the store, as the code builds it, refines the specification.
  \<^item> \<open>Merkle_Parallel\<close>: the goroutines of a level as an inductive step relation, any interleaving
    of rounds of \<open>calcMerkles\<close>; determinism, progress, freedom from races.
  \<^item> \<open>Mmap_Store\<close> (\<open>mmap_store.go\<close>, \<open>mmap_unix.go\<close>, \<open>mmap_windows.go\<close>): acquiring and
    releasing a mapped file, for any answers of the operating system, the removal of a file and the
    unmapping, which may be refused, included.
  \<^item> \<open>Coinbase_Placeholder\<close> (\<open>coinbase_placeholder.go\<close>).
  \<^item> \<open>Subtree\<close> (\<open>subtree.go\<close>, state, constructors, nodes, index): the record \<open>subtree\<close> has the fields
    of the struct but the mutex.  The locale \<open>node_adder\<close> is what the three ways to add a node
    share.
  \<^item> \<open>Subtree_Root\<close> (\<open>subtree.go\<close>, roots and proofs; \<open>GetMerkleProofForCoinbase\<close>): the cached root as
    an invariant of the operations, merkle proofs complete and sound, padding composes, and what
    becomes of the coinbase proof without it.
  \<^item> \<open>Subtree_Ledger\<close>: what a subtree promises as an abstract machine, a list of entries with a
    capacity; the operations refine it on every branch, and on a mapped tree they never leave the
    mapping.
  \<^item> \<open>Subtree_Concurrent\<close>: the mutex.  Goroutines that call \<open>AddSubtreeNode\<close>, \<open>RemoveNodeAtIndex\<close>,
    \<open>Length\<close>, \<open>Size\<close>, \<open>IsComplete\<close> and \<open>NodeIndex\<close>, as an inductive step relation over their statements.
    The calls that hold the mutex are atomic and always end, and among themselves free from races;
    \<open>NodeIndex\<close>, which reads the index outside of the mutex, is not atomic, and every race is one with
    such a read.
  \<^item> \<open>Subtree_Codec\<close> (\<open>subtree.go\<close>, binary format): the writers, and the readers onto the heap, into
    storage of the caller, into a mapped file, and of parts only.
  \<^item> \<open>Subtree_Api\<close>: the states that a program can bring a subtree to with all of this, as an inductive
    relation (constructors on the heap and mapped, operations, \<open>ReleaseNodes\<close>, readers of what such a
    subtree wrote), with the invariants of the cached root, the sums and the index, and the calls that
    break each of them.
  \<^item> \<open>Inpoints\<close> (\<open>inpoints.go\<close>): the packed array, with lists of groups as its abstraction.
  \<^item> \<open>Subtree_Meta\<close> (\<open>subtree_meta.go\<close>) and \<open>Subtree_Data\<close> (\<open>subtree_data.go\<close>).

  Conventions.  A method is a function from its receiver to the new receiver and the outcome.
  Definitions have the names of the code; where two Go types have a method of the same name, the
  second is prefixed (\<open>Meta_Serialize\<close>, \<open>Data_Serialize\<close>, \<open>TxInpoints_Serialize\<close>).  A hash is the
  256-bit number of its bytes; the zero hash is the code's mark for a missing node.  \<open>growth\<close> is the
  choice of the run-time system when \<open>append\<close> needs a larger array, \<open>sha256\<close> the hash function, both
  arbitrary.  Code outside this repository is a parameter: SHA-256, \<open>bt.Tx\<close> and \<open>bt.Input\<close>,
  \<open>TxMap\<close>, \<open>safe.IntToUint32\<close> and \<open>safe.Uint64ToInt\<close>, and the operating system.

  Bounds.  Go on linux/amd64: \<open>int\<close> has 64 bits, \<open>make\<close> panics beyond \<open>2^48\<close> bytes, so a slice of nodes
  has at most \<open>2^48 / 48 < 2^43\<close> elements and a tree that can be made a height of at most 42.  In that
  range the floating-point logarithms and powers of the code are exact.  No fuel is used: loops are
  recursions on a count, functions with a measure, or, for the one loop that the input could keep
  going (\<open>read_txs\<close>), a partial function that is proved to return when transactions have a size.

  Hypotheses that recur.  \<open>tree_nonzero\<close>: no hash of the tree is the zero hash.  \<open>cache_valid\<close>: a
  cached root is the root (every state of \<open>Subtree_Api\<close> with nodes has it; a subtree that was read from
  other bytes has the root that was in them).  \<open>index_valid\<close>: an index that was built is that of the nodes.
  \<open>os_documented\<close>: a file or mapping that the system gives is a new one.  \<open>allocatable\<close>, \<open>fits\<close>, \<open>roomy\<close>: the slices can be made.

  Not modelled: \<open>Read\<close>s of the caller's reader that go on returning nothing (\<open>bufio\<close> gives up after a
  hundred), the memory model of Go (statements of goroutines are sequentially consistent), concurrent calls of the methods that do not use the mutex
  other than \<open>NodeIndex\<close>, sharing of one array between several slices beyond what is said at the operations
  concerned, exhaustion of memory below the limit of \<open>make\<close>, \<open>TxInpoints.String\<close>, the JSON tags, and
  \<open>examples/\<close>, which holds no code.
\<close>

end
